(* ===== verification/Prelude.thy ===== *)
theory Prelude
  imports Main "HOL-Library.Word" "HOL-Library.AList" "HOL-Library.List_Lexorder"
    "HOL-Library.Char_ord"
begin

text \<open>
  Shared vocabulary of the development: Go's fixed-width integers and byte slices, the
  big-endian codecs of \<open>encoding/binary\<close>, decimal conversion as in \<open>strconv\<close>, the binary
  search of the \<open>sort\<close> package, the error values, and the generic list lemmas the component
  theories share.
\<close>

section \<open>Types\<close>

type_synonym byte = "8 word"
type_synonym bytes = "byte list"
type_synonym u16 = "16 word"
type_synonym u32 = "32 word"
type_synonym u64 = "64 word"
text \<open>Signed integers are the same bit patterns, read with \<open>sint\<close>.\<close>
type_synonym i32 = "32 word"
type_synonym i64 = "64 word"

named_theorems codec_simps \<open>length and round-trip facts of the wire formats\<close>
named_theorems io_simps \<open>what a file operation does to the directory\<close>

section \<open>Errors\<close>

text \<open>
  One constructor per error the sources create, plus those the operating-system calls return
  and the run-time panics. \<open>Wrap\<close> is \<open>fmt.Errorf\<close> with a wrapped cause.
\<close>

datatype error =
    ErrInvalid                        \<comment> \<open>a method on a nil \<open>*os.File\<close>\<close>
  | ErrEOF
  | ErrShortWrite
  | ErrNotExist
  | ErrIO                             \<comment> \<open>any failing system call\<close>
  | NegativeOffset
  | Panic string
  | Msg string                        \<comment> \<open>\<open>errors.New\<close> with a fixed text\<close>
  | OffsetErr string u64              \<comment> \<open>\<open>fmt.Errorf\<close> naming one offset\<close>
  | OffsetErr2 string u64 u64
  | NumErr string int
  | Wrap string error

type_synonym 'a res = "error + 'a"

fun is_ok :: "'a res \<Rightarrow> bool" where
  "is_ok (Inl _) = False"
| "is_ok (Inr _) = True"

lemma is_ok_iff: "is_ok r \<longleftrightarrow> (\<exists>x. r = Inr x)"
  by (cases r) auto

section \<open>Big-endian codecs\<close>

text \<open>
  \<open>be_bytes n v\<close> is the \<open>n\<close>-byte big-endian image of \<open>v\<close>, \<open>be_val\<close> reads one back:
  what \<open>binary.BigEndian.PutUint16/32/64\<close> and \<open>Uint16/32/64\<close> do.
\<close>

fun be_bytes :: "nat \<Rightarrow> nat \<Rightarrow> bytes" where
  "be_bytes 0 v = []"
| "be_bytes (Suc n) v = be_bytes n (v div 256) @ [word_of_nat v]"

definition be_val :: "bytes \<Rightarrow> nat" where
  "be_val bs = foldl (\<lambda>a b. a * 256 + unat b) 0 bs"

lemma length_be_bytes [simp]: "length (be_bytes n v) = n"
  by (induction n arbitrary: v) auto

lemma be_val_snoc: "be_val (bs @ [b]) = be_val bs * 256 + unat b"
  by (simp add: be_val_def)

lemma be_val_be_bytes: "be_val (be_bytes n v) = v mod 256 ^ n"
proof (induction n arbitrary: v)
  case 0
  then show ?case by (simp add: be_val_def)
next
  case (Suc n)
  have "be_val (be_bytes (Suc n) v) = (v div 256) mod 256 ^ n * 256 + v mod 256"
    by (simp add: be_val_snoc Suc.IH unat_of_nat)
  also have "\<dots> = v mod 256 ^ Suc n"
    by (simp add: mod_mult2_eq)
  finally show ?case .
qed

definition PutUint16 :: "u16 \<Rightarrow> bytes" where "PutUint16 v = be_bytes 2 (unat v)"
definition PutUint32 :: "u32 \<Rightarrow> bytes" where "PutUint32 v = be_bytes 4 (unat v)"
definition PutUint64 :: "u64 \<Rightarrow> bytes" where "PutUint64 v = be_bytes 8 (unat v)"
definition Uint16 :: "bytes \<Rightarrow> u16" where "Uint16 bs = word_of_nat (be_val (take 2 bs))"
definition Uint32 :: "bytes \<Rightarrow> u32" where "Uint32 bs = word_of_nat (be_val (take 4 bs))"
definition Uint64 :: "bytes \<Rightarrow> u64" where "Uint64 bs = word_of_nat (be_val (take 8 bs))"

text \<open>
  The interface the wire formats rely on: an encoder of fixed width whose decoder reads the
  leading bytes of whatever follows. The three widths interpret it.
\<close>

locale fixed_width =
  fixes put :: "'a \<Rightarrow> bytes" and get :: "bytes \<Rightarrow> 'a" and width :: nat
  assumes put_width: "length (put v) = width"
    and get_put: "get (put v @ rest) = v"
begin

lemma get_put_alone: "get (put v) = v"
  using get_put [of v "[]"] by simp

lemma take_put: "take width (put v @ rest) = put v"
  by (simp add: put_width)

lemma drop_put: "drop width (put v @ rest) = rest"
  by (simp add: put_width)

lemma put_inject: "put v @ r = put w @ s \<longleftrightarrow> v = w \<and> r = s"
  by (metis get_put drop_put)

end

lemma unat_lt_pow: "unat (v :: 'a::len word) < 2 ^ LENGTH('a)"
  by (rule unsigned_less)

interpretation be16: fixed_width PutUint16 Uint16 2
proof
  fix v :: u16 and rest :: bytes
  show "length (PutUint16 v) = 2" by (simp add: PutUint16_def)
  show "Uint16 (PutUint16 v @ rest) = v"
    using unat_lt_pow [of v] by (simp add: PutUint16_def Uint16_def be_val_be_bytes)
qed

interpretation be32: fixed_width PutUint32 Uint32 4
proof
  fix v :: u32 and rest :: bytes
  show "length (PutUint32 v) = 4" by (simp add: PutUint32_def)
  show "Uint32 (PutUint32 v @ rest) = v"
    using unat_lt_pow [of v] by (simp add: PutUint32_def Uint32_def be_val_be_bytes)
qed

interpretation be64: fixed_width PutUint64 Uint64 8
proof
  fix v :: u64 and rest :: bytes
  show "length (PutUint64 v) = 8" by (simp add: PutUint64_def)
  show "Uint64 (PutUint64 v @ rest) = v"
    using unat_lt_pow [of v] by (simp add: PutUint64_def Uint64_def be_val_be_bytes)
qed

lemmas be_codec [codec_simps] =
  be16.put_width be32.put_width be64.put_width
  be16.get_put be32.get_put be64.get_put
  be16.get_put_alone be32.get_put_alone be64.get_put_alone

section \<open>Strings and decimal conversion\<close>

text \<open>A Go string is a byte sequence; \<open>string\<close> is a list of 8-bit characters.\<close>

definition bytes_of_string :: "string \<Rightarrow> bytes" where
  "bytes_of_string s = map (\<lambda>c. word_of_nat (of_char c)) s"

definition string_of_bytes :: "bytes \<Rightarrow> string" where
  "string_of_bytes bs = map (\<lambda>b. char_of (unat b)) bs"

lemma length_bytes_of_string [simp]: "length (bytes_of_string s) = length s"
  by (simp add: bytes_of_string_def)

lemma string_of_bytes_of_string [codec_simps]: "string_of_bytes (bytes_of_string s) = s"
  by (induction s) (simp_all add: bytes_of_string_def string_of_bytes_def unat_of_nat
      take_bit_eq_mod [symmetric])

lemma bytes_of_string_inject: "bytes_of_string s = bytes_of_string t \<longleftrightarrow> s = t"
  by (metis string_of_bytes_of_string)

text \<open>\<open>strconv.FormatUint(n, 10)\<close>, \<open>strconv.Itoa\<close> on naturals and \<open>fmt.Sprintf("%d")\<close>.\<close>

definition digit_char :: "nat \<Rightarrow> char" where
  "digit_char k = char_of (48 + k)"

definition digit_val :: "char \<Rightarrow> nat option" where
  "digit_val c = (let k = of_char c in if 48 \<le> k \<and> k \<le> 57 then Some (k - 48) else None)"

fun format_uint :: "nat \<Rightarrow> string" where
  "format_uint n =
     (if n < 10 then [digit_char n] else format_uint (n div 10) @ [digit_char (n mod 10)])"

declare format_uint.simps [simp del]

fun parse_digits :: "nat \<Rightarrow> string \<Rightarrow> nat option" where
  "parse_digits acc [] = Some acc"
| "parse_digits acc (c # cs) =
     (case digit_val c of None \<Rightarrow> None | Some k \<Rightarrow> parse_digits (acc * 10 + k) cs)"

text \<open>\<open>strconv.ParseUint(s, 10, 64)\<close>: a non-empty run of digits below \<open>2^64\<close>.\<close>

definition ParseUint :: "string \<Rightarrow> u64 option" where
  "ParseUint s =
     (if s = [] then None
      else case parse_digits 0 s of
             None \<Rightarrow> None
           | Some n \<Rightarrow> if n < 2 ^ 64 then Some (word_of_nat n) else None)"

lemma digit_val_digit_char: "k < 10 \<Longrightarrow> digit_val (digit_char k) = Some k"
  by (simp add: digit_val_def digit_char_def)

lemma parse_digits_append:
  "parse_digits acc (xs @ ys) =
     (case parse_digits acc xs of None \<Rightarrow> None | Some a \<Rightarrow> parse_digits a ys)"
  by (induction acc xs rule: parse_digits.induct) (auto split: option.splits)

lemma parse_format: "parse_digits 0 (format_uint n) = Some n"
proof (induction n rule: format_uint.induct)
  case (1 n)
  then show ?case
    by (cases "n < 10")
      (simp_all add: format_uint.simps [of n] digit_val_digit_char parse_digits_append)
qed

lemma format_uint_not_Nil [simp]: "format_uint n \<noteq> []"
  by (subst format_uint.simps) simp

lemma format_uint_inject: "format_uint m = format_uint n \<longleftrightarrow> m = n"
  by (metis parse_format option.inject)

lemma ParseUint_format [codec_simps]: "ParseUint (format_uint (unat (n :: u64))) = Some n"
  using unat_lt_pow [of n] by (simp add: ParseUint_def parse_format)

section \<open>Binary search\<close>

text \<open>
  \<open>sort.Search(n, f)\<close>: the loop of Go's standard library over a half-open interval.
\<close>

function sort_search_loop :: "(nat \<Rightarrow> bool) \<Rightarrow> nat \<Rightarrow> nat \<Rightarrow> nat" where
  "sort_search_loop f i j =
     (if i < j then
        let h = (i + j) div 2
        in if \<not> f h then sort_search_loop f (h + 1) j else sort_search_loop f i h
      else i)"
  by pat_completeness auto
termination
  by (relation "measure (\<lambda>(f, i, j). j - i)") auto

declare sort_search_loop.simps [simp del]

definition sort_search :: "nat \<Rightarrow> (nat \<Rightarrow> bool) \<Rightarrow> nat" where
  "sort_search n f = sort_search_loop f 0 n"

lemma sort_search_loop_stop: "\<not> i < j \<Longrightarrow> sort_search_loop f i j = i"
  by (subst sort_search_loop.simps) simp

lemma sort_search_loop_step:
  "i < j \<Longrightarrow> sort_search_loop f i j =
     (if f ((i + j) div 2) then sort_search_loop f i ((i + j) div 2)
      else sort_search_loop f ((i + j) div 2 + 1) j)"
  by (subst sort_search_loop.simps) (simp add: Let_def)

text \<open>For a monotone predicate the loop finds the boundary: false below it, true from it on.\<close>

definition boundary :: "nat \<Rightarrow> (nat \<Rightarrow> bool) \<Rightarrow> nat \<Rightarrow> bool" where
  "boundary n f b \<longleftrightarrow> b \<le> n \<and> (\<forall>k < b. \<not> f k) \<and> (\<forall>k. b \<le> k \<and> k < n \<longrightarrow> f k)"

lemma sort_search_loop_spec:
  assumes "i \<le> j" "j \<le> n" "\<forall>k < i. \<not> f k" "\<forall>k. j \<le> k \<and> k < n \<longrightarrow> f k"
    and mono: "\<forall>a b. a \<le> b \<and> b < n \<and> f a \<longrightarrow> f b"
  shows "boundary n f (sort_search_loop f i j)"
  using assms
proof (induction f i j rule: sort_search_loop.induct)
  case (1 f i j)
  show ?case
  proof (cases "i < j")
    case False
    with "1.prems" show ?thesis by (simp add: sort_search_loop_stop boundary_def)
  next
    case True
    define h where "h = (i + j) div 2"
    from True have h: "i \<le> h" "h < j" by (auto simp: h_def)
    show ?thesis
    proof (cases "f h")
      case True
      then have up: "\<forall>k. h \<le> k \<and> k < n \<longrightarrow> f k" using "1.prems"(5) by blast
      have "boundary n f (sort_search_loop f i h)"
        by (rule "1.IH"(2) [OF \<open>i < j\<close> h_def]) (use True h up "1.prems" in simp_all)
      then show ?thesis using True \<open>i < j\<close> by (simp add: sort_search_loop_step h_def)
    next
      case False
      have low: "\<forall>k < h + 1. \<not> f k"
      proof (intro allI impI notI)
        fix k assume "k < h + 1" "f k"
        then have "k \<le> h \<and> h < n \<and> f k" using h "1.prems"(2) by auto
        then have "f h" using "1.prems"(5) by blast
        with False show False by simp
      qed
      have "boundary n f (sort_search_loop f (h + 1) j)"
        by (rule "1.IH"(1) [OF \<open>i < j\<close> h_def]) (use False h low "1.prems" in simp_all)
      then show ?thesis using False \<open>i < j\<close> by (simp add: sort_search_loop_step h_def)
    qed
  qed
qed

lemma sort_search_boundary:
  assumes "\<forall>a b. a \<le> b \<and> b < n \<and> f a \<longrightarrow> f b"
  shows "boundary n f (sort_search n f)"
  unfolding sort_search_def by (rule sort_search_loop_spec) (use assms in auto)

lemma boundary_le: "boundary n f b \<Longrightarrow> boundary n f c \<Longrightarrow> b \<le> c"
  unfolding boundary_def by (metis le_less_linear le_refl less_le_trans)

lemma boundary_unique: "boundary n f b \<Longrightarrow> boundary n f c \<Longrightarrow> b = c"
  by (simp add: boundary_le le_antisym)

section \<open>Concatenated records\<close>

lemma drop_concat_take: "drop (length (concat (take i xs))) (concat xs) = concat (drop i xs)"
proof -
  have "concat xs = concat (take i xs) @ concat (drop i xs)"
    by (metis append_take_drop_id concat_append)
  then show ?thesis by simp
qed

lemma slice_concat:
  "i < length xs \<Longrightarrow> take (length (xs ! i)) (drop (length (concat (take i xs))) (concat xs)) = xs ! i"
  by (simp add: drop_concat_take Cons_nth_drop_Suc [symmetric])

lemma length_concat_take_Suc:
  "i < length xs \<Longrightarrow> length (concat (take (Suc i) xs)) = length (concat (take i xs)) + length (xs ! i)"
  by (simp add: take_Suc_conv_app_nth)

lemma length_concat_const: "(\<And>x. x \<in> set xs \<Longrightarrow> length x = n) \<Longrightarrow> length (concat xs) = n * length xs"
  by (induction xs) auto

lemma length_concat_take_le: "length (concat (take i xs)) \<le> length (concat xs)"
  by (metis append_take_drop_id concat_append le_add1 length_append)

lemma sorted_wrt_less_nth_iff:
  "sorted_wrt (<) (xs :: 'a::linorder list) \<Longrightarrow> i < length xs \<Longrightarrow> j < length xs \<Longrightarrow>
     xs ! i < xs ! j \<longleftrightarrow> i < j"
  by (metis linorder_neqE_nat order.asym order_less_irrefl sorted_wrt_nth_less)

section \<open>Words\<close>

lemma word_neq_minus_one: "(w :: 'a::len word) \<noteq> -1 \<longleftrightarrow> unat w + 1 < 2 ^ LENGTH('a)"
proof -
  have "w = -1 \<longleftrightarrow> unat w = 2 ^ LENGTH('a) - 1"
    by (simp add: word_unat_eq_iff unsigned_minus_1_eq_mask mask_eq_exp_minus_1)
  then show ?thesis using unat_lt_pow [of w] by linarith
qed

lemma word_less_succ: "(w :: 'a::len word) \<noteq> -1 \<Longrightarrow> w < w + 1"
  by (simp add: word_neq_minus_one word_less_nat_alt unat_word_ariths)

section \<open>Filtering lists with option-valued functions\<close>

lemma set_map_filter: "set (List.map_filter f xs) = {y. \<exists>x \<in> set xs. f x = Some y}"
  by (induction xs) (auto simp: List.map_filter_simps split: option.splits)

lemma distinct_map_filter:
  "distinct xs \<Longrightarrow> (\<And>x y b. x \<in> set xs \<Longrightarrow> y \<in> set xs \<Longrightarrow> f x = Some b \<Longrightarrow> f y = Some b \<Longrightarrow> x = y)
     \<Longrightarrow> distinct (List.map_filter f xs)"
proof (induction xs)
  case Nil
  then show ?case by (simp add: List.map_filter_simps)
next
  case (Cons x xs)
  then show ?case
    by (auto simp: List.map_filter_simps set_map_filter split: option.splits)
qed

end
