(* ===== verification/ConsumerGroups.thy ===== *)
theory ConsumerGroups
  imports Prelude
begin

text \<open>
  \<open>src/internal/broker/consumer_group.go\<close>: committed consumer-group offsets, cached in memory
  and persisted in a bbolt database. bbolt is not part of the sources: its operations are the
  record \<open>bolt\<close>, over an arbitrary type of database states, and \<open>bolt_ok\<close> is what its
  documentation promises of an \<open>Update\<close> transaction.
\<close>

section \<open>The database\<close>

record 'db bolt =
  bolt_open :: "'db \<Rightarrow> error option \<times> 'db"
  bolt_create :: "'db \<Rightarrow> error option \<times> 'db"
  bolt_bucket :: "'db \<Rightarrow> bool"
  bolt_put :: "bytes \<Rightarrow> bytes \<Rightarrow> 'db \<Rightarrow> error option \<times> 'db"
  bolt_view :: "'db \<Rightarrow> error option"
  bolt_each :: "'db \<Rightarrow> (bytes \<times> bytes) list"
  bolt_close :: "'db \<Rightarrow> error option \<times> 'db"

text \<open>
  A successful \<open>Update\<close> with \<open>Put\<close> sets one key; a failed one changes nothing; opening, creating
  the bucket and closing keep the contents; keys are listed once.
\<close>

definition bolt_ok :: "'db bolt \<Rightarrow> bool" where
  "bolt_ok ops \<longleftrightarrow>
     (\<forall>db k v db'. bolt_put ops k v db = (None, db') \<longrightarrow>
        map_of (bolt_each ops db') = (map_of (bolt_each ops db))(k \<mapsto> v))
     \<and> (\<forall>db k v e db'. bolt_put ops k v db = (Some e, db') \<longrightarrow>
        map_of (bolt_each ops db') = map_of (bolt_each ops db))
     \<and> (\<forall>db. map_of (bolt_each ops (snd (bolt_open ops db))) = map_of (bolt_each ops db))
     \<and> (\<forall>db. map_of (bolt_each ops (snd (bolt_create ops db))) = map_of (bolt_each ops db))
     \<and> (\<forall>db. map_of (bolt_each ops (snd (bolt_close ops db))) = map_of (bolt_each ops db))
     \<and> (\<forall>db. distinct (map fst (bolt_each ops db)))"

section \<open>The store\<close>

record ConsumerGroupOffset =
  cgo_GroupID :: string
  cgo_Topic :: string
  cgo_Partition :: i32
  cgo_Offset :: u64

record 'db ConsumerGroupStore =
  cg_db :: 'db
  cg_offsets :: "string \<rightharpoonup> u64"

definition NUL :: char where "NUL = CHR 0x00"

definition offsetKey :: "string \<Rightarrow> string \<Rightarrow> i32 \<Rightarrow> string" where
  "offsetKey groupID topic part =
     groupID @ [NUL] @ topic @ [NUL] @ string_of_bytes (PutUint32 part)"

text \<open>The body of \<open>bucket.ForEach\<close> in \<open>load\<close>, over the remaining entries.\<close>

fun load_entries :: "(bytes \<times> bytes) list \<Rightarrow> (string \<rightharpoonup> u64) \<Rightarrow> (string \<rightharpoonup> u64) res" where
  "load_entries [] m = Inr m"
| "load_entries ((k, v) # kvs) m =
     (if length v \<noteq> 8 then Inl (Msg ''invalid committed offset for key'')
      else load_entries kvs (m(string_of_bytes k \<mapsto> Uint64 v)))"

definition cg_load :: "'db bolt \<Rightarrow> 'db ConsumerGroupStore \<Rightarrow> 'db ConsumerGroupStore res" where
  "cg_load ops s =
     (case bolt_view ops (cg_db s) of
        Some e \<Rightarrow> Inl e
      | None \<Rightarrow>
          if \<not> bolt_bucket ops (cg_db s) then Inl (Msg ''consumer-groups bucket does not exist'')
          else map_sum id (\<lambda>m. s\<lparr>cg_offsets := m\<rparr>)
                 (load_entries (bolt_each ops (cg_db s)) (cg_offsets s)))"

definition NewConsumerGroupStore :: "'db bolt \<Rightarrow> 'db \<Rightarrow> 'db ConsumerGroupStore res \<times> 'db" where
  "NewConsumerGroupStore ops db =
     (case bolt_open ops db of
        (Some e, db1) \<Rightarrow> (Inl e, db1)
      | (None, db1) \<Rightarrow>
      case bolt_create ops db1 of
        (Some e, db2) \<Rightarrow> (Inl e, snd (bolt_close ops db2))
      | (None, db2) \<Rightarrow>
      case cg_load ops \<lparr>cg_db = db2, cg_offsets = Map.empty\<rparr> of
        Inl e \<Rightarrow> (Inl e, snd (bolt_close ops db2))
      | Inr s \<Rightarrow> (Inr s, db2))"

definition cg_CommitOffset ::
  "'db bolt \<Rightarrow> string \<Rightarrow> string \<Rightarrow> i32 \<Rightarrow> u64 \<Rightarrow> 'db ConsumerGroupStore \<Rightarrow> unit res \<times> 'db ConsumerGroupStore"
where
  "cg_CommitOffset ops groupID topic part offset s =
     (if NUL \<in> set groupID \<or> NUL \<in> set topic
      then (Inl (Msg ''groupID and topic must not contain null bytes''), s)
      else
        let key = offsetKey groupID topic part
        in if \<not> bolt_bucket ops (cg_db s)
           then (Inl (Msg ''consumer-groups bucket does not exist''), s)
           else case bolt_put ops (bytes_of_string key) (PutUint64 offset) (cg_db s) of
             (Some e, db') \<Rightarrow> (Inl e, s\<lparr>cg_db := db'\<rparr>)
           | (None, db') \<Rightarrow>
               (Inr (), s\<lparr>cg_db := db', cg_offsets := (cg_offsets s)(key \<mapsto> offset)\<rparr>))"

definition cg_FetchOffset :: "string \<Rightarrow> string \<Rightarrow> i32 \<Rightarrow> 'db ConsumerGroupStore \<Rightarrow> u64" where
  "cg_FetchOffset groupID topic part s =
     (case cg_offsets s (offsetKey groupID topic part) of None \<Rightarrow> 0 | Some offset \<Rightarrow> offset)"

text \<open>\<open>strings.IndexByte(s, 0)\<close>.\<close>

fun IndexNul :: "string \<Rightarrow> nat option" where
  "IndexNul [] = None"
| "IndexNul (c # cs) = (if c = NUL then Some 0 else map_option Suc (IndexNul cs))"

definition split_key :: "string \<Rightarrow> (string \<times> string \<times> i32) option" where
  "split_key key =
     (case IndexNul key of
        None \<Rightarrow> None
      | Some firstSeparator \<Rightarrow>
      case IndexNul (drop (firstSeparator + 1) key) of
        None \<Rightarrow> None
      | Some second \<Rightarrow>
          let secondSeparator = second + firstSeparator + 1;
              partitionBytes = drop (secondSeparator + 1) key
          in if length partitionBytes \<noteq> 4 then None
             else Some (take firstSeparator key,
                        take second (drop (firstSeparator + 1) key),
                        Uint32 (bytes_of_string partitionBytes)))"

text \<open>
  \<open>range\<close> over a Go map visits the keys in an unspecified order: \<open>keys\<close> is the order of one
  visit.
\<close>

definition cg_Snapshot :: "string list \<Rightarrow> 'db ConsumerGroupStore \<Rightarrow> ConsumerGroupOffset list" where
  "cg_Snapshot keys s =
     List.map_filter (\<lambda>key.
       case (split_key key, cg_offsets s key) of
         (Some (g, t, p), Some offset) \<Rightarrow>
           Some \<lparr>cgo_GroupID = g, cgo_Topic = t, cgo_Partition = p, cgo_Offset = offset\<rparr>
       | _ \<Rightarrow> None) keys"

definition cg_Close :: "'db bolt \<Rightarrow> 'db ConsumerGroupStore \<Rightarrow> unit res \<times> 'db ConsumerGroupStore" where
  "cg_Close ops s =
     (case bolt_close ops (cg_db s) of
        (Some e, db') \<Rightarrow> (Inl e, s\<lparr>cg_db := db'\<rparr>)
      | (None, db') \<Rightarrow> (Inr (), s\<lparr>cg_db := db'\<rparr>))"

section \<open>Keys\<close>

lemma IndexNul_append: "NUL \<notin> set xs \<Longrightarrow> IndexNul (xs @ NUL # ys) = Some (length xs)"
  by (induction xs) auto

lemma string_bytes_length [simp]: "length (string_of_bytes bs) = length bs"
  by (simp add: string_of_bytes_def)

lemma bytes_of_string_of_bytes [codec_simps]: "bytes_of_string (string_of_bytes bs) = bs"
proof -
  have "word_of_nat (of_char (char_of (unat b) :: char)) = (b :: byte)" for b
    using unat_lt_pow [of b] by (simp add: of_char_of)
  then show ?thesis by (simp add: bytes_of_string_def string_of_bytes_def comp_def map_idI)
qed

definition plain :: "string \<Rightarrow> bool" where "plain s \<longleftrightarrow> NUL \<notin> set s"

text \<open>A key determines the group, topic and partition it was built from.\<close>

lemma split_offsetKey:
  assumes "plain g" "plain t"
  shows "split_key (offsetKey g t p) = Some (g, t, p)"
proof -
  have "IndexNul (offsetKey g t p) = Some (length g)"
    using assms by (simp add: offsetKey_def plain_def IndexNul_append)
  moreover have "IndexNul (drop (length g + 1) (offsetKey g t p)) = Some (length t)"
    using assms by (simp add: offsetKey_def plain_def IndexNul_append)
  ultimately show ?thesis
    by (simp add: split_key_def offsetKey_def Let_def codec_simps)
qed

lemma offsetKey_inject:
  "plain g \<Longrightarrow> plain t \<Longrightarrow> plain g' \<Longrightarrow> plain t' \<Longrightarrow>
     offsetKey g t p = offsetKey g' t' p' \<longleftrightarrow> g = g' \<and> t = t' \<and> p = p'"
  by (metis split_offsetKey option.inject prod.inject)

section \<open>The cache mirrors the database\<close>

definition entry_ok :: "bytes \<times> bytes \<Rightarrow> bool" where
  "entry_ok e \<longleftrightarrow> length (snd e) = 8
     \<and> (\<exists>g t p. plain g \<and> plain t \<and> string_of_bytes (fst e) = offsetKey g t p)"

definition persisted :: "'db bolt \<Rightarrow> 'db \<Rightarrow> string \<rightharpoonup> u64" where
  "persisted ops db k = map_option Uint64 (map_of (bolt_each ops db) (bytes_of_string k))"

definition cg_inv :: "'db bolt \<Rightarrow> 'db ConsumerGroupStore \<Rightarrow> bool" where
  "cg_inv ops s \<longleftrightarrow> cg_offsets s = persisted ops (cg_db s)
     \<and> (\<forall>e \<in> set (bolt_each ops (cg_db s)). entry_ok e)"

lemma load_entries_ok:
  "\<forall>e \<in> set kvs. length (snd e) = 8 \<Longrightarrow> distinct (map fst kvs) \<Longrightarrow>
     load_entries kvs m = Inr (\<lambda>k. case map_of kvs (bytes_of_string k) of
         Some v \<Rightarrow> Some (Uint64 v) | None \<Rightarrow> m k)"
proof (induction kvs arbitrary: m)
  case Nil
  then show ?case by simp
next
  case (Cons kv kvs)
  obtain k v where kv: "kv = (k, v)" by fastforce
  have k: "map_of kvs k = None" using Cons.prems(2) kv by (simp add: map_of_eq_None_iff)
  have IH: "load_entries kvs m' = Inr (\<lambda>k. case map_of kvs (bytes_of_string k) of
         Some v \<Rightarrow> Some (Uint64 v) | None \<Rightarrow> m' k)" for m'
    using Cons.IH Cons.prems by simp
  have "(\<lambda>x. case map_of kvs (bytes_of_string x) of Some v \<Rightarrow> Some (Uint64 v)
          | None \<Rightarrow> (m(string_of_bytes k \<mapsto> Uint64 v)) x)
      = (\<lambda>x. case map_of (kv # kvs) (bytes_of_string x) of Some v \<Rightarrow> Some (Uint64 v) | None \<Rightarrow> m x)"
    using k by (auto simp: kv codec_simps intro!: ext split: option.splits)
  then show ?case using IH Cons.prems by (simp add: kv)
qed

lemma load_entries_result:
  assumes "load_entries kvs m = Inr m'" shows "\<forall>e \<in> set kvs. length (snd e) = 8"
  using assms by (induction kvs m rule: load_entries.induct) (auto split: if_splits)

text \<open>Opening a database written by this store rebuilds its cache.\<close>

lemma NewConsumerGroupStore_inv:
  assumes ok: "bolt_ok ops" and n: "NewConsumerGroupStore ops db = (Inr s, db')"
    and e: "\<forall>e \<in> set (bolt_each ops db). entry_ok e"
  shows "cg_inv ops s" and "persisted ops (cg_db s) = persisted ops db" and "cg_db s = db'"
proof -
  obtain db1 db2 where c: "bolt_open ops db = (None, db1)" "bolt_create ops db1 = (None, db2)"
    and l: "cg_load ops \<lparr>cg_db = db2, cg_offsets = Map.empty\<rparr> = Inr s" and d: "db' = db2"
    using n by (auto simp: NewConsumerGroupStore_def split: prod.splits option.splits sum.splits)
  have m: "map_of (bolt_each ops db2) = map_of (bolt_each ops db)"
    using ok c by (metis bolt_ok_def snd_conv)
  have di: "distinct (map fst (bolt_each ops db2))" "distinct (map fst (bolt_each ops db))"
    using ok by (auto simp: bolt_ok_def)
  then have "set (bolt_each ops db2) = set (bolt_each ops db)" using m by (metis map_of_eqI map_of_inject_set)
  then have e2: "\<forall>e \<in> set (bolt_each ops db2). entry_ok e" using e by simp
  then have "load_entries (bolt_each ops db2) Map.empty
      = Inr (\<lambda>k. case map_of (bolt_each ops db2) (bytes_of_string k) of
         Some v \<Rightarrow> Some (Uint64 v) | None \<Rightarrow> None)"
    using load_entries_ok [OF _ di(1), of Map.empty] by (simp add: entry_ok_def)
  then have s: "cg_db s = db2" "cg_offsets s = persisted ops db2"
    using l by (auto simp: cg_load_def persisted_def map_option_case split: option.splits if_splits)
  then show "cg_inv ops s" "persisted ops (cg_db s) = persisted ops db" "cg_db s = db'"
    using e2 m d by (auto simp: cg_inv_def persisted_def)
qed

lemma cg_CommitOffset_inv:
  assumes ok: "bolt_ok ops" and i: "cg_inv ops s"
    and c: "cg_CommitOffset ops g t p off s = (r, s')"
  shows "cg_inv ops s'"
    and "r = Inr () \<Longrightarrow> plain g \<and> plain t \<and> cg_offsets s' = (cg_offsets s)(offsetKey g t p \<mapsto> off)"
    and "r = Inl e \<Longrightarrow> cg_offsets s' = cg_offsets s"
proof -
  let ?k = "offsetKey g t p"
  obtain r1 db1 where u: "bolt_put ops (bytes_of_string ?k) (PutUint64 off) (cg_db s) = (r1, db1)"
    by fastforce
  have di: "distinct (map fst (bolt_each ops db))" for db using ok by (simp add: bolt_ok_def)
  have put: "map_of (bolt_each ops db1) = (if r1 = None then
      (map_of (bolt_each ops (cg_db s)))(bytes_of_string ?k \<mapsto> PutUint64 off) else map_of (bolt_each ops (cg_db s)))"
    using ok u by (cases r1) (auto simp: bolt_ok_def)
  have cs: "s' = s \<and> r \<noteq> Inr () \<or> (\<exists>e. r1 = Some e) \<and> s' = s\<lparr>cg_db := db1\<rparr> \<and> r \<noteq> Inr ()
    \<or> r = Inr () \<and> r1 = None \<and> plain g \<and> plain t \<and>
        s' = s\<lparr>cg_db := db1, cg_offsets := (cg_offsets s)(?k \<mapsto> off)\<rparr>"
    using c u by (auto simp: cg_CommitOffset_def plain_def Let_def split: if_splits option.splits)
  show "r = Inr () \<Longrightarrow> plain g \<and> plain t \<and> cg_offsets s' = (cg_offsets s)(?k \<mapsto> off)"
    "r = Inl e \<Longrightarrow> cg_offsets s' = cg_offsets s"
    using cs by auto
  show "cg_inv ops s'"
  proof -
    have ent: "\<forall>e \<in> set (bolt_each ops db1). entry_ok e" if "r1 = None \<longrightarrow> plain g \<and> plain t"
    proof
      fix e assume "e \<in> set (bolt_each ops db1)"
      then have "map_of (bolt_each ops db1) (fst e) = Some (snd e)" using di by (metis map_of_is_SomeI prod.collapse)
      then have "map_of (bolt_each ops (cg_db s)) (fst e) = Some (snd e)
          \<or> r1 = None \<and> e = (bytes_of_string ?k, PutUint64 off)"
        using put by (auto split: if_splits simp: prod_eq_iff)
      then show "entry_ok e"
      proof
        assume "map_of (bolt_each ops (cg_db s)) (fst e) = Some (snd e)"
        then have "e \<in> set (bolt_each ops (cg_db s))" using map_of_SomeD by fastforce
        then show ?thesis using i by (simp add: cg_inv_def)
      next
        assume "r1 = None \<and> e = (bytes_of_string ?k, PutUint64 off)"
        then show ?thesis
          using that unfolding entry_ok_def by (simp add: codec_simps) blast
      qed
    qed
    have "persisted ops db1 = (if r1 = None then (persisted ops (cg_db s))(?k \<mapsto> off) else persisted ops (cg_db s))"
      by (auto simp: persisted_def put bytes_of_string_inject codec_simps intro!: ext)
    then show ?thesis using cs i ent by (auto simp: cg_inv_def)
  qed
qed

section \<open>Fetch and snapshot\<close>

lemma fetch_after_commit:
  assumes "bolt_ok ops" "cg_inv ops s" "cg_CommitOffset ops g t p off s = (Inr (), s')"
    "plain g'" "plain t'"
  shows "cg_FetchOffset g' t' p' s' =
    (if (g', t', p') = (g, t, p) then off else cg_FetchOffset g' t' p' s)"
proof -
  have "plain g" "plain t" "cg_offsets s' = (cg_offsets s)(offsetKey g t p \<mapsto> off)"
    using cg_CommitOffset_inv(2) [OF assms(1-3)] by auto
  then show ?thesis using assms(4,5) by (auto simp: cg_FetchOffset_def offsetKey_inject)
qed

lemma cg_inv_keys:
  assumes "cg_inv ops s" "cg_offsets s k = Some off"
  shows "\<exists>g t p. plain g \<and> plain t \<and> k = offsetKey g t p"
proof -
  obtain v where "map_of (bolt_each ops (cg_db s)) (bytes_of_string k) = Some v"
    using assms by (auto simp: cg_inv_def persisted_def)
  then have "entry_ok (bytes_of_string k, v)" using assms(1) by (auto simp: cg_inv_def dest: map_of_SomeD)
  then show ?thesis by (simp add: entry_ok_def codec_simps)
qed

text \<open>The snapshot lists every committed offset, and nothing else.\<close>

lemma snapshot_complete:
  assumes i: "cg_inv ops s" and k: "set keys = dom (cg_offsets s)"
  shows "c \<in> set (cg_Snapshot keys s) \<longleftrightarrow>
    plain (cgo_GroupID c) \<and> plain (cgo_Topic c) \<and>
    cg_offsets s (offsetKey (cgo_GroupID c) (cgo_Topic c) (cgo_Partition c)) = Some (cgo_Offset c)"
    (is "_ \<longleftrightarrow> ?R")
proof -
  let ?f = "\<lambda>key. case (split_key key, cg_offsets s key) of
         (Some (g, t, p), Some offset) \<Rightarrow>
           Some \<lparr>cgo_GroupID = g, cgo_Topic = t, cgo_Partition = p, cgo_Offset = offset\<rparr>
       | _ \<Rightarrow> None"
  have f: "?f (offsetKey g t p) = map_option (\<lambda>off.
      \<lparr>cgo_GroupID = g, cgo_Topic = t, cgo_Partition = p, cgo_Offset = off\<rparr>) (cg_offsets s (offsetKey g t p))"
    if "plain g" "plain t" for g t p
    using that by (simp add: split_offsetKey split: option.splits)
  have "c \<in> set (cg_Snapshot keys s) \<longleftrightarrow> (\<exists>key. cg_offsets s key \<noteq> None \<and> ?f key = Some c)"
    using k unfolding cg_Snapshot_def set_map_filter by (auto simp: dom_def)
  also have "\<dots> \<longleftrightarrow> ?R"
  proof
    assume "\<exists>key. cg_offsets s key \<noteq> None \<and> ?f key = Some c"
    then obtain key where key: "cg_offsets s key \<noteq> None" "?f key = Some c" by blast
    then obtain g t p where g: "plain g" "plain t" "key = offsetKey g t p"
      using cg_inv_keys [OF i] by blast
    then show ?R using key f [OF g(1,2), of p] by auto
  next
    assume R: ?R
    then have "?f (offsetKey (cgo_GroupID c) (cgo_Topic c) (cgo_Partition c)) = Some c"
      using f [of "cgo_GroupID c" "cgo_Topic c" "cgo_Partition c"] by simp
    then show "\<exists>key. cg_offsets s key \<noteq> None \<and> ?f key = Some c" using R by fastforce
  qed
  finally show ?thesis .
qed

end
