(* ===== verification/CommitRace.thy ===== *)
theory CommitRace
  imports ConsumerGroups
begin

text \<open>
  Concurrent calls of \<open>ConsumerGroupStore.CommitOffset\<close>. A call has two atomic sections: the
  \<open>db.Update\<close> transaction, and the cache write under \<open>s.mu\<close>; no lock spans both. The state holds
  what is persisted, what is cached, and the calls that are between the two.
\<close>

record commit_state =
  cs_db :: "string \<rightharpoonup> u64"
  cs_cache :: "string \<rightharpoonup> u64"
  cs_pending :: "(string \<times> u64) list"

definition persist :: "string \<Rightarrow> u64 \<Rightarrow> commit_state \<Rightarrow> commit_state" where
  "persist k off s = s\<lparr>cs_db := (cs_db s)(k \<mapsto> off), cs_pending := (k, off) # cs_pending s\<rparr>"

definition cache_write :: "string \<Rightarrow> u64 \<Rightarrow> commit_state \<Rightarrow> commit_state" where
  "cache_write k off s = s\<lparr>cs_cache := (cs_cache s)(k \<mapsto> off), cs_pending := remove1 (k, off) (cs_pending s)\<rparr>"

inductive commit_step :: "commit_state \<Rightarrow> commit_state \<Rightarrow> bool" where
  Persist: "commit_step s (persist k off s)"
| Cache: "(k, off) \<in> set (cs_pending s) \<Longrightarrow> commit_step s (cache_write k off s)"

text \<open>The same steps when no two commits of one key overlap.\<close>

inductive serial_step :: "commit_state \<Rightarrow> commit_state \<Rightarrow> bool" where
  SPersist: "k \<notin> fst ` set (cs_pending s) \<Longrightarrow> serial_step s (persist k off s)"
| SCache: "(k, off) \<in> set (cs_pending s) \<Longrightarrow> serial_step s (cache_write k off s)"

inductive_cases commit_stepE: "commit_step s s'"
inductive_cases serial_stepE: "serial_step s s'"

definition quiet :: "commit_state \<Rightarrow> bool" where "quiet s \<longleftrightarrow> cs_pending s = []"

text \<open>In every interleaving a cached group has been persisted.\<close>

definition cache_persisted :: "commit_state \<Rightarrow> bool" where
  "cache_persisted s \<longleftrightarrow> dom (cs_cache s) \<subseteq> dom (cs_db s) \<and> fst ` set (cs_pending s) \<subseteq> dom (cs_db s)"

lemma cache_persisted_step: "commit_step s s' \<Longrightarrow> cache_persisted s \<Longrightarrow> cache_persisted s'"
  by (erule commit_stepE)
    (auto simp: cache_persisted_def persist_def cache_write_def dest!: notin_set_remove1
      set_mp [OF set_remove1_subset])

lemma cache_persisted_run: "commit_step\<^sup>*\<^sup>* s s' \<Longrightarrow> cache_persisted s \<Longrightarrow> cache_persisted s'"
  by (induction rule: rtranclp_induct) (auto intro: cache_persisted_step)

text \<open>Without overlapping commits of a key the cache agrees with the database once all are done.\<close>

definition serial_inv :: "commit_state \<Rightarrow> bool" where
  "serial_inv s \<longleftrightarrow> distinct (map fst (cs_pending s))
     \<and> (\<forall>(k, off) \<in> set (cs_pending s). cs_db s k = Some off)
     \<and> (\<forall>k. k \<notin> fst ` set (cs_pending s) \<longrightarrow> cs_cache s k = cs_db s k)"

lemma serial_invI:
  "distinct (map fst (cs_pending s)) \<Longrightarrow>
   (\<And>k off. (k, off) \<in> set (cs_pending s) \<Longrightarrow> cs_db s k = Some off) \<Longrightarrow>
   (\<And>k. (\<And>off. (k, off) \<notin> set (cs_pending s)) \<Longrightarrow> cs_cache s k = cs_db s k) \<Longrightarrow> serial_inv s"
  by (force simp: serial_inv_def)

lemma serial_invD:
  assumes "serial_inv s"
  shows "distinct (map fst (cs_pending s))"
    and "(k, off) \<in> set (cs_pending s) \<Longrightarrow> cs_db s k = Some off"
    and "(\<And>off. (k, off) \<notin> set (cs_pending s)) \<Longrightarrow> cs_cache s k = cs_db s k"
  using assms by (force simp: serial_inv_def)+

lemma serial_inv_cache:
  assumes i: "serial_inv s" and p: "(k, off) \<in> set (cs_pending s)"
  shows "serial_inv (cache_write k off s)"
proof (rule serial_invI)
  have df: "distinct (map fst (cs_pending s))" by (rule serial_invD(1) [OF i])
  then have d: "distinct (cs_pending s)" by (simp add: distinct_map)
  have rm: "set (cs_pending (cache_write k off s)) = set (cs_pending s) - {(k, off)}"
    using d by (simp add: cache_write_def)
  show "distinct (map fst (cs_pending (cache_write k off s)))"
    using df set_remove1_subset [of "(k, off)" "cs_pending s"]
    by (auto simp: distinct_map cache_write_def intro: inj_on_subset)
  show "cs_db (cache_write k off s) k' = Some off'"
    if "(k', off') \<in> set (cs_pending (cache_write k off s))" for k' off'
    using that serial_invD(2) [OF i] rm by (simp add: cache_write_def)
  show "cs_cache (cache_write k off s) k' = cs_db (cache_write k off s) k'"
    if n: "\<And>off'. (k', off') \<notin> set (cs_pending (cache_write k off s))" for k'
  proof (cases "k' = k")
    case True
    then show ?thesis using serial_invD(2) [OF i p] by (simp add: cache_write_def)
  next
    case False
    then have "\<And>off'. (k', off') \<notin> set (cs_pending s)" using n rm by blast
    then show ?thesis using False serial_invD(3) [OF i] by (simp add: cache_write_def)
  qed
qed

lemma serial_inv_persist:
  assumes i: "serial_inv s" and k: "k \<notin> fst ` set (cs_pending s)"
  shows "serial_inv (persist k off s)"
proof (rule serial_invI)
  show "distinct (map fst (cs_pending (persist k off s)))"
    using serial_invD(1) [OF i] k by (simp add: persist_def)
  show "cs_db (persist k off s) k' = Some off'" if "(k', off') \<in> set (cs_pending (persist k off s))" for k' off'
    using that serial_invD(2) [OF i] k by (force simp: persist_def)
  show "cs_cache (persist k off s) k' = cs_db (persist k off s) k'"
    if "\<And>off'. (k', off') \<notin> set (cs_pending (persist k off s))" for k'
    using that [of off] that serial_invD(3) [OF i, of k'] by (auto simp: persist_def)
qed

lemma serial_inv_step: "serial_step s s' \<Longrightarrow> serial_inv s \<Longrightarrow> serial_inv s'"
  by (erule serial_stepE) (auto simp: serial_inv_cache serial_inv_persist)

lemma serial_inv_run: "serial_step\<^sup>*\<^sup>* s s' \<Longrightarrow> serial_inv s \<Longrightarrow> serial_inv s'"
  by (induction rule: rtranclp_induct) (auto intro: serial_inv_step)

lemma serial_quiet: "serial_inv s \<Longrightarrow> quiet s \<Longrightarrow> cs_cache s = cs_db s"
  by (auto simp: serial_inv_def quiet_def)

text \<open>Two overlapping commits of one key can leave the cache and the database different.\<close>

lemma race_run:
  fixes k :: string and a b :: u64 and s :: commit_state
  defines "s1 \<equiv> persist k a s" and "s2 \<equiv> persist k b (persist k a s)"
  defines "s3 \<equiv> cache_write k b (persist k b (persist k a s))"
  defines "s4 \<equiv> cache_write k a (cache_write k b (persist k b (persist k a s)))"
  assumes "a \<noteq> b"
  shows "commit_step\<^sup>*\<^sup>* s s4" "cs_db s4 k = Some b" "cs_cache s4 k = Some a" "cs_pending s4 = cs_pending s"
proof -
  have "commit_step s s1" "commit_step s1 s2" unfolding s1_def s2_def by (rule Persist)+
  moreover have "commit_step s2 s3" unfolding s2_def s3_def by (rule Cache) (simp add: persist_def)
  moreover have "commit_step s3 s4" unfolding s3_def s4_def
    by (rule Cache) (use assms(5) in \<open>simp add: persist_def cache_write_def\<close>)
  ultimately show "commit_step\<^sup>*\<^sup>* s s4" by (meson converse_rtranclp_into_rtranclp rtranclp.rtrancl_refl)
  show "cs_db s4 k = Some b" "cs_cache s4 k = Some a" "cs_pending s4 = cs_pending s"
    using assms(5) by (auto simp: s4_def persist_def cache_write_def)
qed

end
