(* ===== verification/Files.thy ===== *)
theory Files
  imports Prelude
begin

text \<open>
  The operating-system file interface as \<open>internal/log\<close> uses it: the directory of one
  partition (file names with their contents), open handles, and the calls
  \<open>OpenFile\<close>, \<open>Open\<close>, \<open>Write\<close>, \<open>ReadAt\<close>, \<open>Stat\<close>, \<open>Sync\<close>, \<open>Close\<close>, \<open>Remove\<close>,
  \<open>Rename\<close>, \<open>CreateTemp\<close>, \<open>ReadDir\<close>, \<open>MkdirAll\<close>. A handle is the name of the file it was opened on,
  or \<open>None\<close> for the nil pointer. The sources close every handle of a file before they remove
  or replace it, so a name identifies the open file.

  Every call that opens, changes or flushes a file consults a schedule of events, which decides
  whether it succeeds, fails, or (for a write) accepts only part of the data: the theorems hold
  for every schedule, so every failure of these calls is covered. An empty schedule is an
  environment in which nothing fails any more. Reads fail only on a nil handle, at the end of
  the file or at a negative position; read errors of the device are not modelled.
\<close>

section \<open>Directories and handles\<close>

datatype io_event = IoOk | IoPart nat | IoErr nat

record directory =
  files :: "(string \<times> bytes) list"
  subdirs :: "string list"
  sched :: "io_event list"

type_synonym handle = "string option"

definition empty_dir :: directory where
  "empty_dir = \<lparr>files = [], subdirs = [], sched = []\<rparr>"

definition lookup_file :: "directory \<Rightarrow> string \<rightharpoonup> bytes" where
  "lookup_file d = map_of (files d)"

definition set_file :: "string \<Rightarrow> bytes \<Rightarrow> directory \<Rightarrow> directory" where
  "set_file name bs d = d\<lparr>files := AList.update name bs (files d)\<rparr>"

definition drop_file :: "string \<Rightarrow> directory \<Rightarrow> directory" where
  "drop_file name d = d\<lparr>files := AList.delete name (files d)\<rparr>"

definition next_event :: "directory \<Rightarrow> io_event \<times> directory" where
  "next_event d = (case sched d of [] \<Rightarrow> (IoOk, d) | e # es \<Rightarrow> (e, d\<lparr>sched := es\<rparr>))"

text \<open>A file cannot grow beyond what a signed 64-bit file position can address.\<close>

definition max_file_size :: nat where
  "max_file_size = 2 ^ 63 - 1"

section \<open>System calls\<close>

text \<open>A call with no effect but its possible failure (\<open>MkdirAll\<close>, \<open>Sync\<close>, \<open>Close\<close>).\<close>

definition os_call :: "directory \<Rightarrow> unit res \<times> directory" where
  "os_call d = (case next_event d of (IoErr _, d') \<Rightarrow> (Inl ErrIO, d') | (_, d') \<Rightarrow> (Inr (), d'))"

text \<open>\<open>os.OpenFile\<close> with \<open>O_APPEND|O_CREATE|O_WRONLY\<close>.\<close>

definition open_append :: "string \<Rightarrow> directory \<Rightarrow> string res \<times> directory" where
  "open_append name d =
     (case os_call d of
        (Inl e, d') \<Rightarrow> (Inl e, d')
      | (Inr _, d') \<Rightarrow>
          if name \<in> set (subdirs d') then (Inl ErrIO, d')
          else (Inr name, case lookup_file d' name of None \<Rightarrow> set_file name [] d' | Some _ \<Rightarrow> d'))"

text \<open>\<open>os.Open\<close>.\<close>

definition open_read :: "string \<Rightarrow> directory \<Rightarrow> string res \<times> directory" where
  "open_read name d =
     (case os_call d of
        (Inl e, d') \<Rightarrow> (Inl e, d')
      | (Inr _, d') \<Rightarrow>
          (case lookup_file d' name of None \<Rightarrow> (Inl ErrNotExist, d') | Some _ \<Rightarrow> (Inr name, d')))"

text \<open>\<open>File.Write\<close> on an append handle: the number of bytes accepted and the error, if any.\<close>

definition os_write :: "handle \<Rightarrow> bytes \<Rightarrow> directory \<Rightarrow> (nat \<times> error option) \<times> directory" where
  "os_write h data d =
     (case h of
        None \<Rightarrow> ((0, Some ErrInvalid), d)
      | Some name \<Rightarrow>
          (case next_event d of (ev, d') \<Rightarrow>
             (case lookup_file d' name of
                None \<Rightarrow> ((0, Some ErrIO), d')
              | Some old \<Rightarrow>
                  if length old + length data > max_file_size then ((0, Some ErrIO), d')
                  else
                    (case ev of
                       IoOk \<Rightarrow> ((length data, None), set_file name (old @ data) d')
                     | IoPart n \<Rightarrow>
                         ((min n (length data), None), set_file name (old @ take n data) d')
                     | IoErr n \<Rightarrow>
                         ((min n (length data), Some ErrIO), set_file name (old @ take n data) d')))))"

text \<open>\<open>File.ReadAt\<close>: all \<open>n\<close> bytes from the position, or an error.\<close>

definition read_at :: "handle \<Rightarrow> nat \<Rightarrow> int \<Rightarrow> directory \<Rightarrow> bytes res" where
  "read_at h n pos d =
     (case h of
        None \<Rightarrow> Inl ErrInvalid
      | Some name \<Rightarrow>
          if pos < 0 then Inl NegativeOffset
          else if n = 0 then Inr []
          else (case lookup_file d name of
                  None \<Rightarrow> Inl ErrIO
                | Some bs \<Rightarrow>
                    if nat pos + n \<le> length bs then Inr (take n (drop (nat pos) bs))
                    else Inl ErrEOF))"

text \<open>\<open>File.Stat().Size()\<close>.\<close>

definition stat_size :: "handle \<Rightarrow> directory \<Rightarrow> int res" where
  "stat_size h d =
     (case h of
        None \<Rightarrow> Inl ErrInvalid
      | Some name \<Rightarrow>
          (case lookup_file d name of None \<Rightarrow> Inl ErrIO | Some bs \<Rightarrow> Inr (int (length bs))))"

definition os_remove :: "string \<Rightarrow> directory \<Rightarrow> unit res \<times> directory" where
  "os_remove name d =
     (case os_call d of
        (Inl e, d') \<Rightarrow> (Inl e, d')
      | (Inr _, d') \<Rightarrow>
          (case lookup_file d' name of
             None \<Rightarrow> (Inl ErrNotExist, d')
           | Some _ \<Rightarrow> (Inr (), drop_file name d')))"

definition os_rename :: "string \<Rightarrow> string \<Rightarrow> directory \<Rightarrow> unit res \<times> directory" where
  "os_rename old new d =
     (case os_call d of
        (Inl e, d') \<Rightarrow> (Inl e, d')
      | (Inr _, d') \<Rightarrow>
          (case lookup_file d' old of
             None \<Rightarrow> (Inl ErrNotExist, d')
           | Some bs \<Rightarrow> (Inr (), set_file new bs (drop_file old d'))))"

text \<open>
  \<open>os.CreateTemp(dir, prefix + "*" + suffix)\<close>: a new empty file; the star is replaced by
  a number that makes the name fresh.
\<close>

definition temp_name :: "string \<Rightarrow> string \<Rightarrow> nat \<Rightarrow> string" where
  "temp_name prefix suffix n = prefix @ format_uint n @ suffix"

definition fresh_name :: "string \<Rightarrow> string \<Rightarrow> directory \<Rightarrow> string" where
  "fresh_name prefix suffix d =
     (case find (\<lambda>n. temp_name prefix suffix n \<notin> set (map fst (files d) @ subdirs d))
             [0..<Suc (length (files d) + length (subdirs d))] of
        Some n \<Rightarrow> temp_name prefix suffix n
      | None \<Rightarrow> temp_name prefix suffix 0)"

definition create_temp :: "string \<Rightarrow> string \<Rightarrow> directory \<Rightarrow> string res \<times> directory" where
  "create_temp prefix suffix d =
     (case os_call d of
        (Inl e, d') \<Rightarrow> (Inl e, d')
      | (Inr _, d') \<Rightarrow>
          (let name = fresh_name prefix suffix d' in (Inr name, set_file name [] d')))"

text \<open>\<open>os.ReadDir\<close>: the entries with their \<open>IsDir\<close> flag, sorted by name.\<close>

definition read_dir :: "directory \<Rightarrow> (string \<times> bool) list" where
  "read_dir d = sort_key fst (map (\<lambda>f. (fst f, False)) (files d) @ map (\<lambda>n. (n, True)) (subdirs d))"

section \<open>writeAll\<close>

text \<open>The loop of \<open>writeAll\<close> in \<open>segment.go\<close>.\<close>

function writeAll :: "handle \<Rightarrow> bytes \<Rightarrow> directory \<Rightarrow> unit res \<times> directory" where
  "writeAll h data d =
     (if data = [] then (Inr (), d)
      else case os_write h data d of
             ((n, Some e), d') \<Rightarrow> (Inl e, d')
           | ((n, None), d') \<Rightarrow>
               if n = 0 then (Inl ErrShortWrite, d') else writeAll h (drop n data) d')"
  by pat_completeness auto
termination
  by (relation "measure (\<lambda>(h, data, d). length data)") auto

declare writeAll.simps [simp del]

section \<open>What the calls do to a directory\<close>

text \<open>
  Everything the log relies on is visible through \<open>lookup_file\<close>, the names present and the
  list of subdirectories. A well-formed directory has no name twice, and no name that is both a
  file and a subdirectory.
\<close>

definition dir_wf :: "directory \<Rightarrow> bool" where
  "dir_wf d \<longleftrightarrow> distinct (map fst (files d)) \<and> dom (lookup_file d) \<inter> set (subdirs d) = {}
     \<and> (\<forall>n bs. lookup_file d n = Some bs \<longrightarrow> length bs \<le> max_file_size)"

lemma dom_lookup_file: "dom (lookup_file d) = set (map fst (files d))"
  by (simp add: lookup_file_def dom_map_of_conv_image_fst)

lemma lookup_set_file [simp]: "lookup_file (set_file n bs d) = (lookup_file d)(n \<mapsto> bs)"
  by (simp add: lookup_file_def set_file_def update_conv')

lemma lookup_drop_file [simp]: "lookup_file (drop_file n d) = (lookup_file d)(n := None)"
  by (simp add: lookup_file_def drop_file_def delete_conv')

lemma lookup_sched [simp]: "lookup_file (d\<lparr>sched := es\<rparr>) = lookup_file d"
  by (simp add: lookup_file_def)

lemma subdirs_set_file [simp]: "subdirs (set_file n bs d) = subdirs d"
  by (simp add: set_file_def)

lemma subdirs_drop_file [simp]: "subdirs (drop_file n d) = subdirs d"
  by (simp add: drop_file_def)

lemma dir_wf_sched [simp]: "dir_wf (d\<lparr>sched := es\<rparr>) = dir_wf d"
  by (simp add: dir_wf_def)

lemma distinct_set_file: "distinct (map fst (files d)) \<Longrightarrow> distinct (map fst (files (set_file n bs d)))"
  by (simp add: set_file_def distinct_update)

lemma distinct_drop_file: "distinct (map fst (files d)) \<Longrightarrow> distinct (map fst (files (drop_file n d)))"
  by (simp add: drop_file_def distinct_delete)

lemma dir_wf_set_file:
  "dir_wf d \<Longrightarrow> n \<notin> set (subdirs d) \<Longrightarrow> length bs \<le> max_file_size \<Longrightarrow> dir_wf (set_file n bs d)"
  by (auto simp: dir_wf_def distinct_set_file split: if_splits)

lemma dir_wf_drop_file: "dir_wf d \<Longrightarrow> dir_wf (drop_file n d)"
  by (auto simp: dir_wf_def distinct_drop_file split: if_splits)

lemma dir_wf_subdir: "dir_wf d \<Longrightarrow> lookup_file d n = Some bs \<Longrightarrow> n \<notin> set (subdirs d)"
  by (auto simp: dir_wf_def)

lemma dir_wf_size: "dir_wf d \<Longrightarrow> lookup_file d n = Some bs \<Longrightarrow> length bs \<le> max_file_size"
  by (simp add: dir_wf_def)

text \<open>
  \<open>dir_step d d' m\<close>: the call took \<open>d\<close> to a directory \<open>d'\<close> whose files are \<open>m\<close>,
  touched no subdirectory and kept well-formedness.
\<close>

definition dir_step :: "directory \<Rightarrow> directory \<Rightarrow> (string \<rightharpoonup> bytes) \<Rightarrow> bool" where
  "dir_step d d' m \<longleftrightarrow> lookup_file d' = m \<and> subdirs d' = subdirs d \<and> (dir_wf d \<longrightarrow> dir_wf d')"

lemma dir_step_refl [simp]: "dir_step d d m \<longleftrightarrow> m = lookup_file d"
  by (auto simp: dir_step_def)

lemma dir_step_lookup: "dir_step d d' m \<Longrightarrow> lookup_file d' = m"
  by (simp add: dir_step_def)

lemma dir_step_subdirs: "dir_step d d' m \<Longrightarrow> subdirs d' = subdirs d"
  by (simp add: dir_step_def)

lemma dir_step_wf: "dir_step d d' m \<Longrightarrow> dir_wf d \<Longrightarrow> dir_wf d'"
  by (simp add: dir_step_def)

lemmas dir_stepD = dir_step_lookup dir_step_subdirs dir_step_wf

lemma dir_step_trans: "dir_step d d' m \<Longrightarrow> dir_step d' d'' m' \<Longrightarrow> dir_step d d'' m'"
  by (simp add: dir_step_def)

lemma next_event_step: "next_event d = (ev, d') \<Longrightarrow> dir_step d d' (lookup_file d)"
  by (auto simp: next_event_def dir_step_def split: list.splits)

lemma os_call_step: "os_call d = (r, d') \<Longrightarrow> dir_step d d' (lookup_file d)"
  by (auto simp: os_call_def dest!: next_event_step split: prod.splits io_event.splits)

lemma open_append_step:
  assumes "open_append nm d = (r, d')"
  shows "dir_step d d' (case (r, lookup_file d nm) of
           (Inr _, None) \<Rightarrow> (lookup_file d)(nm \<mapsto> []) | _ \<Rightarrow> lookup_file d)
         \<and> (\<forall>h. r = Inr h \<longrightarrow> h = nm \<and> nm \<notin> set (subdirs d))"
proof -
  obtain r0 d0 where c: "os_call d = (r0, d0)" by fastforce
  note s = os_call_step [OF c]
  show ?thesis
    using assms s dir_stepD [OF s]
    by (cases "lookup_file d nm")
      (auto simp: open_append_def c dir_step_def dir_wf_set_file split: sum.splits if_splits)
qed

lemma open_read_step:
  assumes "open_read nm d = (r, d')"
  shows "dir_step d d' (lookup_file d) \<and> (\<forall>h. r = Inr h \<longrightarrow> h = nm \<and> lookup_file d nm \<noteq> None)"
proof -
  obtain r0 d0 where c: "os_call d = (r0, d0)" by fastforce
  show ?thesis
    using assms os_call_step [OF c]
    by (auto simp: open_read_def c dir_step_def split: sum.splits option.splits)
qed

lemma os_remove_step:
  assumes "os_remove nm d = (r, d')"
  shows "dir_step d d' (case r of Inr _ \<Rightarrow> (lookup_file d)(nm := None) | Inl _ \<Rightarrow> lookup_file d)
    \<and> (r = Inl ErrNotExist \<longrightarrow> lookup_file d nm = None)"
proof -
  obtain r0 d0 where c: "os_call d = (r0, d0)" by fastforce
  show ?thesis
    using assms os_call_step [OF c] c
    by (auto simp: os_remove_def os_call_def dir_step_def dir_wf_drop_file
        split: sum.splits option.splits prod.splits io_event.splits)
qed

text \<open>
  One \<open>Write\<close> appends the prefix it reports; without an error it reports at least what it was
  scheduled to accept.
\<close>

text \<open>Among that many numbers one gives an unused name.\<close>

lemma fresh_name_unused: "fresh_name prefix suffix d \<notin> set (map fst (files d) @ subdirs d)"
proof -
  let ?used = "map fst (files d) @ subdirs d" and ?f = "temp_name prefix suffix"
  let ?ns = "[0..<Suc (length (files d) + length (subdirs d))]"
  have "inj ?f" by (auto simp: inj_def temp_name_def format_uint_inject)
  then have "card (?f ` set ?ns) = card (set ?ns)"
    by (rule card_image [OF inj_on_subset [OF _ subset_UNIV]])
  then have "card (?f ` set ?ns) = length ?used + 1" by (simp only: set_upt card_atLeastLessThan) simp
  moreover have "card (set ?used) \<le> length ?used" by (rule card_length)
  ultimately have "\<not> ?f ` set ?ns \<subseteq> set ?used"
    using card_mono [of "set ?used" "?f ` set ?ns"] by fastforce
  then have "find (\<lambda>n. ?f n \<notin> set ?used) ?ns \<noteq> None" unfolding find_None_iff by blast
  then obtain n where n: "find (\<lambda>n. ?f n \<notin> set ?used) ?ns = Some n" by blast
  then have "?f n \<notin> set ?used" unfolding find_Some_iff by blast
  then show ?thesis unfolding fresh_name_def n by simp
qed

lemma create_temp_step:
  assumes "create_temp prefix suffix d = (r, d')"
  shows "dir_step d d' (case r of Inr nm \<Rightarrow> (lookup_file d)(nm \<mapsto> []) | Inl _ \<Rightarrow> lookup_file d)
    \<and> (\<forall>nm. r = Inr nm \<longrightarrow> lookup_file d nm = None)"
proof -
  obtain r0 d0 where c: "os_call d = (r0, d0)" by fastforce
  let ?n = "fresh_name prefix suffix d0"
  have s0: "dir_step d d0 (lookup_file d)" by (rule os_call_step [OF c])
  have n: "?n \<notin> set (subdirs d0)" "?n \<notin> dom (lookup_file d0)"
    using fresh_name_unused [of prefix suffix d0] by (auto simp: dom_lookup_file)
  then have "dir_wf d0 \<Longrightarrow> dir_wf (set_file ?n [] d0)" by (simp add: dir_wf_set_file)
  then show ?thesis
    using assms c s0 n by (cases r0) (auto simp: create_temp_def dir_step_def Let_def)
qed

lemma os_write_step:
  assumes "os_write (Some nm) data d = ((n, err), d')" "lookup_file d nm = Some old"
  shows "n \<le> length data \<and> dir_step d d' ((lookup_file d)(nm \<mapsto> old @ take n data))"
proof -
  obtain ev d0 where e: "next_event d = (ev, d0)" by fastforce
  note s = next_event_step [OF e]
  have old: "lookup_file d0 nm = Some old" using s assms(2) by (simp add: dir_step_def)
  have wf: "dir_wf d \<Longrightarrow> dir_wf (set_file nm (old @ take k data) d0)"
    if "length old + length data \<le> max_file_size" for k
  proof -
    assume "dir_wf d"
    then have "dir_wf d0" using s by (rule dir_step_wf [rotated])
    moreover have "nm \<notin> set (subdirs d0)" using \<open>dir_wf d0\<close> old by (rule dir_wf_subdir)
    ultimately show ?thesis using that by (intro dir_wf_set_file) auto
  qed
  have tk: "take (min k (length data)) data = take k data" for k
    by (simp add: min_def)
  have "dir_step d d0 ((lookup_file d)(nm \<mapsto> old @ take 0 data))"
    using s assms(2) by (auto simp: dir_step_def fun_upd_idem)
  then show ?thesis
    using assms s wf wf [of "length data"] old tk
    by (auto simp: os_write_def e dir_step_def not_less split: if_splits io_event.splits)
qed

text \<open>
  \<open>writeAll\<close> for every schedule: what it appended is a prefix of the data, and the whole of it
  when it reports success.
\<close>

lemma writeAll_prefix:
  assumes "writeAll (Some nm) data d = (r, d')" "lookup_file d nm = Some old"
  shows "\<exists>k \<le> length data. dir_step d d' ((lookup_file d)(nm \<mapsto> old @ take k data))
           \<and> (r = Inr () \<longrightarrow> k = length data)"
  using assms
proof (induction "Some nm" data d arbitrary: old rule: writeAll.induct)
  case (1 data d)
  show ?case
  proof (cases "data = []")
    case True
    then show ?thesis using "1.prems" by (auto simp: writeAll.simps fun_upd_idem)
  next
    case False
    obtain n err d1 where w: "os_write (Some nm) data d = ((n, err), d1)" by (metis prod.collapse)
    note st = os_write_step [OF w "1.prems"(2)]
    show ?thesis
    proof (cases "err = None \<and> n \<noteq> 0")
      case True
      then have rec: "writeAll (Some nm) (drop n data) d1 = (r, d')"
        using "1.prems"(1) False w by (simp add: writeAll.simps [of _ data])
      have l1: "lookup_file d1 nm = Some (old @ take n data)"
        using st by (simp add: dir_step_def)
      from "1.hyps" [OF False w [symmetric] refl] True rec l1 obtain k where
        k: "k \<le> length (drop n data)"
           "dir_step d1 d' ((lookup_file d1)(nm \<mapsto> (old @ take n data) @ take k (drop n data)))"
           "r = Inr () \<longrightarrow> k = length (drop n data)" by blast
      have "(lookup_file d1)(nm \<mapsto> (old @ take n data) @ take k (drop n data))
        = (lookup_file d)(nm \<mapsto> old @ take (n + k) data)"
        using st by (simp add: dir_step_def take_add)
      then show ?thesis using k st
        by (intro exI [of _ "n + k"]) (auto intro: dir_step_trans)
    next
      case Fail: False
      then have "d' = d1 \<and> r \<noteq> Inr ()"
        using "1.prems"(1) False w by (auto simp: writeAll.simps [of _ data] split: option.splits)
      then show ?thesis using st by (intro exI [of _ n]) auto
    qed
  qed
qed

lemma writeAll_ok:
  assumes "writeAll h data d = (Inr (), d')" "data \<noteq> [] \<or> h \<noteq> None"
    "\<And>nm. h = Some nm \<Longrightarrow> lookup_file d nm = Some old"
  shows "\<exists>nm. h = Some nm \<and> dir_step d d' ((lookup_file d)(nm \<mapsto> old @ data))"
proof (cases h)
  case None
  then show ?thesis using assms by (auto simp: writeAll.simps [of None data] os_write_def)
next
  case (Some nm)
  from writeAll_prefix [of nm data d "Inr ()" d' old] assms Some
  show ?thesis by auto
qed

text \<open>With nothing left in the schedule a write that fits succeeds.\<close>

lemma next_event_idle [simp]: "sched d = [] \<Longrightarrow> next_event d = (IoOk, d)"
  by (simp add: next_event_def)

lemma os_call_idle [simp]: "sched d = [] \<Longrightarrow> os_call d = (Inr (), d)"
  by (simp add: os_call_def)

lemma sched_set_file [simp]: "sched (set_file n bs d) = sched d"
  by (simp add: set_file_def)

lemma sched_drop_file [simp]: "sched (drop_file n d) = sched d"
  by (simp add: drop_file_def)

lemma writeAll_idle:
  assumes "sched d = []" "lookup_file d nm = Some old" "length old + length data \<le> max_file_size"
    "data \<noteq> []"
  shows "writeAll (Some nm) data d = (Inr (), set_file nm (old @ data) d)"
  using assms by (subst writeAll.simps) (simp add: os_write_def writeAll.simps [of _ "[]"])

end
