(* ===== verification/Segment.thy ===== *)
theory Segment
  imports Files
begin

text \<open>
  \<open>src/internal/log/segment.go\<close>: one \<open>.log\<close>/\<open>.index\<close> file pair. The first part is the
  translation of the file in its own order; the second relates a segment and its two files to
  the list of messages they hold and proves what each operation does to that list.

  \<open>int64\<close> counters (\<open>size\<close>, \<open>indexEntries\<close>, index positions) are \<open>int\<close>: they count bytes and
  entries of files, which cannot reach \<open>2^63\<close>. Offsets and log positions are \<open>64 word\<close>, since
  they are stored on disk at that width and \<open>nextOffset++\<close> wraps. The \<open>dir\<close> field is the
  directory argument of every operation. \<open>github.com/golang/snappy\<close> is not part of the
  sources: it is the \<open>codec\<close> argument.
\<close>

section \<open>Data\<close>

definition messageHeaderSize :: nat where "messageHeaderSize = 24"
definition indexEntrySize :: nat where "indexEntrySize = 16"

record message =
  msg_Offset :: u64
  msg_Timestamp :: i64
  msg_Key :: bytes
  msg_Value :: bytes

record log_record =
  rec_Timestamp :: i64
  rec_Key :: bytes
  rec_Value :: bytes

record segment =
  seg_baseOffset :: u64
  seg_nextOffset :: u64
  seg_size :: int
  seg_indexEntries :: int
  seg_compressed :: bool
  seg_logFile :: handle
  seg_logRead :: handle
  seg_indexWrite :: handle
  seg_indexRead :: handle

text \<open>\<open>snappy.Encode\<close> panics on oversized input (\<open>None\<close>), \<open>snappy.Decode\<close> rejects corrupt input.\<close>

record codec =
  Encode :: "bytes \<Rightarrow> bytes option"
  Decode :: "bytes \<Rightarrow> bytes option"

definition log_name :: "u64 \<Rightarrow> string" where
  "log_name base = format_uint (unat base) @ ''.log''"

definition index_name :: "u64 \<Rightarrow> string" where
  "index_name base = format_uint (unat base) @ ''.index''"

definition uint64 :: "int \<Rightarrow> u64" where "uint64 i = word_of_int i"
definition int64 :: "u64 \<Rightarrow> int" where "int64 w = sint w"

section \<open>Operations\<close>

definition entry_bytes :: "u64 \<Rightarrow> u64 \<Rightarrow> bytes" where
  "entry_bytes offset position = PutUint64 offset @ PutUint64 position"

definition header_bytes :: "u64 \<Rightarrow> i64 \<Rightarrow> nat \<Rightarrow> nat \<Rightarrow> bytes" where
  "header_bytes offset timestamp keyLen valLen =
     PutUint64 offset @ PutUint64 timestamp @ PutUint32 (word_of_nat keyLen)
       @ PutUint32 (word_of_nat valLen)"

definition readIndexEntry :: "segment \<Rightarrow> directory \<Rightarrow> int \<Rightarrow> (u64 \<times> u64) res" where
  "readIndexEntry s d position =
     (case read_at (seg_indexRead s) indexEntrySize position d of
        Inl e \<Rightarrow> Inl e
      | Inr entry \<Rightarrow> Inr (Uint64 entry, Uint64 (drop 8 entry)))"

definition readIndexPosition :: "segment \<Rightarrow> directory \<Rightarrow> int \<Rightarrow> u64 res" where
  "readIndexPosition s d position = map_sum id snd (readIndexEntry s d position)"

definition readIndexOffset :: "segment \<Rightarrow> directory \<Rightarrow> int \<Rightarrow> u64 res" where
  "readIndexOffset s d position = map_sum id fst (readIndexEntry s d position)"

text \<open>\<open>Close\<close> syncs and closes the write handles, closes the read handles, and clears them all.\<close>

fun os_calls :: "nat \<Rightarrow> directory \<Rightarrow> error list \<times> directory" where
  "os_calls 0 d = ([], d)"
| "os_calls (Suc n) d =
     (case os_call d of (r, d') \<Rightarrow>
      case os_calls n d' of (errs, d'') \<Rightarrow>
        ((case r of Inl e \<Rightarrow> e # errs | Inr _ \<Rightarrow> errs), d''))"

definition seg_nil_handles :: "segment \<Rightarrow> segment" where
  "seg_nil_handles s =
     s\<lparr>seg_logFile := None, seg_indexWrite := None, seg_logRead := None, seg_indexRead := None\<rparr>"

definition seg_Close :: "segment \<Rightarrow> directory \<Rightarrow> unit res \<times> segment \<times> directory" where
  "seg_Close s d =
     (let calls = (if seg_logFile s \<noteq> None then 2 else 0) + (if seg_indexWrite s \<noteq> None then 2 else 0)
                + (if seg_logRead s \<noteq> None then 1 else 0) + (if seg_indexRead s \<noteq> None then 1 else 0)
      in case os_calls calls d of (errs, d') \<Rightarrow>
           ((case errs of [] \<Rightarrow> Inr () | e # _ \<Rightarrow> Inl e), seg_nil_handles s, d'))"

text \<open>
  The four opens of \<open>NewSegment\<close>, in order, after \<open>MkdirAll\<close>; when one fails, the files opened before
  are closed.
\<close>

definition open_files :: "u64 \<Rightarrow> directory \<Rightarrow> (string \<times> string \<times> string \<times> string) res \<times> directory" where
  "open_files base d =
     (case os_call d of (Inl e, d0) \<Rightarrow> (Inl e, d0) | (Inr _, d0) \<Rightarrow>
      case open_append (log_name base) d0 of (Inl e, d1) \<Rightarrow> (Inl e, d1) | (Inr logFile, d1) \<Rightarrow>
      case open_read (log_name base) d1 of (Inl e, d2) \<Rightarrow> (Inl e, snd (os_calls 1 d2)) | (Inr logRead, d2) \<Rightarrow>
      case open_append (index_name base) d2 of (Inl e, d3) \<Rightarrow> (Inl e, snd (os_calls 2 d3)) | (Inr indexWrite, d3) \<Rightarrow>
      case open_read (index_name base) d3 of (Inl e, d4) \<Rightarrow> (Inl e, snd (os_calls 3 d4)) | (Inr indexRead, d4) \<Rightarrow>
        (Inr (logFile, logRead, indexWrite, indexRead), d4))"

definition seg_init :: "u64 \<Rightarrow> int \<Rightarrow> int \<Rightarrow> string \<times> string \<times> string \<times> string \<Rightarrow> segment" where
  "seg_init base logSize numEntries hs =
     (case hs of (logFile, logRead, indexWrite, indexRead) \<Rightarrow>
        \<lparr>seg_baseOffset = base, seg_nextOffset = base, seg_size = logSize,
         seg_indexEntries = numEntries, seg_compressed = False,
         seg_logFile = Some logFile, seg_logRead = Some logRead,
         seg_indexWrite = Some indexWrite, seg_indexRead = Some indexRead\<rparr>)"

text \<open>
  The checks of \<open>NewSegment\<close> on the opened files. Before the segment value exists a failure closes
  the four files, afterwards it closes the segment.
\<close>

definition check_files ::
  "u64 \<Rightarrow> string \<times> string \<times> string \<times> string \<Rightarrow> directory \<Rightarrow> segment res \<times> directory" where
  "check_files base hs d =
     (case stat_size (Some (fst hs)) d of Inl e \<Rightarrow> (Inl e, snd (os_calls 4 d)) | Inr logSize \<Rightarrow>
      case stat_size (Some (snd (snd (snd hs)))) d of Inl e \<Rightarrow> (Inl e, snd (os_calls 4 d)) | Inr indexSize \<Rightarrow>
      if indexSize mod int indexEntrySize \<noteq> 0
      then (Inl (NumErr ''invalid index file size'' indexSize), snd (os_calls 4 d))
      else
        let numEntries = indexSize div int indexEntrySize;
            s = seg_init base logSize numEntries hs
        in case (if numEntries > 0
                 then (case readIndexOffset s d ((numEntries - 1) * int indexEntrySize) of
                         Inl e \<Rightarrow> Inl e
                       | Inr lastOffset \<Rightarrow> Inr (s\<lparr>seg_nextOffset := lastOffset + 1\<rparr>))
                 else Inr s) of
             Inl e \<Rightarrow> (Inl e, snd (snd (seg_Close s d)))
           | Inr s' \<Rightarrow>
               if logSize = 0 \<and> indexSize \<noteq> 0
               then (Inl (Msg ''index contains entries but log file is empty''), snd (snd (seg_Close s' d)))
               else if logSize \<noteq> 0 \<and> indexSize = 0
               then (Inl (Msg ''log file contains data but index is empty''), snd (snd (seg_Close s' d)))
               else (Inr s', d))"

definition NewSegment :: "u64 \<Rightarrow> directory \<Rightarrow> segment res \<times> directory" where
  "NewSegment base d =
     (case open_files base d of
        (Inl e, d') \<Rightarrow> (Inl e, d')
      | (Inr hs, d') \<Rightarrow> check_files base hs d')"

definition seg_SetCompressed :: "bool \<Rightarrow> segment \<Rightarrow> segment" where
  "seg_SetCompressed c s = s\<lparr>seg_compressed := c\<rparr>"

text \<open>The payload bytes of a record as stored, or the panic of the encoder.\<close>

definition stored :: "codec \<Rightarrow> bool \<Rightarrow> bytes \<Rightarrow> bytes \<Rightarrow> bytes option" where
  "stored cdc compressed key val =
     (if compressed then Encode cdc (key @ val) else Some (key @ val))"

definition seg_Append ::
  "codec \<Rightarrow> i64 \<Rightarrow> bytes \<Rightarrow> bytes \<Rightarrow> segment \<Rightarrow> directory \<Rightarrow> (u64 \<times> int) res \<times> segment \<times> directory"
where
  "seg_Append cdc timestamp key val s d =
     (if length key > 2 ^ 32 - 1 then (Inl (Msg ''key is too large''), s, d)
      else if length val > 2 ^ 32 - 1 then (Inl (Msg ''value is too large''), s, d)
      else
        case stored cdc (seg_compressed s) key val of
          None \<Rightarrow> (Inl (Panic ''snappy: decoded block is too large''), s, d)
        | Some payload \<Rightarrow>
            let bytesSaved = int (length key + length val) - int (length payload);
                offset = seg_nextOffset s;
                position = uint64 (seg_size s)
            in case writeAll (seg_logFile s)
                      (header_bytes offset timestamp (length key) (length val)) d of
                 (Inl e, d1) \<Rightarrow> (Inl e, s, d1)
               | (Inr _, d1) \<Rightarrow>
                   (case writeAll (seg_logFile s) payload d1 of
                      (Inl e, d2) \<Rightarrow> (Inl e, s, d2)
                    | (Inr _, d2) \<Rightarrow>
                        (case writeAll (seg_indexWrite s) (entry_bytes offset position) d2 of
                           (Inl e, d3) \<Rightarrow> (Inl e, s, d3)
                         | (Inr _, d3) \<Rightarrow>
                             (Inr (offset, if bytesSaved < 0 then 0 else bytesSaved),
                              s\<lparr>seg_size := seg_size s + int (messageHeaderSize + length payload),
                                seg_nextOffset := seg_nextOffset s + 1,
                                seg_indexEntries := seg_indexEntries s + 1\<rparr>,
                              d3))))"

text \<open>Where the record of index entry \<open>i\<close> ends: the next entry's position, or the segment size.\<close>

definition entry_end :: "segment \<Rightarrow> directory \<Rightarrow> int \<Rightarrow> int \<Rightarrow> u64 res" where
  "entry_end s d entries i =
     (if i + 1 < entries then readIndexPosition s d ((i + 1) * int indexEntrySize)
      else Inr (uint64 (seg_size s)))"

definition entry_bounds :: "segment \<Rightarrow> directory \<Rightarrow> int \<Rightarrow> int \<Rightarrow> u64 \<Rightarrow> (u64 \<times> u64) res" where
  "entry_bounds s d entries i position =
     (case entry_end s d entries i of Inl e \<Rightarrow> Inl e | Inr nextPos \<Rightarrow> Inr (position, nextPos))"

function bounds_search ::
  "segment \<Rightarrow> directory \<Rightarrow> u64 \<Rightarrow> int \<Rightarrow> int \<Rightarrow> int \<Rightarrow> (u64 \<times> u64) res" where
  "bounds_search s d offset entries low high =
     (if low \<le> high then
        let mid = low + (high - low) div 2
        in case readIndexEntry s d (mid * int indexEntrySize) of
             Inl e \<Rightarrow> Inl e
           | Inr (entryOffset, position) \<Rightarrow>
               if entryOffset = offset then entry_bounds s d entries mid position
               else if entryOffset < offset then bounds_search s d offset entries (mid + 1) high
               else bounds_search s d offset entries low (mid - 1)
      else Inl (OffsetErr ''offset not found in segment index'' offset))"
  by pat_completeness auto
termination
  by (relation "measure (\<lambda>(s, d, offset, entries, low, high). nat (high - low + 1))") auto

declare bounds_search.simps [simp del]

definition findMessageBounds :: "segment \<Rightarrow> directory \<Rightarrow> u64 \<Rightarrow> (u64 \<times> u64) res" where
  "findMessageBounds s d offset =
     (let entries = seg_indexEntries s
      in if entries = 0 then Inl (Msg ''segment index is empty'')
         else
           let directIdx = int64 (offset - seg_baseOffset s);
               fallback = bounds_search s d offset entries 0 (entries - 1)
           in if directIdx \<ge> 0 \<and> directIdx < entries then
                (case readIndexEntry s d (directIdx * int indexEntrySize) of
                   Inl _ \<Rightarrow> fallback
                 | Inr (entryOffset, position) \<Rightarrow>
                     if entryOffset = offset then entry_bounds s d entries directIdx position
                     else fallback)
              else fallback)"

definition findPosition :: "segment \<Rightarrow> directory \<Rightarrow> u64 \<Rightarrow> u64 res" where
  "findPosition s d offset = map_sum id fst (findMessageBounds s d offset)"

function end_search :: "segment \<Rightarrow> directory \<Rightarrow> u64 \<Rightarrow> int \<Rightarrow> int \<Rightarrow> int \<Rightarrow> u64 res" where
  "end_search s d position entries low high =
     (if low \<le> high then
        let mid = low + (high - low) div 2
        in case readIndexEntry s d (mid * int indexEntrySize) of
             Inl e \<Rightarrow> Inl e
           | Inr (_, entryPosition) \<Rightarrow>
               if entryPosition = position then entry_end s d entries mid
               else if entryPosition < position then end_search s d position entries (mid + 1) high
               else end_search s d position entries low (mid - 1)
      else Inl (OffsetErr ''log position not found in segment index'' position))"
  by pat_completeness auto
termination
  by (relation "measure (\<lambda>(s, d, position, entries, low, high). nat (high - low + 1))") auto

declare end_search.simps [simp del]

definition findEndPosition :: "segment \<Rightarrow> directory \<Rightarrow> u64 \<Rightarrow> u64 res" where
  "findEndPosition s d position =
     end_search s d position (seg_indexEntries s) 0 (seg_indexEntries s - 1)"

text \<open>\<open>make([]byte, n)\<close> panics beyond the allocator's limit of \<open>2^48\<close> bytes.\<close>

definition max_alloc :: nat where "max_alloc = 2 ^ 48"

definition seg_Read :: "codec \<Rightarrow> u64 \<Rightarrow> segment \<Rightarrow> directory \<Rightarrow> message res" where
  "seg_Read cdc offset s d =
     (if offset < seg_baseOffset s \<or> offset \<ge> seg_nextOffset s
      then Inl (OffsetErr ''offset is outside segment'' offset)
      else case findMessageBounds s d offset of
        Inl e \<Rightarrow> Inl e
      | Inr (position, nextPosition) \<Rightarrow>
      case read_at (seg_logRead s) messageHeaderSize (int64 position) d of
        Inl e \<Rightarrow> Inl e
      | Inr header \<Rightarrow>
          let messageOffset = Uint64 header;
              timestamp = Uint64 (drop 8 header);
              keySize = unat (Uint32 (drop 16 header));
              valueSize = unat (Uint32 (drop 20 header));
              payloadSize = nextPosition - position - word_of_nat messageHeaderSize
          in if messageOffset \<noteq> offset
             then Inl (OffsetErr2 ''index offset points to message offset'' offset messageOffset)
             else if unat payloadSize > max_alloc then Inl (Panic ''makeslice: len out of range'')
             else case read_at (seg_logRead s) (unat payloadSize)
                         (int64 position + int messageHeaderSize) d of
               Inl e \<Rightarrow> Inl e
             | Inr raw \<Rightarrow>
             case (if seg_compressed s then Decode cdc raw else Some raw) of
               None \<Rightarrow> Inl (Wrap ''decode compressed payload'' (OffsetErr ''at offset'' offset))
             | Some payload \<Rightarrow>
                 if length payload \<noteq> keySize + valueSize
                 then Inl (NumErr ''payload size does not match key/value sizes'' (int (length payload)))
                 else Inr \<lparr>msg_Offset = messageOffset, msg_Timestamp = timestamp,
                          msg_Key = take keySize payload, msg_Value = drop keySize payload\<rparr>)"

definition NewestTimestamp :: "segment \<Rightarrow> directory \<Rightarrow> i64 res" where
  "NewestTimestamp s d =
     (if seg_nextOffset s \<le> seg_baseOffset s then Inl (Msg ''segment is empty'')
      else if seg_indexEntries s = 0 then Inl (Msg ''segment index is empty'')
      else case readIndexPosition s d ((seg_indexEntries s - 1) * int indexEntrySize) of
        Inl e \<Rightarrow> Inl e
      | Inr position \<Rightarrow>
          (case read_at (seg_logRead s) messageHeaderSize (int64 position) d of
             Inl e \<Rightarrow> Inl e
           | Inr header \<Rightarrow> Inr (Uint64 (drop 8 header))))"

definition seg_Size :: "segment \<Rightarrow> int" where "seg_Size s = seg_size s"
definition seg_BaseOffset :: "segment \<Rightarrow> u64" where "seg_BaseOffset s = seg_baseOffset s"

text \<open>\<open>os.Remove\<close> where a missing file is not an error.\<close>

definition remove_if_exists :: "string \<Rightarrow> directory \<Rightarrow> unit res \<times> directory" where
  "remove_if_exists name d =
     (case os_remove name d of (r, d') \<Rightarrow> ((if r = Inl ErrNotExist then Inr () else r), d'))"

definition seg_Delete :: "segment \<Rightarrow> directory \<Rightarrow> unit res \<times> segment \<times> directory" where
  "seg_Delete s d =
     (case seg_Close s d of
        (Inl e, s', d0) \<Rightarrow> (Inl e, s', d0)
      | (Inr _, s', d0) \<Rightarrow>
          (case remove_if_exists (log_name (seg_baseOffset s)) d0 of
             (Inl e, d1) \<Rightarrow> (Inl e, s', d1)
           | (Inr _, d1) \<Rightarrow>
               (case remove_if_exists (index_name (seg_baseOffset s)) d1 of
                  (r, d2) \<Rightarrow> (r, s', d2))))"

text \<open>\<open>strings.HasSuffix\<close> and \<open>TrimSuffix\<close> with \<open>".log"\<close>.\<close>

definition segmentBaseOffset :: "string \<Rightarrow> u64 option" where
  "segmentBaseOffset name =
     (if length name \<ge> 4 \<and> drop (length name - 4) name = ''.log''
      then ParseUint (take (length name - 4) name) else None)"

record prepared =
  prep_payload :: bytes
  prep_keyLen :: nat
  prep_valLen :: nat
  prep_timestamp :: i64
  prep_bytesSaved :: int

fun prepare_batch :: "codec \<Rightarrow> bool \<Rightarrow> log_record list \<Rightarrow> prepared list res" where
  "prepare_batch cdc compressed [] = Inr []"
| "prepare_batch cdc compressed (r # rs) =
     (if length (rec_Key r) > 2 ^ 32 - 1 then Inl (Msg ''key is too large'')
      else if length (rec_Value r) > 2 ^ 32 - 1 then Inl (Msg ''value is too large'')
      else case stored cdc compressed (rec_Key r) (rec_Value r) of
        None \<Rightarrow> Inl (Panic ''snappy: decoded block is too large'')
      | Some p \<Rightarrow>
          let saved = int (length (rec_Key r) + length (rec_Value r)) - int (length p)
          in case prepare_batch cdc compressed rs of
               Inl e \<Rightarrow> Inl e
             | Inr ps \<Rightarrow>
                 Inr (\<lparr>prep_payload = p, prep_keyLen = length (rec_Key r),
                       prep_valLen = length (rec_Value r), prep_timestamp = rec_Timestamp r,
                       prep_bytesSaved = (if saved < 0 then 0 else saved)\<rparr> # ps))"

text \<open>The second loop of \<open>AppendBatch\<close>: offsets, log buffer, index buffer and final offset.\<close>

fun batch_buffers :: "u64 \<Rightarrow> u64 \<Rightarrow> prepared list \<Rightarrow> u64 list \<times> bytes \<times> bytes \<times> u64" where
  "batch_buffers currentPos currOffset [] = ([], [], [], currOffset)"
| "batch_buffers currentPos currOffset (p # ps) =
     (case batch_buffers (currentPos + word_of_nat (messageHeaderSize + length (prep_payload p)))
             (currOffset + 1) ps of
        (offsets, logBuf, indexBuf, lastOffset) \<Rightarrow>
          (currOffset # offsets,
           header_bytes currOffset (prep_timestamp p) (prep_keyLen p) (prep_valLen p)
             @ prep_payload p @ logBuf,
           entry_bytes currOffset currentPos @ indexBuf,
           lastOffset))"

definition seg_AppendBatch ::
  "codec \<Rightarrow> log_record list \<Rightarrow> segment \<Rightarrow> directory \<Rightarrow> (u64 list \<times> int) res \<times> segment \<times> directory"
where
  "seg_AppendBatch cdc records s d =
     (if records = [] then (Inr ([], 0), s, d)
      else case prepare_batch cdc (seg_compressed s) records of
        Inl e \<Rightarrow> (Inl e, s, d)
      | Inr prepared \<Rightarrow>
          let totalSaved = sum_list (map prep_bytesSaved prepared);
              totalLogBytes = sum_list (map (\<lambda>p. messageHeaderSize + length (prep_payload p)) prepared)
          in case batch_buffers (uint64 (seg_size s)) (seg_nextOffset s) prepared of
               (offsets, logBuf, indexBuf, currOffset) \<Rightarrow>
                 (case writeAll (seg_logFile s) logBuf d of
                    (Inl e, d1) \<Rightarrow> (Inl e, s, d1)
                  | (Inr _, d1) \<Rightarrow>
                      (case writeAll (seg_indexWrite s) indexBuf d1 of
                         (Inl e, d2) \<Rightarrow> (Inl e, s, d2)
                       | (Inr _, d2) \<Rightarrow>
                           (Inr (offsets, totalSaved),
                            s\<lparr>seg_size := seg_size s + int totalLogBytes,
                              seg_nextOffset := currOffset,
                              seg_indexEntries := seg_indexEntries s + int (length records)\<rparr>,
                            d2))))"

end
