(* ===== verification/SegmentIndex.thy ===== *)
theory SegmentIndex
  imports Segment
begin

text \<open>
  The index file of a segment as a table of (offset, position) pairs, and the correctness of the
  lookups over it: the direct probe and the two binary searches of \<open>segment.go\<close>.
\<close>

section \<open>Binary search over an index\<close>

text \<open>
  \<open>findMessageBounds\<close> and \<open>findEndPosition\<close> run the same loop with different keys. The
  interface: in a state satisfying \<open>inv\<close> the loop unfolds to the usual three-way branch on
  \<open>key st mid\<close>, and the keys are strictly increasing over the \<open>size st\<close> entries.
\<close>

locale index_search =
  fixes inv :: "'st \<Rightarrow> bool" and count :: "'st \<Rightarrow> int" and key :: "'st \<Rightarrow> int \<Rightarrow> u64"
    and search :: "'st \<Rightarrow> u64 \<Rightarrow> int \<Rightarrow> int \<Rightarrow> 'r res"
    and found :: "'st \<Rightarrow> int \<Rightarrow> 'r res" and missing :: "u64 \<Rightarrow> 'r res"
  assumes stop: "\<not> low \<le> high \<Longrightarrow> search st x low high = missing x"
    and step: "inv st \<Longrightarrow> 0 \<le> low \<Longrightarrow> low \<le> high \<Longrightarrow> high < count st \<Longrightarrow>
      search st x low high =
        (let mid = low + (high - low) div 2
         in if key st mid = x then found st mid
            else if key st mid < x then search st x (mid + 1) high
            else search st x low (mid - 1))"
    and increasing: "inv st \<Longrightarrow> 0 \<le> i \<Longrightarrow> i < j \<Longrightarrow> j < count st \<Longrightarrow> key st i < key st j"
begin

lemma mid_bounds:
  fixes low high :: int
  assumes "low \<le> high"
  shows "low \<le> low + (high - low) div 2" and "low + (high - low) div 2 \<le> high"
  using assms by linarith+

lemma unfold_search:
  assumes "inv st" "0 \<le> low" "low \<le> high" "high < count st" "mid = low + (high - low) div 2"
  shows "search st x low high =
    (if key st mid = x then found st mid
     else if key st mid < x then search st x (mid + 1) high else search st x low (mid - 1))"
  using step [OF assms(1-4), of x] assms(5) by (simp only: Let_def)

lemma search_found:
  assumes "inv st" "0 \<le> low" "high < count st" "low \<le> k" "k \<le> high" "key st k = x"
  shows "search st x low high = found st k"
  using assms
proof (induction "nat (high - low + 1)" arbitrary: low high rule: less_induct)
  case less
  define mid where "mid = low + (high - low) div 2"
  have lh: "low \<le> high" using less.prems by simp
  have mb: "low \<le> mid" "mid \<le> high" using mid_bounds [OF lh] by (simp_all add: mid_def)
  note unf = unfold_search [OF less.prems(1,2) lh less.prems(3) mid_def]
  consider "k = mid" | "k < mid" | "mid < k" by linarith
  then show ?case
  proof cases
    case 1
    then show ?thesis using unf less.prems(6) by simp
  next
    case 2
    then have "x < key st mid" using less.prems mb increasing [of st k mid] by simp
    moreover have "search st x low (mid - 1) = found st k"
      by (rule less.hyps) (use less.prems 2 mb in auto)
    ultimately show ?thesis using unf [of x] by auto
  next
    case 3
    then have "key st mid < x" using less.prems mb increasing [of st mid k] by simp
    moreover have "search st x (mid + 1) high = found st k"
      by (rule less.hyps) (use less.prems 3 mb in auto)
    ultimately show ?thesis using unf [of x] by auto
  qed
qed

lemma search_missing:
  assumes "inv st" "0 \<le> low" "high < count st" "\<forall>k. low \<le> k \<and> k \<le> high \<longrightarrow> key st k \<noteq> x"
  shows "search st x low high = missing x"
  using assms
proof (induction "nat (high - low + 1)" arbitrary: low high rule: less_induct)
  case less
  show ?case
  proof (cases "low \<le> high")
    case False
    then show ?thesis by (rule stop)
  next
    case True
    define mid where "mid = low + (high - low) div 2"
    have mb: "low \<le> mid" "mid \<le> high" using mid_bounds [OF True] by (simp_all add: mid_def)
    note unf = unfold_search [OF less.prems(1,2) True less.prems(3) mid_def]
    have "search st x (mid + 1) high = missing x"
      by (rule less.hyps) (use less.prems mb True in auto)
    moreover have "search st x low (mid - 1) = missing x"
      by (rule less.hyps) (use less.prems mb True in auto)
    moreover have "key st mid \<noteq> x" using less.prems(4) mb by blast
    ultimately show ?thesis using unf by simp
  qed
qed

end

section \<open>The index file as a table\<close>

type_synonym index = "(u64 \<times> u64) list"

definition index_bytes :: "index \<Rightarrow> bytes" where
  "index_bytes tbl = concat (map (\<lambda>(off, pos). entry_bytes off pos) tbl)"

lemma length_entry_bytes [codec_simps]: "length (entry_bytes off pos) = 16"
  by (simp add: entry_bytes_def codec_simps)

lemma entry_bytes_decode [codec_simps]:
  "Uint64 (entry_bytes off pos) = off" "Uint64 (drop 8 (entry_bytes off pos)) = pos"
  by (simp_all add: entry_bytes_def codec_simps)

lemma length_index_bytes [codec_simps]: "length (index_bytes tbl) = 16 * length tbl"
  by (auto simp: index_bytes_def length_entry_bytes intro!: trans [OF length_concat_const])

lemma index_bytes_append: "index_bytes (xs @ ys) = index_bytes xs @ index_bytes ys"
  by (simp add: index_bytes_def)

lemma index_slice:
  assumes "i < length tbl"
  shows "take 16 (drop (16 * i) (index_bytes tbl)) = entry_bytes (fst (tbl ! i)) (snd (tbl ! i))"
proof -
  let ?es = "map (\<lambda>(off, pos). entry_bytes off pos) tbl"
  have len: "x \<in> set ?es \<Longrightarrow> length x = 16" for x
    by (auto simp: length_entry_bytes)
  have "length (concat (take i ?es)) = 16 * i"
    using assms len by (subst length_concat_const [where n = 16]) (auto dest: in_set_takeD)
  moreover have "length (?es ! i) = 16" using assms by (intro len) simp
  ultimately show ?thesis
    using slice_concat [of i ?es] assms by (simp add: index_bytes_def case_prod_beta)
qed

text \<open>
  The part of the segment invariant the lookups need: the index file starts with the table. What
  a torn write may have left behind it does not matter.
\<close>

definition index_inv :: "index \<times> segment \<times> directory \<Rightarrow> bool" where
  "index_inv = (\<lambda>(tbl, s, d). (\<exists>nm x. seg_indexRead s = Some nm \<and> lookup_file d nm = Some (index_bytes tbl @ x))
     \<and> seg_indexEntries s = int (length tbl)
     \<and> sorted_wrt (<) (map fst tbl) \<and> sorted_wrt (<) (map snd tbl))"

lemma readIndexEntry_table:
  assumes "seg_indexRead s = Some nm" "lookup_file d nm = Some (index_bytes tbl @ x)"
    "0 \<le> i" "i < int (length tbl)"
  shows "readIndexEntry s d (i * 16) = Inr (tbl ! nat i)"
proof -
  obtain k where i: "i = int k" and k: "k < length tbl"
    using assms(3,4) by (metis nonneg_int_cases of_nat_less_iff)
  have nat: "nat (int k * 16) = 16 * k" by (simp add: nat_mult_distrib)
  show ?thesis
    using k assms(1,2) index_slice [OF k]
    by (simp add: i nat readIndexEntry_def read_at_def indexEntrySize_def codec_simps)
qed

lemma readIndexEntry_inv:
  "index_inv (tbl, s, d) \<Longrightarrow> 0 \<le> i \<Longrightarrow> i < int (length tbl) \<Longrightarrow>
     readIndexEntry s d (i * 16) = Inr (tbl ! nat i)"
  by (auto simp: index_inv_def intro: readIndexEntry_table)

lemma readIndexEntry_nat:
  "index_inv (tbl, s, d) \<Longrightarrow> k < length tbl \<Longrightarrow> readIndexEntry s d (int k * 16) = Inr (tbl ! k)"
  using readIndexEntry_inv [of tbl s d "int k"] by simp

lemma sorted_nth_int:
  assumes "sorted_wrt (<) (map f tbl)" "0 \<le> i" "i < j" "j < int (length tbl)"
  shows "f (tbl ! nat i) < f (tbl ! nat j)"
  using sorted_wrt_nth_less [OF assms(1), of "nat i" "nat j"] assms by (simp add: nat_less_iff)

interpretation bounds: index_search
  index_inv "\<lambda>(tbl, s, d). int (length tbl)" "\<lambda>(tbl, s, d) i. fst (tbl ! nat i)"
  "\<lambda>(tbl, s, d) x low high. bounds_search s d x (int (length tbl)) low high"
  "\<lambda>(tbl, s, d) i. entry_bounds s d (int (length tbl)) i (snd (tbl ! nat i))"
  "\<lambda>x. Inl (OffsetErr ''offset not found in segment index'' x)"
proof (unfold_locales, goal_cases)
  case (1 low high st x)
  then show ?case by (simp add: bounds_search.simps case_prod_beta)
next
  case (2 st low high x)
  obtain tbl s d where st: "st = (tbl, s, d)" by (cases st) auto
  define mid where "mid = low + (high - low) div 2"
  have "0 \<le> mid" "mid < int (length tbl)" using 2 st by (simp_all add: mid_def)
  then have "readIndexEntry s d (mid * 16) = Inr (tbl ! nat mid)"
    using 2 st by (intro readIndexEntry_inv) simp_all
  then show ?case
    using 2(3) st by (simp add: bounds_search.simps [of s d x _ low high] indexEntrySize_def Let_def
        case_prod_beta flip: mid_def)
next
  case (3 st i j)
  then show ?case by (auto simp: index_inv_def intro: sorted_nth_int)
qed

interpretation ends: index_search
  index_inv "\<lambda>(tbl, s, d). int (length tbl)" "\<lambda>(tbl, s, d) i. snd (tbl ! nat i)"
  "\<lambda>(tbl, s, d) x low high. end_search s d x (int (length tbl)) low high"
  "\<lambda>(tbl, s, d) i. entry_end s d (int (length tbl)) i"
  "\<lambda>x. Inl (OffsetErr ''log position not found in segment index'' x)"
proof (unfold_locales, goal_cases)
  case (1 low high st x)
  then show ?case by (simp add: end_search.simps case_prod_beta)
next
  case (2 st low high x)
  obtain tbl s d where st: "st = (tbl, s, d)" by (cases st) auto
  define mid where "mid = low + (high - low) div 2"
  have "0 \<le> mid" "mid < int (length tbl)" using 2 st by (simp_all add: mid_def)
  then have "readIndexEntry s d (mid * 16) = Inr (tbl ! nat mid)"
    using 2 st by (intro readIndexEntry_inv) simp_all
  then show ?case
    using 2(3) st by (simp add: end_search.simps [of s d x _ low high] indexEntrySize_def Let_def
        case_prod_beta flip: mid_def)
next
  case (3 st i j)
  then show ?case by (auto simp: index_inv_def intro: sorted_nth_int)
qed

section \<open>Lookups\<close>

text \<open>The end of record \<open>k\<close>: the position of record \<open>k + 1\<close>, or the size after the last.\<close>

definition table_end :: "index \<Rightarrow> segment \<Rightarrow> nat \<Rightarrow> u64" where
  "table_end tbl s k = (if Suc k < length tbl then snd (tbl ! Suc k) else uint64 (seg_size s))"

lemma entry_end_table:
  assumes "index_inv (tbl, s, d)" "k < length tbl"
  shows "entry_end s d (int (length tbl)) (int k) = Inr (table_end tbl s k)"
proof (cases "Suc k < length tbl")
  case True
  then have "readIndexEntry s d (int (Suc k) * 16) = Inr (tbl ! Suc k)"
    using readIndexEntry_inv [OF assms(1), of "int (Suc k)"] by (simp only: nat_int)
  then show ?thesis
    using True by (simp add: entry_end_def table_end_def readIndexPosition_def indexEntrySize_def
        add.commute)
next
  case False
  then show ?thesis using assms(2) by (simp add: entry_end_def table_end_def)
qed

lemma findMessageBounds_present:
  assumes inv: "index_inv (tbl, s, d)" and k: "k < length tbl"
  shows "findMessageBounds s d (fst (tbl ! k)) = Inr (snd (tbl ! k), table_end tbl s k)"
proof -
  let ?off = "fst (tbl ! k)" and ?n = "int (length tbl)"
  have n: "seg_indexEntries s = ?n" "length tbl \<noteq> 0" using inv k by (auto simp: index_inv_def)
  have hit: "entry_bounds s d ?n (int k) (snd (tbl ! k)) = Inr (snd (tbl ! k), table_end tbl s k)"
    using entry_end_table [OF inv k] by (simp add: entry_bounds_def)
  have slow: "bounds_search s d ?off ?n 0 (?n - 1) = Inr (snd (tbl ! k), table_end tbl s k)"
    using bounds.search_found [of "(tbl, s, d)" 0 "?n - 1" "int k" ?off] inv k hit by simp
  have direct: "tbl ! nat i = tbl ! k \<and> i = int k"
    if "0 \<le> i" "i < ?n" "fst (tbl ! nat i) = ?off" for i
  proof -
    have "nat i = k"
      using that k inv sorted_wrt_less_nth_iff [of "map fst tbl" "nat i" k]
        sorted_wrt_less_nth_iff [of "map fst tbl" k "nat i"]
      by (auto simp: index_inv_def nat_less_iff)
    then show ?thesis using that by auto
  qed
  show ?thesis
    using slow n direct [of "int64 (?off - seg_baseOffset s)"] hit
      readIndexEntry_inv [OF inv, of "int64 (?off - seg_baseOffset s)"]
    by (auto simp: findMessageBounds_def Let_def indexEntrySize_def case_prod_beta)
qed

lemma findMessageBounds_absent:
  assumes inv: "index_inv (tbl, s, d)" and absent: "offset \<notin> set (map fst tbl)"
  shows "findMessageBounds s d offset =
    Inl (if tbl = [] then Msg ''segment index is empty''
         else OffsetErr ''offset not found in segment index'' offset)"
proof -
  let ?n = "int (length tbl)"
  have n: "seg_indexEntries s = ?n" using inv by (auto simp: index_inv_def)
  have ne: "fst (tbl ! nat i) \<noteq> offset" if "0 \<le> i" "i < ?n" for i
    using that absent nth_mem [of "nat i" tbl] by (auto simp: nat_less_iff)
  have "bounds_search s d offset ?n 0 (?n - 1) =
      Inl (OffsetErr ''offset not found in segment index'' offset)"
    using bounds.search_missing [of "(tbl, s, d)" 0 "?n - 1" offset] inv ne by simp
  then show ?thesis
    using n ne [of "int64 (offset - seg_baseOffset s)"]
      readIndexEntry_inv [OF inv, of "int64 (offset - seg_baseOffset s)"]
    by (auto simp: findMessageBounds_def Let_def indexEntrySize_def case_prod_beta)
qed

lemma findEndPosition_present:
  assumes inv: "index_inv (tbl, s, d)" and k: "k < length tbl"
  shows "findEndPosition s d (snd (tbl ! k)) = Inr (table_end tbl s k)"
  using ends.search_found [of "(tbl, s, d)" 0 "int (length tbl) - 1" "int k" "snd (tbl ! k)"]
    entry_end_table [OF inv k] inv k
  by (simp add: findEndPosition_def index_inv_def)


section \<open>The index as a table\<close>

text \<open>What a lookup means: the first entry with that offset, scanning the table from its start.\<close>

fun scan_bounds :: "index \<Rightarrow> u64 \<Rightarrow> u64 \<Rightarrow> (u64 \<times> u64) option" where
  "scan_bounds [] eof offset = None"
| "scan_bounds ((off, pos) # tbl) eof offset =
     (if off = offset then Some (pos, case tbl of [] \<Rightarrow> eof | (_, next) # _ \<Rightarrow> next)
      else scan_bounds tbl eof offset)"

lemma scan_bounds_absent: "offset \<notin> set (map fst tbl) \<Longrightarrow> scan_bounds tbl eof offset = None"
  by (induction tbl eof offset rule: scan_bounds.induct) auto

lemma scan_bounds_nth:
  assumes "sorted_wrt (<) (map fst tbl)" "k < length tbl"
  shows "scan_bounds tbl eof (fst (tbl ! k)) =
    Some (snd (tbl ! k), if Suc k < length tbl then snd (tbl ! Suc k) else eof)"
  using assms
proof (induction tbl arbitrary: k)
  case (Cons e tbl)
  obtain off pos where e: "e = (off, pos)" by fastforce
  show ?case
  proof (cases k)
    case 0
    then show ?thesis by (auto simp: e split: list.split)
  next
    case (Suc j)
    have "fst (tbl ! j) \<in> fst ` set tbl" using Cons.prems(2) Suc by simp
    then have "off \<noteq> fst (tbl ! j)" using Cons.prems(1) e by auto
    then show ?thesis using Cons.IH [of j] Cons.prems e Suc by simp
  qed
qed simp

lemma findMessageBounds_scan:
  assumes inv: "index_inv (tbl, s, d)"
  shows "findMessageBounds s d offset =
    (case scan_bounds tbl (uint64 (seg_size s)) offset of
       Some bounds \<Rightarrow> Inr bounds
     | None \<Rightarrow> Inl (if tbl = [] then Msg ''segment index is empty''
                   else OffsetErr ''offset not found in segment index'' offset))"
proof (cases "offset \<in> set (map fst tbl)")
  case True
  then obtain k where k: "k < length tbl" "offset = fst (tbl ! k)" by (auto simp: in_set_conv_nth)
  have "sorted_wrt (<) (map fst tbl)" using inv by (simp add: index_inv_def)
  from scan_bounds_nth [OF this k(1)] show ?thesis
    using findMessageBounds_present [OF inv k(1)] k(2) by (simp add: table_end_def)
next
  case False
  then show ?thesis using findMessageBounds_absent [OF inv False] by (simp add: scan_bounds_absent)
qed

end
