(* ===== verification/SegmentStore.thy ===== *)
theory SegmentStore
  imports SegmentIndex
begin

text \<open>
  A segment as a list of messages: the representation predicate \<open>seg_repr\<close> ties the in-memory
  segment, its two files and the messages together, and each operation of \<open>segment.go\<close> is proved
  against it. Compaction may leave gaps, so the offsets are only required to be strictly
  increasing and inside \<open>[baseOffset, nextOffset)\<close>.
\<close>

section \<open>Representation\<close>

definition rec_bytes :: "codec \<Rightarrow> bool \<Rightarrow> message \<Rightarrow> bytes" where
  "rec_bytes cdc c m =
     header_bytes (msg_Offset m) (msg_Timestamp m) (length (msg_Key m)) (length (msg_Value m))
       @ the (stored cdc c (msg_Key m) (msg_Value m))"

definition log_bytes :: "codec \<Rightarrow> bool \<Rightarrow> message list \<Rightarrow> bytes" where
  "log_bytes cdc c ms = concat (map (rec_bytes cdc c) ms)"

fun index_from :: "codec \<Rightarrow> bool \<Rightarrow> nat \<Rightarrow> message list \<Rightarrow> index" where
  "index_from cdc c pos [] = []"
| "index_from cdc c pos (m # ms) =
     (msg_Offset m, word_of_nat pos) # index_from cdc c (pos + length (rec_bytes cdc c m)) ms"

definition msg_wf :: "codec \<Rightarrow> bool \<Rightarrow> message \<Rightarrow> bool" where
  "msg_wf cdc c m \<longleftrightarrow> length (msg_Key m) < 2 ^ 32 \<and> length (msg_Value m) < 2 ^ 32
     \<and> stored cdc c (msg_Key m) (msg_Value m) \<noteq> None"

definition seg_files :: "codec \<Rightarrow> bool \<Rightarrow> u64 \<Rightarrow> directory \<Rightarrow> message list \<Rightarrow> bool" where
  "seg_files cdc c base d ms \<longleftrightarrow> lookup_file d (log_name base) = Some (log_bytes cdc c ms)
     \<and> lookup_file d (index_name base) = Some (index_bytes (index_from cdc c 0 ms))"

definition msgs_ok :: "codec \<Rightarrow> bool \<Rightarrow> u64 \<Rightarrow> u64 \<Rightarrow> message list \<Rightarrow> bool" where
  "msgs_ok cdc c base next ms \<longleftrightarrow> (\<forall>m \<in> set ms. msg_wf cdc c m \<and> base \<le> msg_Offset m \<and> msg_Offset m < next)
     \<and> sorted_wrt (<) (map msg_Offset ms) \<and> base \<le> next"

definition seg_open :: "segment \<Rightarrow> bool" where
  "seg_open s \<longleftrightarrow> seg_logFile s = Some (log_name (seg_baseOffset s))
     \<and> seg_logRead s = Some (log_name (seg_baseOffset s))
     \<and> seg_indexWrite s = Some (index_name (seg_baseOffset s))
     \<and> seg_indexRead s = Some (index_name (seg_baseOffset s))"

definition seg_repr :: "codec \<Rightarrow> directory \<Rightarrow> segment \<Rightarrow> message list \<Rightarrow> bool" where
  "seg_repr cdc d s ms \<longleftrightarrow> seg_open s
     \<and> seg_files cdc (seg_compressed s) (seg_baseOffset s) d ms
     \<and> msgs_ok cdc (seg_compressed s) (seg_baseOffset s) (seg_nextOffset s) ms
     \<and> seg_size s = int (length (log_bytes cdc (seg_compressed s) ms))
     \<and> seg_indexEntries s = int (length ms)"

text \<open>
  What the code relies on of Snappy: decoding inverts encoding, and the encoded size is bounded
  as \<open>MaxEncodedLen\<close> documents.
\<close>

definition codec_ok :: "codec \<Rightarrow> bool" where
  "codec_ok cdc \<longleftrightarrow> (\<forall>p q. Encode cdc p = Some q \<longrightarrow>
     Decode cdc q = Some p \<and> length q \<le> 32 + length p + length p div 6)"

section \<open>Layout facts\<close>

lemma header_decode [codec_simps]:
  "length (header_bytes off ts kl vl) = 24"
  "Uint64 (header_bytes off ts kl vl) = off"
  "Uint64 (drop 8 (header_bytes off ts kl vl)) = ts"
  "Uint32 (drop 16 (header_bytes off ts kl vl)) = word_of_nat kl"
  "Uint32 (drop 20 (header_bytes off ts kl vl)) = word_of_nat vl"
  by (simp_all add: header_bytes_def codec_simps)

lemma length_rec_bytes [codec_simps]:
  "length (rec_bytes cdc c m) = 24 + length (the (stored cdc c (msg_Key m) (msg_Value m)))"
  by (simp add: rec_bytes_def codec_simps)

lemma log_bytes_append: "log_bytes cdc c (xs @ ys) = log_bytes cdc c xs @ log_bytes cdc c ys"
  by (simp add: log_bytes_def)

lemma log_bytes_Nil [simp]: "log_bytes cdc c [] = []"
  by (simp add: log_bytes_def)

lemma log_bytes_eq_Nil [simp]: "log_bytes cdc c ms = [] \<longleftrightarrow> ms = []"
proof (cases ms)
  case (Cons m ns)
  have "length (rec_bytes cdc c m) \<noteq> 0" by (simp add: length_rec_bytes)
  then show ?thesis using Cons by (auto simp: log_bytes_def)
qed simp

lemma length_index_from [simp]: "length (index_from cdc c pos ms) = length ms"
  by (induction ms arbitrary: pos) auto

lemma index_from_append:
  "index_from cdc c pos (xs @ ys) =
     index_from cdc c pos xs @ index_from cdc c (pos + length (log_bytes cdc c xs)) ys"
  by (induction xs arbitrary: pos) (auto simp: log_bytes_def add.assoc)

lemma index_from_nth:
  "i < length ms \<Longrightarrow> index_from cdc c pos ms ! i =
     (msg_Offset (ms ! i), word_of_nat (pos + length (log_bytes cdc c (take i ms))))"
proof (induction ms arbitrary: pos i)
  case Nil
  then show ?case by simp
next
  case (Cons m ms)
  then show ?case by (cases i) (auto simp: log_bytes_def add.assoc)
qed

lemma map_fst_index_from [simp]: "map fst (index_from cdc c pos ms) = map msg_Offset ms"
  by (induction ms arbitrary: pos) auto

lemma int64_small: "n < 2 ^ 63 \<Longrightarrow> int64 (word_of_nat n) = int n"
  by (simp add: int64_def signed_of_nat signed_take_bit_int_eq_self)

lemma unat_small: "n < 2 ^ 63 \<Longrightarrow> unat (word_of_nat n :: u64) = n"
  by (simp add: unat_of_nat)

lemma uint64_nat [simp]: "uint64 (int n) = word_of_nat n"
  by (simp add: uint64_def)

lemma max_file_size_less: "n \<le> max_file_size \<Longrightarrow> n < 2 ^ 63"
  by (simp add: max_file_size_def)

lemma sorted_positions:
  assumes "length (log_bytes cdc c ms) \<le> max_file_size"
  shows "sorted_wrt (<) (map snd (index_from cdc c 0 ms))"
proof (subst sorted_wrt_iff_nth_less, intro allI impI)
  fix i j assume ij: "i < j" "j < length (map snd (index_from cdc c 0 ms))"
  let ?p = "\<lambda>i. length (log_bytes cdc c (take i ms))"
  have "?p (Suc i) \<le> ?p j"
    using ij length_concat_take_le [of "Suc i" "map (rec_bytes cdc c) (take j ms)"]
    by (simp add: log_bytes_def take_map min_def)
  moreover have "?p i < ?p (Suc i)"
    using ij by (simp add: take_Suc_conv_app_nth log_bytes_append)
  moreover have "?p j \<le> length (log_bytes cdc c ms)"
    using length_concat_take_le [of j "map (rec_bytes cdc c) ms"]
    by (simp add: log_bytes_def take_map)
  ultimately have "?p i < ?p j" "?p j < 2 ^ 63"
    using assms max_file_size_less by (auto intro: order_le_less_trans)
  then show "map snd (index_from cdc c 0 ms) ! i < map snd (index_from cdc c 0 ms) ! j"
    using ij by (simp add: index_from_nth word_less_nat_alt unat_small)
qed

lemma seg_repr_size: "seg_repr cdc d s ms \<Longrightarrow> dir_wf d \<Longrightarrow>
    length (log_bytes cdc (seg_compressed s) ms) \<le> max_file_size"
  by (auto simp: seg_repr_def seg_files_def dest: dir_wf_size)

lemma seg_repr_index:
  assumes "seg_repr cdc d s ms" "dir_wf d"
  shows "index_inv (index_from cdc (seg_compressed s) 0 ms, s, d)"
  using assms sorted_positions [OF seg_repr_size [OF assms]]
  by (auto simp: index_inv_def seg_repr_def seg_files_def seg_open_def msgs_ok_def)

text \<open>What the log file holds from the start of record \<open>k\<close> on.\<close>

lemma drop_log_bytes:
  assumes "k < length ms"
  shows "drop (length (log_bytes cdc c (take k ms))) (log_bytes cdc c ms) =
    rec_bytes cdc c (ms ! k) @ log_bytes cdc c (drop (Suc k) ms)"
  using assms drop_concat_take [of k "map (rec_bytes cdc c) ms"]
  by (simp add: log_bytes_def take_map drop_map Cons_nth_drop_Suc [symmetric])

lemma length_log_bytes_Suc:
  assumes "k < length ms"
  shows "length (log_bytes cdc c (take (Suc k) ms)) =
    length (log_bytes cdc c (take k ms)) + length (rec_bytes cdc c (ms ! k))"
  using assms by (simp add: take_Suc_conv_app_nth log_bytes_append log_bytes_def)

lemma length_log_bytes_take: "length (log_bytes cdc c (take k ms)) \<le> length (log_bytes cdc c ms)"
  using length_concat_take_le [of k "map (rec_bytes cdc c) ms"] by (simp add: log_bytes_def take_map)

lemma table_end_repr:
  assumes "seg_repr cdc d s ms" "k < length ms"
  shows "table_end (index_from cdc (seg_compressed s) 0 ms) s k =
    word_of_nat (length (log_bytes cdc (seg_compressed s) (take (Suc k) ms)))"
proof (cases "Suc k < length ms")
  case True
  then show ?thesis by (simp add: table_end_def index_from_nth)
next
  case False
  then have "take (Suc k) ms = ms" using assms(2) by simp
  then show ?thesis using False assms(1) by (simp add: table_end_def seg_repr_def)
qed

lemma payload_bound:
  assumes "codec_ok cdc" "msg_wf cdc c m"
  shows "length (the (stored cdc c (msg_Key m) (msg_Value m))) \<le> max_alloc"
proof -
  obtain p where p: "stored cdc c (msg_Key m) (msg_Value m) = Some p"
    using assms(2) by (auto simp: msg_wf_def)
  let ?n = "length (msg_Key m @ msg_Value m)"
  have n: "?n < 2 * 2 ^ 32" using assms(2) by (simp add: msg_wf_def)
  have "length p \<le> 32 + ?n + ?n div 6"
  proof (cases c)
    case True
    then show ?thesis using p assms(1) by (simp only: stored_def codec_ok_def if_True)
  next
    case False
    then show ?thesis using p by (auto simp: stored_def)
  qed
  then show ?thesis using n p by (simp add: max_alloc_def)
qed

lemma stored_decode:
  assumes "codec_ok cdc" "msg_wf cdc c m"
  shows "(if c then Decode cdc (the (stored cdc c (msg_Key m) (msg_Value m)))
          else Some (the (stored cdc c (msg_Key m) (msg_Value m)))) = Some (msg_Key m @ msg_Value m)"
  using assms by (auto simp: msg_wf_def stored_def codec_ok_def)

section \<open>Read\<close>

lemma read_at_record:
  assumes f: "lookup_file d nm = Some (log_bytes cdc c ms)" and k: "k < length ms"
    and n: "from + n \<le> length (rec_bytes cdc c (ms ! k))"
  shows "read_at (Some nm) n (int (length (log_bytes cdc c (take k ms))) + int from) d =
    Inr (take n (drop from (rec_bytes cdc c (ms ! k))))"
proof -
  let ?p = "length (log_bytes cdc c (take k ms))"
  have nat: "nat (int ?p + int from) = from + ?p" by (simp add: nat_add_distrib)
  have "drop (from + ?p) (log_bytes cdc c ms) =
      drop from (rec_bytes cdc c (ms ! k)) @ log_bytes cdc c (drop (Suc k) ms)"
    using drop_log_bytes [OF k, of cdc c] n by (simp flip: drop_drop)
  moreover have "?p + length (rec_bytes cdc c (ms ! k)) \<le> length (log_bytes cdc c ms)"
    using length_log_bytes_take [of cdc c "Suc k" ms] by (simp add: length_log_bytes_Suc [OF k])
  ultimately show ?thesis
    using f n by (simp add: read_at_def nat)
qed

lemma seg_Read_nth:
  assumes r: "seg_repr cdc d s ms" and wf: "dir_wf d" and cdc: "codec_ok cdc" and k: "k < length ms"
  shows "seg_Read cdc (msg_Offset (ms ! k)) s d = Inr (ms ! k)"
proof -
  let ?c = "seg_compressed s" and ?m = "ms ! k"
  let ?p = "length (log_bytes cdc ?c (take k ms))"
  let ?pay = "the (stored cdc ?c (msg_Key ?m) (msg_Value ?m))"
  let ?tbl = "index_from cdc ?c 0 ms"
  have m: "msg_wf cdc ?c ?m" "seg_baseOffset s \<le> msg_Offset ?m" "msg_Offset ?m < seg_nextOffset s"
    using r k by (auto simp: seg_repr_def msgs_ok_def)
  have p: "?p < 2 ^ 63"
    using length_log_bytes_take [of cdc ?c k ms] seg_repr_size [OF r wf]
    by (intro max_file_size_less) simp
  have b: "findMessageBounds s d (msg_Offset ?m) =
      Inr (word_of_nat ?p, word_of_nat (?p + (24 + length ?pay)))"
    using findMessageBounds_present [OF seg_repr_index [OF r wf], of k] k
    by (simp add: index_from_nth table_end_repr [OF r k] length_log_bytes_Suc length_rec_bytes)
  have sz: "unat (word_of_nat (?p + (24 + length ?pay)) - word_of_nat ?p - word_of_nat 24 :: u64)
      = length ?pay"
    using payload_bound [OF cdc m(1)] by (simp add: unat_small max_alloc_def)
  have f: "lookup_file d (log_name (seg_baseOffset s)) = Some (log_bytes cdc ?c ms)"
    and h: "seg_logRead s = Some (log_name (seg_baseOffset s))"
    using r by (auto simp: seg_repr_def seg_files_def seg_open_def)
  have hd: "read_at (seg_logRead s) 24 (int ?p) d = Inr (header_bytes (msg_Offset ?m)
      (msg_Timestamp ?m) (length (msg_Key ?m)) (length (msg_Value ?m)))"
    using read_at_record [OF f k, of 0 24] by (simp add: h length_rec_bytes rec_bytes_def codec_simps)
  have pl: "read_at (seg_logRead s) (length ?pay) (int ?p + 24) d = Inr ?pay"
    using read_at_record [OF f k, of 24 "length ?pay"]
    by (simp add: h length_rec_bytes rec_bytes_def codec_simps)
  have kl: "unat (word_of_nat (length (msg_Key ?m)) :: u32) = length (msg_Key ?m)"
      "unat (word_of_nat (length (msg_Value ?m)) :: u32) = length (msg_Value ?m)"
    using m(1) by (simp_all add: msg_wf_def unat_of_nat)
  show ?thesis
    using m b hd pl sz payload_bound [OF cdc m(1)] stored_decode [OF cdc m(1)]
    by (simp add: seg_Read_def int64_small [OF p] messageHeaderSize_def header_decode kl
        not_less [symmetric] Let_def split: if_splits)
qed

lemma seg_Read_present:
  "seg_repr cdc d s ms \<Longrightarrow> dir_wf d \<Longrightarrow> codec_ok cdc \<Longrightarrow> m \<in> set ms \<Longrightarrow>
     seg_Read cdc (msg_Offset m) s d = Inr m"
  by (metis in_set_conv_nth seg_Read_nth)

lemma seg_Read_absent:
  assumes "seg_repr cdc d s ms" "dir_wf d" "offset \<notin> set (map msg_Offset ms)"
  shows "\<exists>e. seg_Read cdc offset s d = Inl e"
  using findMessageBounds_absent [OF seg_repr_index [OF assms(1,2)]] assms(3)
  by (simp add: seg_Read_def)

lemma seg_Read_closed: "seg_indexRead s = None \<Longrightarrow> \<exists>e. seg_Read cdc offset s d = Inl e"
  by (subst seg_Read_def)
    (auto simp: findMessageBounds_def readIndexEntry_def read_at_def Let_def bounds_search.simps)

text \<open>All of \<open>Read\<close> in one equation: the message with that offset, or an error.\<close>

lemma seg_Read_iff:
  assumes "seg_repr cdc d s ms" "dir_wf d" "codec_ok cdc"
  shows "seg_Read cdc offset s d = Inr m \<longleftrightarrow> m \<in> set ms \<and> msg_Offset m = offset"
proof
  assume r: "seg_Read cdc offset s d = Inr m"
  then obtain m' where "m' \<in> set ms" "msg_Offset m' = offset"
    using seg_Read_absent [OF assms(1,2), of offset] by auto
  then show "m \<in> set ms \<and> msg_Offset m = offset"
    using seg_Read_present [OF assms, of m'] r by simp
qed (use seg_Read_present [OF assms] in auto)

section \<open>Frames\<close>

lemma last_log_name: "last (log_name b) = CHR ''g''" and last_index_name: "last (index_name b) = CHR ''x''"
  by (simp_all add: log_name_def index_name_def)

lemma log_name_neq_index_name [simp]: "log_name a \<noteq> index_name b" "index_name b \<noteq> log_name a"
proof -
  show "log_name a \<noteq> index_name b"
  proof
    assume "log_name a = index_name b"
    then have "last (log_name a) = last (index_name b)" by (rule arg_cong)
    then show False by (simp add: last_log_name last_index_name)
  qed
  then show "index_name b \<noteq> log_name a" by (rule not_sym)
qed

lemma log_name_inject [simp]: "log_name a = log_name b \<longleftrightarrow> a = b"
  by (simp add: log_name_def format_uint_inject word_unat_eq_iff)

lemma index_name_inject [simp]: "index_name a = index_name b \<longleftrightarrow> a = b"
  by (simp add: index_name_def format_uint_inject word_unat_eq_iff)

lemma segmentBaseOffset_log_name [codec_simps]: "segmentBaseOffset (log_name b) = Some b"
  by (simp add: segmentBaseOffset_def log_name_def ParseUint_format)

lemma segmentBaseOffset_index_name: "segmentBaseOffset (index_name b) = None"
proof -
  have "drop (length (index_name b) - 4) (index_name b) = ''ndex''"
    by (simp add: index_name_def)
  then show ?thesis by (simp add: segmentBaseOffset_def)
qed

definition touches_only :: "string set \<Rightarrow> directory \<Rightarrow> directory \<Rightarrow> bool" where
  "touches_only N d d' \<longleftrightarrow> (\<forall>nm. nm \<notin> N \<longrightarrow> lookup_file d' nm = lookup_file d nm)"

abbreviation seg_names :: "segment \<Rightarrow> string set" where
  "seg_names s \<equiv> {log_name (seg_baseOffset s), index_name (seg_baseOffset s)}"

lemma seg_repr_frame:
  "touches_only N d d' \<Longrightarrow> seg_names s \<inter> N = {} \<Longrightarrow> seg_repr cdc d s ms \<Longrightarrow> seg_repr cdc d' s ms"
  by (auto simp: touches_only_def seg_repr_def seg_files_def)

lemma seg_repr_cong: "lookup_file d' = lookup_file d \<Longrightarrow> seg_repr cdc d' s ms = seg_repr cdc d s ms"
  by (simp add: seg_repr_def seg_files_def)

section \<open>Append\<close>

definition new_message :: "u64 \<Rightarrow> log_record \<Rightarrow> message" where
  "new_message offset r = \<lparr>msg_Offset = offset, msg_Timestamp = rec_Timestamp r,
     msg_Key = rec_Key r, msg_Value = rec_Value r\<rparr>"

lemma new_message_simps [simp]:
  "msg_Offset (new_message off r) = off" "msg_Timestamp (new_message off r) = rec_Timestamp r"
  "msg_Key (new_message off r) = rec_Key r" "msg_Value (new_message off r) = rec_Value r"
  by (simp_all add: new_message_def)

fun number_messages :: "u64 \<Rightarrow> log_record list \<Rightarrow> message list" where
  "number_messages offset [] = []"
| "number_messages offset (r # rs) = new_message offset r # number_messages (offset + 1) rs"

lemma length_number_messages [simp]: "length (number_messages offset rs) = length rs"
  by (induction rs arbitrary: offset) auto

lemma number_messages_nth:
  "i < length rs \<Longrightarrow> number_messages offset rs ! i = new_message (offset + word_of_nat i) (rs ! i)"
proof (induction rs arbitrary: offset i)
  case (Cons r rs)
  then show ?case by (cases i) (simp_all add: algebra_simps)
qed simp

text \<open>Writing log data and its index entries takes the representation to the longer list.\<close>

definition seg_grown :: "codec \<Rightarrow> segment \<Rightarrow> message list \<Rightarrow> u64 \<Rightarrow> segment" where
  "seg_grown cdc s new next =
     s\<lparr>seg_size := seg_size s + int (length (log_bytes cdc (seg_compressed s) new)),
       seg_nextOffset := next,
       seg_indexEntries := seg_indexEntries s + int (length new)\<rparr>"

lemma msgs_ok_append:
  assumes "msgs_ok cdc c base next ms" "msgs_ok cdc c next next' new"
  shows "msgs_ok cdc c base next' (ms @ new)"
  using assms unfolding msgs_ok_def sorted_wrt_append map_append
  by (fastforce intro: order.trans order.strict_trans2 less_le_trans)

lemma seg_repr_grown:
  assumes r: "seg_repr cdc d s ms"
    and d': "lookup_file d' = (lookup_file d)
      (log_name (seg_baseOffset s) \<mapsto> log_bytes cdc (seg_compressed s) (ms @ new),
       index_name (seg_baseOffset s) \<mapsto> index_bytes (index_from cdc (seg_compressed s) 0 (ms @ new)))"
    and ok: "msgs_ok cdc (seg_compressed s) (seg_nextOffset s) next new"
  shows "seg_repr cdc d' (seg_grown cdc s new next) (ms @ new)"
  using assms msgs_ok_append [OF _ ok]
  by (auto simp: seg_repr_def seg_grown_def seg_open_def seg_files_def log_bytes_append)

text \<open>
  Two writes to the two files of a segment, the second only after the first succeeded: what the
  files are afterwards.
\<close>

lemma write_pair_ok:
  assumes r: "seg_repr cdc d s ms"
    and w1: "writeAll (seg_logFile s) data d = (Inr (), d1)"
    and w2: "writeAll (seg_indexWrite s) entries d1 = (Inr (), d2)"
  shows "dir_step d d2 ((lookup_file d)
      (log_name (seg_baseOffset s) \<mapsto> log_bytes cdc (seg_compressed s) ms @ data,
       index_name (seg_baseOffset s) \<mapsto>
         index_bytes (index_from cdc (seg_compressed s) 0 ms) @ entries))"
proof -
  let ?L = "log_name (seg_baseOffset s)" and ?I = "index_name (seg_baseOffset s)"
  have h: "seg_logFile s = Some ?L" "seg_indexWrite s = Some ?I"
    and f: "lookup_file d ?L = Some (log_bytes cdc (seg_compressed s) ms)"
      "lookup_file d ?I = Some (index_bytes (index_from cdc (seg_compressed s) 0 ms))"
    using r by (auto simp: seg_repr_def seg_open_def seg_files_def)
  have s1: "dir_step d d1 ((lookup_file d)(?L \<mapsto> log_bytes cdc (seg_compressed s) ms @ data))"
    using writeAll_ok [OF w1, of "log_bytes cdc (seg_compressed s) ms"] h f by auto
  then have "lookup_file d1 ?I = Some (index_bytes (index_from cdc (seg_compressed s) 0 ms))"
    using f by (simp add: dir_step_def)
  then have "dir_step d1 d2 ((lookup_file d1)
      (?I \<mapsto> index_bytes (index_from cdc (seg_compressed s) 0 ms) @ entries))"
    using writeAll_ok [OF w2, of "index_bytes (index_from cdc (seg_compressed s) 0 ms)"] h by auto
  then show ?thesis using dir_step_trans [OF s1] dir_step_lookup [OF s1] by simp
qed

lemma writeAll_append:
  assumes "lookup_file d nm = Some old" "writeAll (Some nm) xs d = (Inr (), d1)"
    "writeAll (Some nm) ys d1 = (Inr (), d2)"
  shows "dir_step d d2 ((lookup_file d)(nm \<mapsto> old @ xs @ ys))"
proof -
  have s1: "dir_step d d1 ((lookup_file d)(nm \<mapsto> old @ xs))"
    using writeAll_ok [OF assms(2), of old] assms(1) by auto
  then have "lookup_file d1 nm = Some (old @ xs)" by (simp add: dir_step_def)
  then have "dir_step d1 d2 ((lookup_file d1)(nm \<mapsto> (old @ xs) @ ys))"
    using writeAll_ok [OF assms(3), of "old @ xs"] by auto
  then show ?thesis using dir_step_trans [OF s1] dir_step_lookup [OF s1] by simp
qed

text \<open>A successful \<open>Append\<close> passed every guard and all three writes.\<close>

lemma seg_Append_success:
  assumes a: "seg_Append cdc ts k v s d = (Inr (off, saved), s', d')"
  obtains p d1 d2 where "stored cdc (seg_compressed s) k v = Some p"
    and "length k < 2 ^ 32" "length v < 2 ^ 32"
    and "writeAll (seg_logFile s) (header_bytes (seg_nextOffset s) ts (length k) (length v)) d
          = (Inr (), d1)"
    and "writeAll (seg_logFile s) p d1 = (Inr (), d2)"
    and "writeAll (seg_indexWrite s) (entry_bytes (seg_nextOffset s) (uint64 (seg_size s))) d2
          = (Inr (), d')"
    and "off = seg_nextOffset s" "0 \<le> saved"
      "s' = s\<lparr>seg_size := seg_size s + int (messageHeaderSize + length p),
        seg_nextOffset := seg_nextOffset s + 1, seg_indexEntries := seg_indexEntries s + 1\<rparr>"
proof -
  have len: "\<not> length k > 2 ^ 32 - 1" "\<not> length v > 2 ^ 32 - 1"
    using a by (auto simp: seg_Append_def simp del: One_nat_def split: if_splits)
  then obtain p where p: "stored cdc (seg_compressed s) k v = Some p"
    using a by (cases "stored cdc (seg_compressed s) k v") (simp_all add: seg_Append_def)
  obtain r1 d1 where w1: "writeAll (seg_logFile s)
      (header_bytes (seg_nextOffset s) ts (length k) (length v)) d = (r1, d1)" by fastforce
  obtain r2 d2 where w2: "writeAll (seg_logFile s) p d1 = (r2, d2)" by fastforce
  obtain r3 d3 where w3: "writeAll (seg_indexWrite s)
      (entry_bytes (seg_nextOffset s) (uint64 (seg_size s))) d2 = (r3, d3)" by fastforce
  note eq = a [unfolded seg_Append_def Let_def p option.case w1 w2 w3 prod.case if_not_P [OF len(1)]
      if_not_P [OF len(2)]]
  have r: "r1 = Inr ()" "r2 = Inr ()" "r3 = Inr ()"
    using eq w2 w3 by (cases r1; cases r2; cases r3; simp)+
  show ?thesis
    by (rule that [OF p _ _ w1 [unfolded r] w2 [unfolded r]]) (use eq r len w3 in \<open>auto\<close>)
qed

lemma seg_Append_ok:
  assumes r: "seg_repr cdc d s ms"
    and a: "seg_Append cdc ts k v s d = (Inr (off, saved), s', d')"
    and room: "seg_nextOffset s < seg_nextOffset s + 1"
    and m: "m = \<lparr>msg_Offset = seg_nextOffset s, msg_Timestamp = ts, msg_Key = k, msg_Value = v\<rparr>"
  shows "off = seg_nextOffset s" and "0 \<le> saved"
    and "s' = seg_grown cdc s [m] (seg_nextOffset s + 1)"
    and "dir_step d d' ((lookup_file d)
      (log_name (seg_baseOffset s) \<mapsto> log_bytes cdc (seg_compressed s) (ms @ [m]),
       index_name (seg_baseOffset s) \<mapsto> index_bytes (index_from cdc (seg_compressed s) 0 (ms @ [m]))))"
    and "seg_repr cdc d' s' (ms @ [m])"
proof -
  let ?c = "seg_compressed s" and ?L = "log_name (seg_baseOffset s)"
  let ?I = "index_name (seg_baseOffset s)"
  let ?pos = "length (log_bytes cdc ?c ms)" and ?off = "seg_nextOffset s"
  obtain p d1 d2 where st: "stored cdc ?c k v = Some p"
    and len: "length k < 2 ^ 32" "length v < 2 ^ 32"
    and w1: "writeAll (seg_logFile s) (header_bytes ?off ts (length k) (length v)) d = (Inr (), d1)"
    and w2: "writeAll (seg_logFile s) p d1 = (Inr (), d2)"
    and w3: "writeAll (seg_indexWrite s) (entry_bytes ?off (uint64 (seg_size s))) d2 = (Inr (), d')"
    and res: "off = ?off" "0 \<le> saved"
      "s' = s\<lparr>seg_size := seg_size s + int (messageHeaderSize + length p),
        seg_nextOffset := seg_nextOffset s + 1, seg_indexEntries := seg_indexEntries s + 1\<rparr>"
    by (rule seg_Append_success [OF a])
  have h: "seg_logFile s = Some ?L" "seg_indexWrite s = Some ?I"
    and f: "lookup_file d ?L = Some (log_bytes cdc ?c ms)"
      "lookup_file d ?I = Some (index_bytes (index_from cdc ?c 0 ms))"
    and size: "seg_size s = int ?pos"
    using r by (auto simp: seg_repr_def seg_open_def seg_files_def)
  have rec: "header_bytes ?off ts (length k) (length v) @ p = log_bytes cdc ?c [m]"
    using st m by (simp add: log_bytes_def rec_bytes_def)
  have s1: "dir_step d d2 ((lookup_file d)(?L \<mapsto> log_bytes cdc ?c (ms @ [m])))"
    using writeAll_append [OF f(1) w1 [unfolded h] w2 [unfolded h]] rec by (simp add: log_bytes_append)
  then have "lookup_file d2 ?I = Some (index_bytes (index_from cdc ?c 0 ms))"
    using f by (simp add: dir_step_def)
  then have "dir_step d2 d' ((lookup_file d2)(?I \<mapsto> index_bytes (index_from cdc ?c 0 ms)
      @ entry_bytes ?off (uint64 (seg_size s))))"
    using writeAll_ok [OF w3, of "index_bytes (index_from cdc ?c 0 ms)"] h by auto
  then show d': "dir_step d d' ((lookup_file d)(?L \<mapsto> log_bytes cdc ?c (ms @ [m]),
       ?I \<mapsto> index_bytes (index_from cdc ?c 0 (ms @ [m]))))"
    using dir_step_trans [OF s1] dir_step_lookup [OF s1] m size
    by (simp add: index_from_append index_bytes_append) (simp add: index_bytes_def)
  show "off = ?off" "0 \<le> saved" using res by simp_all
  show grown: "s' = seg_grown cdc s [m] (seg_nextOffset s + 1)"
    using res st m by (simp add: seg_grown_def messageHeaderSize_def log_bytes_def length_rec_bytes)
  have "msgs_ok cdc ?c ?off (?off + 1) [m]"
    using st len m room by (simp add: msgs_ok_def msg_wf_def)
  then show "seg_repr cdc d' s' (ms @ [m])"
    unfolding grown by (rule seg_repr_grown [OF r dir_step_lookup [OF d']])
qed

text \<open>
  Whatever the schedule does, a write of a segment touches only its own two files, and a failed
  \<open>Append\<close> leaves the in-memory segment as it was.
\<close>

lemma touches_only_trans: "touches_only N d d1 \<Longrightarrow> touches_only N d1 d2 \<Longrightarrow> touches_only N d d2"
  by (simp add: touches_only_def)

lemma touches_only_refl [simp]: "touches_only N d d"
  by (simp add: touches_only_def)

lemma touches_only_mono: "touches_only N d d' \<Longrightarrow> N \<subseteq> M \<Longrightarrow> touches_only M d d'"
  by (auto simp: touches_only_def)

lemma dir_step_touches: "dir_step d d' m \<Longrightarrow> (\<And>nm. nm \<notin> N \<Longrightarrow> m nm = lookup_file d nm) \<Longrightarrow> touches_only N d d'"
  by (simp add: touches_only_def dir_step_def)

lemma os_write_missing:
  "lookup_file d nm = None \<Longrightarrow> os_write (Some nm) data d = ((n, err), d') \<Longrightarrow>
     err \<noteq> None \<and> dir_step d d' (lookup_file d)"
  by (auto simp: os_write_def dest!: next_event_step split: prod.splits option.splits
      simp: dir_step_def)

lemma writeAll_frame:
  assumes "writeAll h data d = (r, d')"
  shows "touches_only (set_option h) d d' \<and> subdirs d' = subdirs d \<and> (dir_wf d \<longrightarrow> dir_wf d')"
proof (cases h)
  case None
  then show ?thesis using assms by (auto simp: writeAll.simps [of None] os_write_def split: if_splits)
next
  case (Some nm)
  show ?thesis
  proof (cases "lookup_file d nm")
    case None
    obtain n err d1 where w: "os_write (Some nm) data d = ((n, err), d1)" by (metis prod.collapse)
    from os_write_missing [OF None w] show ?thesis
      using assms Some w
      by (auto simp: writeAll.simps [of "Some nm" data] touches_only_def dir_step_def split: if_splits)
  next
    case (Some old)
    from writeAll_prefix [OF assms [unfolded \<open>h = Some nm\<close>] Some] \<open>h = Some nm\<close> show ?thesis
      by (auto simp: touches_only_def dir_step_def)
  qed
qed

lemma seg_Append_cases:
  assumes "seg_Append cdc ts k v s d = (r, s', d')"
  obtains (err) e where "r = Inl e" "s' = s"
        "touches_only (set_option (seg_logFile s) \<union> set_option (seg_indexWrite s)) d d'"
        "subdirs d' = subdirs d" "dir_wf d \<Longrightarrow> dir_wf d'"
  | (ok) off saved where "r = Inr (off, saved)"
proof (cases r)
  case (Inr x)
  then show ?thesis using ok by (cases x) auto
next
  case (Inl e)
  let ?N = "set_option (seg_logFile s) \<union> set_option (seg_indexWrite s)"
  let ?P = "\<lambda>d'. touches_only ?N d d' \<and> subdirs d' = subdirs d \<and> (dir_wf d \<longrightarrow> dir_wf d')"
  have wr: "?P d1 \<Longrightarrow> writeAll h data d1 = (r, d2) \<Longrightarrow> set_option h \<subseteq> ?N \<Longrightarrow> ?P d2" for h data d1 r d2
    by (metis writeAll_frame touches_only_mono touches_only_trans)
  have "?P d' \<and> s' = s"
  proof (cases "stored cdc (seg_compressed s) k v")
    case None
    then show ?thesis using assms by (auto simp: seg_Append_def split: if_splits)
  next
    case (Some p)
    obtain r1 d1 where w1: "writeAll (seg_logFile s)
        (header_bytes (seg_nextOffset s) ts (length k) (length v)) d = (r1, d1)" by fastforce
    obtain r2 d2 where w2: "writeAll (seg_logFile s) p d1 = (r2, d2)" by fastforce
    obtain r3 d3 where w3: "writeAll (seg_indexWrite s)
        (entry_bytes (seg_nextOffset s) (uint64 (seg_size s))) d2 = (r3, d3)" by fastforce
    have P: "?P d" "?P d1" "?P d2" "?P d3"
      using wr [OF _ w1] wr [OF _ w2] wr [OF _ w3] by simp_all
    have "s' = s \<and> (d' = d \<or> d' = d1 \<or> d' = d2 \<or> d' = d3)"
      using assms [unfolded seg_Append_def Let_def Some option.case w1 prod.case] Inl w2 w3
      by (cases r1; cases r2; cases r3) (auto split: if_splits)
    then show ?thesis using P by blast
  qed
  then show ?thesis using err [OF Inl] by blast
qed

section \<open>AppendBatch\<close>

lemma prepare_batch_spec:
  assumes "prepare_batch cdc c rs = Inr ps"
  shows "batch_buffers (word_of_nat pos) off ps =
      (map msg_Offset (number_messages off rs), log_bytes cdc c (number_messages off rs),
       index_bytes (index_from cdc c pos (number_messages off rs)), off + word_of_nat (length rs))
    \<and> (\<forall>m \<in> set (number_messages off rs). msg_wf cdc c m)
    \<and> sum_list (map (\<lambda>p. messageHeaderSize + length (prep_payload p)) ps)
        = length (log_bytes cdc c (number_messages off rs))
    \<and> (\<forall>p \<in> set ps. 0 \<le> prep_bytesSaved p)"
  using assms
proof (induction rs arbitrary: ps pos off)
  case Nil
  then show ?case by (simp add: index_bytes_def)
next
  case (Cons r rs)
  have len: "\<not> length (rec_Key r) > 2 ^ 32 - 1" "\<not> length (rec_Value r) > 2 ^ 32 - 1"
    using Cons.prems by (auto split: if_splits)
  then obtain p where p: "stored cdc c (rec_Key r) (rec_Value r) = Some p"
    using Cons.prems by (cases "stored cdc c (rec_Key r) (rec_Value r)") simp_all
  with Cons.prems len obtain qs where q: "prepare_batch cdc c rs = Inr qs"
    by (cases "prepare_batch cdc c rs") (simp_all add: Let_def)
  have rb: "rec_bytes cdc c (new_message off r) =
      header_bytes off (rec_Timestamp r) (length (rec_Key r)) (length (rec_Value r)) @ p"
    using p by (simp add: rec_bytes_def)
  have wf: "msg_wf cdc c (new_message off r)" using len p by (simp add: msg_wf_def)
  have pos: "word_of_nat pos + word_of_nat (24 + length p) = (word_of_nat (pos + (24 + length p)) :: u64)"
    by simp
  note IH = Cons.IH [OF q, of "pos + (24 + length p)" "off + 1"]
  show ?case
    using Cons.prems len p q IH rb wf
    by (simp add: Let_def messageHeaderSize_def log_bytes_def index_bytes_def codec_simps pos
        del: of_nat_add) (auto simp: algebra_simps messageHeaderSize_def)
qed

lemma number_messages_ok:
  assumes "unat off + length rs < 2 ^ 64" "\<forall>m \<in> set (number_messages off rs). msg_wf cdc c m"
  shows "msgs_ok cdc c off (off + word_of_nat (length rs)) (number_messages off rs)"
proof -
  have u: "unat (off + word_of_nat i) = unat off + i" if "i \<le> length rs" for i
    using assms(1) that by (simp add: unat_word_ariths unat_of_nat)
  have "sorted_wrt (<) (map msg_Offset (number_messages off rs))"
    by (auto simp: sorted_wrt_iff_nth_less number_messages_nth word_less_nat_alt u)
  moreover have "off \<le> msg_Offset m \<and> msg_Offset m < off + word_of_nat (length rs)"
    if "m \<in> set (number_messages off rs)" for m
    using that by (auto simp: in_set_conv_nth number_messages_nth word_less_nat_alt word_le_nat_alt u)
  moreover have "off \<le> off + word_of_nat (length rs)" by (simp add: word_le_nat_alt u)
  ultimately show ?thesis using assms(2) by (simp add: msgs_ok_def)
qed

lemma seg_AppendBatch_ok:
  assumes r: "seg_repr cdc d s ms"
    and a: "seg_AppendBatch cdc rs s d = (Inr (offs, saved), s', d')"
    and room: "unat (seg_nextOffset s) + length rs < 2 ^ 64" and ne: "rs \<noteq> []"
    and new: "new = number_messages (seg_nextOffset s) rs"
  shows "offs = map msg_Offset new" and "0 \<le> saved"
    and "s' = seg_grown cdc s new (seg_nextOffset s + word_of_nat (length rs))"
    and "dir_step d d' ((lookup_file d)
      (log_name (seg_baseOffset s) \<mapsto> log_bytes cdc (seg_compressed s) (ms @ new),
       index_name (seg_baseOffset s) \<mapsto> index_bytes (index_from cdc (seg_compressed s) 0 (ms @ new))))"
    and "seg_repr cdc d' s' (ms @ new)"
proof -
  let ?c = "seg_compressed s" and ?off = "seg_nextOffset s"
  let ?pos = "length (log_bytes cdc ?c ms)"
  have size: "uint64 (seg_size s) = word_of_nat ?pos" using r by (simp add: seg_repr_def)
  obtain ps where ps: "prepare_batch cdc ?c rs = Inr ps"
    using a ne by (cases "prepare_batch cdc ?c rs") (simp_all add: seg_AppendBatch_def)
  note sp = prepare_batch_spec [OF ps, of ?pos ?off, folded new]
  obtain r1 d1 where w1: "writeAll (seg_logFile s) (log_bytes cdc ?c new) d = (r1, d1)" by fastforce
  obtain r2 d2 where w2: "writeAll (seg_indexWrite s) (index_bytes (index_from cdc ?c ?pos new)) d1
      = (r2, d2)" by fastforce
  have eq: "r1 = Inr () \<and> r2 = Inr () \<and> d' = d2 \<and> offs = map msg_Offset new
      \<and> saved = sum_list (map prep_bytesSaved ps)
      \<and> s' = seg_grown cdc s new (?off + word_of_nat (length rs))"
    using a sp w1 w2 ne ps new unfolding seg_AppendBatch_def
    by (cases r1; cases r2) (auto simp: seg_grown_def size)
  have st: "dir_step d d' ((lookup_file d)
      (log_name (seg_baseOffset s) \<mapsto> log_bytes cdc ?c (ms @ new),
       index_name (seg_baseOffset s) \<mapsto> index_bytes (index_from cdc ?c 0 (ms @ new))))"
    using write_pair_ok [OF r, of "log_bytes cdc ?c new" d1] w1 w2 eq
    by (simp add: log_bytes_append index_from_append index_bytes_append)
  show "offs = map msg_Offset new"
    "s' = seg_grown cdc s new (?off + word_of_nat (length rs))" using eq by simp_all
  show "0 \<le> saved" using eq sp by (auto intro!: sum_list_nonneg)
  show "dir_step d d' ((lookup_file d)
      (log_name (seg_baseOffset s) \<mapsto> log_bytes cdc ?c (ms @ new),
       index_name (seg_baseOffset s) \<mapsto> index_bytes (index_from cdc ?c 0 (ms @ new))))"
    by (rule st)
  have "msgs_ok cdc ?c ?off (?off + word_of_nat (length rs)) new"
    unfolding new by (rule number_messages_ok [OF room]) (use sp new in auto)
  then show "seg_repr cdc d' s' (ms @ new)"
    using eq seg_repr_grown [OF r dir_step_lookup [OF st]] by simp
qed

end
