(* ===== verification/SegmentLife.thy ===== *)
theory SegmentLife
  imports SegmentStore
begin

text \<open>
  Opening, closing and deleting a segment: \<open>NewSegment\<close> recovers from the two files exactly the
  segment that wrote them, creates an empty one where there are none, and never changes what a
  file already holds; \<open>Close\<close> and \<open>Delete\<close>; the newest timestamp.
\<close>

section \<open>Closing files\<close>

lemma os_calls_step: "os_calls n d = (errs, d') \<Longrightarrow> dir_step d d' (lookup_file d)"
proof (induction n arbitrary: d errs d')
  case 0
  then show ?case by simp
next
  case (Suc n)
  obtain r d1 where c: "os_call d = (r, d1)" by fastforce
  obtain es d2 where cs: "os_calls n d1 = (es, d2)" by fastforce
  have "d' = d2" using Suc.prems c cs by simp
  then show ?case
    using dir_step_trans [OF os_call_step [OF c] Suc.IH [OF cs]] os_call_step [OF c]
    by (simp add: dir_step_def)
qed

lemma seg_Close_step:
  assumes "seg_Close s d = (r, s', d')"
  shows "s' = seg_nil_handles s" and "dir_step d d' (lookup_file d)"
proof -
  obtain n errs d1 where c: "os_calls n d = (errs, d1)" and e: "s' = seg_nil_handles s" "d' = d1"
    using assms unfolding seg_Close_def Let_def by (auto split: prod.splits)
  show "s' = seg_nil_handles s" by (rule e)
  show "dir_step d d' (lookup_file d)" using os_calls_step [OF c] e by simp
qed

section \<open>NewSegment\<close>

definition content :: "directory \<Rightarrow> string \<Rightarrow> bytes" where
  "content d nm = (case lookup_file d nm of None \<Rightarrow> [] | Some bs \<Rightarrow> bs)"

lemma open_append_content:
  assumes "open_append nm d = (Inr h, d')"
  shows "h = nm \<and> dir_step d d' ((lookup_file d)(nm \<mapsto> content d nm))"
  using open_append_step [OF assms]
  by (cases "lookup_file d nm") (auto simp: content_def fun_upd_idem)

lemma open_files_ok:
  assumes "open_files base d = (Inr hs, d')"
  shows "hs = (log_name base, log_name base, index_name base, index_name base)"
    and "dir_step d d' ((lookup_file d)(log_name base \<mapsto> content d (log_name base),
           index_name base \<mapsto> content d (index_name base)))"
proof -
  obtain r0 d0 where c0: "os_call d = (r0, d0)" by fastforce
  obtain r1 d1 where c1: "open_append (log_name base) d0 = (r1, d1)" by fastforce
  obtain r2 d2 where c2: "open_read (log_name base) d1 = (r2, d2)" by fastforce
  obtain r3 d3 where c3: "open_append (index_name base) d2 = (r3, d3)" by fastforce
  obtain r4 d4 where c4: "open_read (index_name base) d3 = (r4, d4)" by fastforce
  from assms obtain h1 h2 h3 h4 where r: "r1 = Inr h1" "r2 = Inr h2" "r3 = Inr h3" "r4 = Inr h4"
    "d' = d4" "hs = (h1, h2, h3, h4)"
    by (auto simp: open_files_def c0 c1 c2 c3 c4 split: sum.splits)
  note s = os_call_step [OF c0] open_append_content [OF c1 [unfolded r]] open_read_step [OF c2]
    open_append_content [OF c3 [unfolded r]] open_read_step [OF c4]
  show "hs = (log_name base, log_name base, index_name base, index_name base)"
    using s r by auto
  show "dir_step d d' ((lookup_file d)(log_name base \<mapsto> content d (log_name base),
           index_name base \<mapsto> content d (index_name base)))"
    using s r by (auto simp: dir_step_def content_def)
qed

definition keeps_contents :: "directory \<Rightarrow> directory \<Rightarrow> bool" where
  "keeps_contents d d' \<longleftrightarrow> lookup_file d \<subseteq>\<^sub>m lookup_file d'"

lemma keeps_contents_trans: "keeps_contents d d1 \<Longrightarrow> keeps_contents d1 d2 \<Longrightarrow> keeps_contents d d2"
  unfolding keeps_contents_def by (rule map_le_trans)

lemma open_append_frame:
  "open_append nm d = (r, d') \<Longrightarrow> touches_only {nm} d d' \<and> keeps_contents d d'
     \<and> subdirs d' = subdirs d \<and> (dir_wf d \<longrightarrow> dir_wf d')"
  by (auto dest!: open_append_step simp: dir_step_def touches_only_def keeps_contents_def map_le_def
      split: sum.splits option.splits)

lemma same_files_frame:
  "dir_step d d' (lookup_file d) \<Longrightarrow> touches_only N d d' \<and> keeps_contents d d'
     \<and> subdirs d' = subdirs d \<and> (dir_wf d \<longrightarrow> dir_wf d')"
  by (auto simp: dir_step_def touches_only_def keeps_contents_def)

lemma open_files_frame:
  assumes "open_files base d = (r, d')"
  shows "touches_only {log_name base, index_name base} d d' \<and> keeps_contents d d'
     \<and> subdirs d' = subdirs d \<and> (dir_wf d \<longrightarrow> dir_wf d')"
proof -
  let ?N = "{log_name base, index_name base}"
  let ?P = "\<lambda>d'. touches_only ?N d d' \<and> keeps_contents d d' \<and> subdirs d' = subdirs d
      \<and> (dir_wf d \<longrightarrow> dir_wf d')"
  obtain r0 d0 where c0: "os_call d = (r0, d0)" by fastforce
  obtain r1 d1 where c1: "open_append (log_name base) d0 = (r1, d1)" by fastforce
  obtain r2 d2 where c2: "open_read (log_name base) d1 = (r2, d2)" by fastforce
  obtain r3 d3 where c3: "open_append (index_name base) d2 = (r3, d3)" by fastforce
  obtain r4 d4 where c4: "open_read (index_name base) d3 = (r4, d4)" by fastforce
  have tr: "?P a \<Longrightarrow> touches_only {nm} a b \<and> keeps_contents a b \<and> subdirs b = subdirs a
      \<and> (dir_wf a \<longrightarrow> dir_wf b) \<Longrightarrow> nm \<in> ?N \<Longrightarrow> ?P b" for a b nm
    by (auto intro: keeps_contents_trans touches_only_trans touches_only_mono)
  have P0: "?P d0" using same_files_frame [OF os_call_step [OF c0]] by blast
  have P1: "?P d1" by (rule tr [OF P0 open_append_frame [OF c1]]) simp
  have P2: "?P d2"
    by (rule tr [OF P1, of "log_name base"]) (use same_files_frame open_read_step [OF c2] in blast, simp)
  have P3: "?P d3" by (rule tr [OF P2 open_append_frame [OF c3]]) simp
  have P4: "?P d4"
    by (rule tr [OF P3, of "log_name base"]) (use same_files_frame open_read_step [OF c4] in blast, simp)
  have close: "?P (snd (os_calls n a))" if "?P a" for n a
    by (rule tr [OF that, of "log_name base"])
      (use same_files_frame os_calls_step [of n a, OF prod.collapse [symmetric]] in blast, simp)
  have "d' \<in> {d0, d1, snd (os_calls 1 d2), snd (os_calls 2 d3), snd (os_calls 3 d4), d4}"
    using assms by (auto simp: open_files_def c0 c1 c2 c3 c4 split: sum.splits)
  then show ?thesis using P0 P1 P4 close [OF P2] close [OF P3] close [OF P4] by blast
qed

lemma check_files_step:
  assumes "check_files base hs d = (r, d')" shows "dir_step d d' (lookup_file d)"
proof -
  have "dir_step d (snd (snd (seg_Close s d))) (lookup_file d)" for s
    using seg_Close_step(2) by (metis prod.collapse)
  moreover have "dir_step d (snd (os_calls n d)) (lookup_file d)" for n
    using os_calls_step by (metis prod.collapse)
  ultimately show ?thesis
    using assms by (auto simp: check_files_def Let_def split: sum.splits if_splits)
qed

lemma NewSegment_frame:
  assumes "NewSegment base d = (r, d')"
  shows "touches_only {log_name base, index_name base} d d'" and "keeps_contents d d'"
    and "subdirs d' = subdirs d" and "dir_wf d \<Longrightarrow> dir_wf d'"
proof -
  obtain r0 d0 where o: "open_files base d = (r0, d0)" by fastforce
  have "d' = d0 \<or> (\<exists>hs. check_files base hs d0 = (r, d'))"
    using assms o by (auto simp: NewSegment_def split: sum.splits)
  then have "dir_step d0 d' (lookup_file d0)" using check_files_step by auto
  note f = same_files_frame [OF this, of "{log_name base, index_name base}"]
  show "touches_only {log_name base, index_name base} d d'" "keeps_contents d d'"
    "subdirs d' = subdirs d" "dir_wf d \<Longrightarrow> dir_wf d'"
    using open_files_frame [OF o] f by (blast intro: touches_only_trans keeps_contents_trans | simp)+
qed

text \<open>The checks accept the files of any representable segment and recover its counters.\<close>

definition next_after :: "u64 \<Rightarrow> message list \<Rightarrow> u64" where
  "next_after base ms = (if ms = [] then base else msg_Offset (last ms) + 1)"

definition opened :: "codec \<Rightarrow> bool \<Rightarrow> u64 \<Rightarrow> message list \<Rightarrow> segment" where
  "opened cdc c base ms =
     \<lparr>seg_baseOffset = base, seg_nextOffset = next_after base ms,
      seg_size = int (length (log_bytes cdc c ms)), seg_indexEntries = int (length ms),
      seg_compressed = False, seg_logFile = Some (log_name base), seg_logRead = Some (log_name base),
      seg_indexWrite = Some (index_name base), seg_indexRead = Some (index_name base)\<rparr>"

lemma check_files_ok:
  assumes "seg_files cdc c base d ms"
  shows "check_files base (log_name base, log_name base, index_name base, index_name base) d
    = (Inr (opened cdc c base ms), d)"
proof -
  let ?tbl = "index_from cdc c 0 ms" and ?n = "int (length ms)"
  have f: "lookup_file d (log_name base) = Some (log_bytes cdc c ms)"
    "lookup_file d (index_name base) = Some (index_bytes ?tbl)"
    using assms by (auto simp: seg_files_def)
  let ?s = "seg_init base (int (length (log_bytes cdc c ms))) ?n
      (log_name base, log_name base, index_name base, index_name base)"
  have rd: "readIndexOffset ?s d ((?n - 1) * 16) = Inr (msg_Offset (last ms))" if "ms \<noteq> []"
  proof -
    have "readIndexEntry ?s d ((?n - 1) * 16) = Inr (?tbl ! nat (?n - 1))"
      by (rule readIndexEntry_table [where x = "[]", simplified, OF _ f(2)]) (use that in \<open>auto simp: seg_init_def Suc_le_eq\<close>)
    moreover have "nat (?n - 1) = length ms - 1" by simp
    ultimately show ?thesis
      using that by (simp add: readIndexOffset_def index_from_nth last_conv_nth)
  qed
  have div: "int (16 * length ms) div 16 = ?n" "int (16 * length ms) mod 16 = 0" by simp_all
  show ?thesis
  proof (cases "ms = []")
    case True
    then show ?thesis
      by (simp add: check_files_def stat_size_def f index_bytes_def opened_def next_after_def
          seg_init_def indexEntrySize_def)
  next
    case False
    then show ?thesis
      using rd by (simp add: check_files_def stat_size_def f length_index_bytes indexEntrySize_def
          opened_def next_after_def Let_def) (simp add: seg_init_def)
  qed
qed

lemma seg_files_content:
  assumes "dir_step d d' ((lookup_file d)(log_name base \<mapsto> content d (log_name base),
           index_name base \<mapsto> content d (index_name base)))"
    and "seg_files cdc c base d ms \<or>
      ms = [] \<and> lookup_file d (log_name base) = None \<and> lookup_file d (index_name base) = None"
  shows "seg_files cdc c base d' ms"
  using assms by (auto simp: seg_files_def dir_step_def content_def index_bytes_def)

lemma opened_repr:
  assumes "seg_files cdc c base d ms" "msgs_ok cdc c base next ms" "ms \<noteq> [] \<Longrightarrow> msg_Offset (last ms) \<noteq> -1"
  shows "seg_repr cdc d (seg_SetCompressed c (opened cdc c base ms)) ms"
proof -
  have "msg_Offset m < next_after base ms" if m: "m \<in> set ms" for m
  proof -
    have ne: "ms \<noteq> []" using m by auto
    have "msg_Offset m \<le> msg_Offset (last ms)"
    proof -
      obtain i where i: "i < length ms" "m = ms ! i" using m by (auto simp: in_set_conv_nth)
      have "sorted_wrt (<) (map msg_Offset ms)" using assms(2) by (simp add: msgs_ok_def)
      from sorted_wrt_nth_less [OF this, of i "length ms - 1"] i ne show ?thesis
        by (cases "i = length ms - 1") (auto simp: last_conv_nth intro: less_imp_le)
    qed
    also have "\<dots> < next_after base ms"
      using ne assms(3) word_less_succ by (simp add: next_after_def)
    finally show ?thesis .
  qed
  moreover have "base \<le> next_after base ms"
  proof (cases "ms = []")
    case False
    then have "last ms \<in> set ms" by simp
    then have "base \<le> msg_Offset (last ms)" "msg_Offset (last ms) < next_after base ms"
      using assms(2) calculation by (auto simp: msgs_ok_def)
    then show ?thesis by (simp add: order.trans less_imp_le)
  qed (simp add: next_after_def)
  ultimately show ?thesis
    using assms(1,2) by (simp add: seg_repr_def opened_def seg_SetCompressed_def seg_open_def msgs_ok_def)
qed

text \<open>Opening a directory that holds a segment's files, or none of that name.\<close>

lemma NewSegment_result:
  assumes n: "NewSegment base d = (Inr s, d')"
    and f: "seg_files cdc c base d ms \<or>
      ms = [] \<and> lookup_file d (log_name base) = None \<and> lookup_file d (index_name base) = None"
  shows "s = opened cdc c base ms" and "seg_files cdc c base d' ms"
    and "dir_step d d' ((lookup_file d)(log_name base \<mapsto> log_bytes cdc c ms,
           index_name base \<mapsto> index_bytes (index_from cdc c 0 ms)))"
proof -
  obtain hs d1 where o: "open_files base d = (Inr hs, d1)" and c: "check_files base hs d1 = (Inr s, d')"
    using n by (auto simp: NewSegment_def split: prod.splits sum.splits)
  note ok = open_files_ok [OF o]
  have sf: "seg_files cdc c base d1 ms" by (rule seg_files_content [OF ok(2) f])
  have d1: "d1 = d'" "s = opened cdc c base ms" using c check_files_ok [OF sf] ok(1) by simp_all
  show "s = opened cdc c base ms" by (rule d1)
  show "seg_files cdc c base d' ms" using sf d1 by simp
  show "dir_step d d' ((lookup_file d)(log_name base \<mapsto> log_bytes cdc c ms,
           index_name base \<mapsto> index_bytes (index_from cdc c 0 ms)))"
    using ok(2) f d1 by (auto simp: seg_files_def content_def index_bytes_def)
qed

text \<open>With an idle schedule \<open>NewSegment\<close> does return.\<close>

lemma open_append_idle:
  "sched d = [] \<Longrightarrow> nm \<notin> set (subdirs d) \<Longrightarrow>
     open_append nm d = (Inr nm, case lookup_file d nm of None \<Rightarrow> set_file nm [] d | Some _ \<Rightarrow> d)"
  by (simp add: open_append_def)

lemma open_read_idle: "sched d = [] \<Longrightarrow> lookup_file d nm \<noteq> None \<Longrightarrow> open_read nm d = (Inr nm, d)"
  by (auto simp: open_read_def)

lemma open_files_idle:
  assumes "sched d = []" "log_name base \<notin> set (subdirs d)" "index_name base \<notin> set (subdirs d)"
  shows "\<exists>d'. open_files base d
      = (Inr (log_name base, log_name base, index_name base, index_name base), d') \<and> sched d' = []"
  using assms
  by (cases "lookup_file d (log_name base)"; cases "lookup_file d (index_name base)")
    (simp_all add: open_files_def open_append_idle open_read_idle)

lemma NewSegment_idle:
  assumes "sched d = []" "log_name base \<notin> set (subdirs d)" "index_name base \<notin> set (subdirs d)"
    and f: "seg_files cdc c base d ms \<or>
      ms = [] \<and> lookup_file d (log_name base) = None \<and> lookup_file d (index_name base) = None"
  shows "\<exists>d'. NewSegment base d = (Inr (opened cdc c base ms), d') \<and> sched d' = []"
proof -
  obtain d' where o: "open_files base d
      = (Inr (log_name base, log_name base, index_name base, index_name base), d')" "sched d' = []"
    using open_files_idle [OF assms(1-3)] by blast
  have "seg_files cdc c base d' ms"
    by (rule seg_files_content [OF open_files_ok(2) [OF o(1)] f])
  then show ?thesis using o check_files_ok by (simp add: NewSegment_def)
qed

section \<open>Close and Delete\<close>

lemma os_calls_idle: "sched d = [] \<Longrightarrow> os_calls n d = ([], d)"
  by (induction n) auto

lemma seg_Close_idle: "sched d = [] \<Longrightarrow> seg_Close s d = (Inr (), seg_nil_handles s, d)"
  by (simp add: seg_Close_def os_calls_idle Let_def)

lemma seg_Close_closed:
  "seg_Close (seg_nil_handles s) d = (Inr (), seg_nil_handles s, d)"
  by (simp add: seg_Close_def seg_nil_handles_def Let_def)

lemma remove_if_exists_step:
  assumes "remove_if_exists nm d = (r, d')"
  shows "dir_step d d' (case r of Inr _ \<Rightarrow> (lookup_file d)(nm := None) | Inl _ \<Rightarrow> lookup_file d)"
proof -
  obtain r0 d0 where c: "os_remove nm d = (r0, d0)" by fastforce
  show ?thesis
    using assms os_remove_step [OF c]
    by (auto simp: remove_if_exists_def c fun_upd_idem split: if_splits sum.splits)
qed

lemma seg_Delete_step:
  assumes "seg_Delete s d = (r, s', d')"
  shows "s' = seg_nil_handles s" and "touches_only (seg_names s) d d'"
    and "subdirs d' = subdirs d" and "dir_wf d \<Longrightarrow> dir_wf d'"
    and "r = Inr () \<Longrightarrow> lookup_file d' =
      (lookup_file d)(log_name (seg_baseOffset s) := None, index_name (seg_baseOffset s) := None)"
proof -
  obtain r0 s0 d0 where c0: "seg_Close s d = (r0, s0, d0)" by (metis prod.collapse)
  obtain r1 d1 where c1: "remove_if_exists (log_name (seg_baseOffset s)) d0 = (r1, d1)" by fastforce
  obtain r2 d2 where c2: "remove_if_exists (index_name (seg_baseOffset s)) d1 = (r2, d2)" by fastforce
  note st = seg_Close_step [OF c0] remove_if_exists_step [OF c1] remove_if_exists_step [OF c2]
  have cs: "s' = s0 \<and> (r0 \<noteq> Inr () \<and> d' = d0 \<and> r \<noteq> Inr () \<or> r1 \<noteq> Inr () \<and> d' = d1 \<and> r \<noteq> Inr ()
      \<or> r0 = Inr () \<and> r1 = Inr () \<and> d' = d2 \<and> r = r2)"
    using assms by (cases r0; cases r1) (auto simp: seg_Delete_def c0 c1 c2)
  show "s' = seg_nil_handles s" using cs st by simp
  show "touches_only (seg_names s) d d'" "subdirs d' = subdirs d" "dir_wf d \<Longrightarrow> dir_wf d'"
    using cs st by (auto simp: dir_step_def touches_only_def split: sum.splits)
  show "lookup_file d' =
      (lookup_file d)(log_name (seg_baseOffset s) := None, index_name (seg_baseOffset s) := None)"
    if "r = Inr ()"
    using cs st that by (auto simp: dir_step_def)
qed

section \<open>NewestTimestamp\<close>

lemma NewestTimestamp_last:
  assumes r: "seg_repr cdc d s ms" and wf: "dir_wf d" and ne: "ms \<noteq> []"
  shows "NewestTimestamp s d = Inr (msg_Timestamp (last ms))"
proof -
  let ?c = "seg_compressed s" and ?k = "length ms - 1"
  let ?p = "length (log_bytes cdc ?c (take ?k ms))"
  have k: "?k < length ms" using ne by simp
  have f: "lookup_file d (log_name (seg_baseOffset s)) = Some (log_bytes cdc ?c ms)"
    and h: "seg_logRead s = Some (log_name (seg_baseOffset s))"
    and n: "seg_indexEntries s = int (length ms)"
    and lt: "seg_baseOffset s < seg_nextOffset s"
    using r ne by (auto simp: seg_repr_def seg_files_def seg_open_def msgs_ok_def
        dest!: bspec [OF _ last_in_set])
  have p: "?p < 2 ^ 63"
    using length_log_bytes_take [of cdc ?c ?k ms] seg_repr_size [OF r wf]
    by (intro max_file_size_less) simp
  have idx: "readIndexPosition s d ((int (length ms) - 1) * 16) = Inr (word_of_nat ?p)"
  proof -
    have eq: "int (length ms) - 1 = int ?k" using ne by (simp add: of_nat_diff Suc_le_eq)
    have "readIndexEntry s d (int ?k * 16) = Inr (index_from cdc ?c 0 ms ! ?k)"
      by (rule readIndexEntry_nat [OF seg_repr_index [OF r wf]]) (use k in simp)
    then show ?thesis unfolding readIndexPosition_def eq using ne by (simp add: index_from_nth)
  qed
  have hd: "read_at (seg_logRead s) 24 (int ?p) d = Inr (header_bytes (msg_Offset (ms ! ?k))
      (msg_Timestamp (ms ! ?k)) (length (msg_Key (ms ! ?k))) (length (msg_Value (ms ! ?k))))"
    using read_at_record [OF f k, of 0 24] by (simp add: h length_rec_bytes rec_bytes_def codec_simps)
  show ?thesis
    using lt n ne idx hd int64_small [OF p]
    by (simp add: NewestTimestamp_def indexEntrySize_def messageHeaderSize_def
        header_decode last_conv_nth not_le)
qed

end
