(* ===== verification/CommitLog.thy ===== *)
theory CommitLog
  imports SegmentLife
begin

text \<open>
  \<open>src/internal/log/log.go\<close>: the ordered collection of segments of one partition, translated
  operation by operation. Every exported method runs under the log's mutex, so each is one
  atomic function from the log and its directory to the result, the log and the directory.
  Slices of segment pointers are lists; the active segment is the last element. The
  compression-saved callback is recorded as the list of values it was called with.
\<close>

section \<open>Data\<close>

definition DefaultMaxSegmentSize :: u64 where
  "DefaultMaxSegmentSize = 1024 * 1024 * 1024"

record log =
  log_maxSegmentSize :: u64
  log_segments :: "segment list"
  log_compressed :: bool
  log_observer :: bool
  log_observed :: "u64 list"

section \<open>Opening\<close>

definition stat_exists :: "string \<Rightarrow> directory \<Rightarrow> bool" where
  "stat_exists name d \<longleftrightarrow> lookup_file d name \<noteq> None \<or> name \<in> set (subdirs d)"

fun scan_entries :: "(string \<times> bool) list \<Rightarrow> directory \<Rightarrow> u64 list res" where
  "scan_entries [] d = Inr []"
| "scan_entries ((name, isDir) # es) d =
     (if isDir then scan_entries es d
      else case segmentBaseOffset name of
             None \<Rightarrow> scan_entries es d
           | Some offset \<Rightarrow>
               if \<not> stat_exists (index_name offset) d
               then Inl (OffsetErr ''missing index file for segment'' offset)
               else case scan_entries es d of Inl e \<Rightarrow> Inl e | Inr offs \<Rightarrow> Inr (offset # offs))"

text \<open>The loop of \<open>Close\<close>: every segment is closed, the first error is kept.\<close>

fun close_segments :: "segment list \<Rightarrow> directory \<Rightarrow> unit res \<times> segment list \<times> directory" where
  "close_segments [] d = (Inr (), [], d)"
| "close_segments (s # ss) d =
     (case seg_Close s d of (r, s', d1) \<Rightarrow>
      case close_segments ss d1 of (r', ss', d2) \<Rightarrow>
        ((case r of Inl e \<Rightarrow> Inl e | Inr _ \<Rightarrow> r'), s' # ss', d2))"

text \<open>Opening the segments in turn; when one fails, those opened before are closed.\<close>

fun open_segments :: "bool \<Rightarrow> segment list \<Rightarrow> u64 list \<Rightarrow> directory \<Rightarrow> segment list res \<times> directory" where
  "open_segments c segs [] d = (Inr segs, d)"
| "open_segments c segs (offset # offs) d =
     (case NewSegment offset d of
        (Inl e, d1) \<Rightarrow> (Inl e, snd (snd (close_segments segs d1)))
      | (Inr s, d1) \<Rightarrow> open_segments c (segs @ [seg_SetCompressed c s]) offs d1)"

text \<open>The last loop of \<open>NewLog\<close>: \<open>segments[i].nextOffset = segments[i+1].baseOffset\<close>.\<close>

fun chain_next :: "segment list \<Rightarrow> segment list" where
  "chain_next (s # t # ss) = s\<lparr>seg_nextOffset := seg_baseOffset t\<rparr> # chain_next (t # ss)"
| "chain_next ss = ss"

definition NewLog :: "u64 list \<Rightarrow> directory \<Rightarrow> log res \<times> directory" where
  "NewLog maxSegmentSize d =
     (if length maxSegmentSize > 1
      then (Inl (Msg ''at most one max segment size may be provided''), d)
      else if length maxSegmentSize = 1 \<and> hd maxSegmentSize = 0
      then (Inl (Msg ''max segment size must be greater than zero''), d)
      else
        let segmentSize = (if length maxSegmentSize = 1 then hd maxSegmentSize
                           else DefaultMaxSegmentSize)
        in case os_call d of (Inl e, d0) \<Rightarrow> (Inl e, d0) | (Inr _, d0) \<Rightarrow>
           case scan_entries (read_dir d0) d0 of Inl e \<Rightarrow> (Inl e, d0) | Inr offsets \<Rightarrow>
           case open_segments False [] (sort offsets) d0 of (Inl e, d1) \<Rightarrow> (Inl e, d1) | (Inr segs, d1) \<Rightarrow>
           case (if segs = []
                 then (case NewSegment 0 d1 of (Inl e, d2) \<Rightarrow> (Inl e, d2) | (Inr s, d2) \<Rightarrow> (Inr [s], d2))
                 else (Inr segs, d1)) of
             (Inl e, d2) \<Rightarrow> (Inl e, d2)
           | (Inr segs', d2) \<Rightarrow>
               (Inr \<lparr>log_maxSegmentSize = segmentSize, log_segments = chain_next segs',
                     log_compressed = False, log_observer = False, log_observed = []\<rparr>, d2))"

definition log_SetCompressed :: "bool \<Rightarrow> log \<Rightarrow> log" where
  "log_SetCompressed c l =
     l\<lparr>log_compressed := c, log_segments := map (seg_SetCompressed c) (log_segments l)\<rparr>"

definition SetCompressionSavedObserver :: "bool \<Rightarrow> log \<Rightarrow> log" where
  "SetCompressionSavedObserver observer l = l\<lparr>log_observer := observer\<rparr>"

section \<open>Appending\<close>

definition set_active :: "segment \<Rightarrow> log \<Rightarrow> log" where
  "set_active s l = l\<lparr>log_segments := butlast (log_segments l) @ [s]\<rparr>"

definition notify_saved :: "int \<Rightarrow> log \<Rightarrow> log" where
  "notify_saved bytesSaved l =
     (if bytesSaved > 0 \<and> log_observer l
      then l\<lparr>log_observed := log_observed l @ [uint64 bytesSaved]\<rparr> else l)"

text \<open>Rolling over: a new segment once the active one has reached the maximum size.\<close>

definition roll :: "u64 \<Rightarrow> log \<Rightarrow> directory \<Rightarrow> unit res \<times> log \<times> directory" where
  "roll base l d =
     (if uint64 (seg_Size (last (log_segments l))) \<ge> log_maxSegmentSize l
      then (case NewSegment base d of
              (Inl e, d') \<Rightarrow> (Inl e, l, d')
            | (Inr s, d') \<Rightarrow>
                (Inr (), l\<lparr>log_segments := log_segments l @ [seg_SetCompressed (log_compressed l) s]\<rparr>, d'))
      else (Inr (), l, d))"

definition appendLocked ::
  "codec \<Rightarrow> i64 \<Rightarrow> bytes \<Rightarrow> bytes \<Rightarrow> log \<Rightarrow> directory \<Rightarrow> u64 res \<times> log \<times> directory" where
  "appendLocked cdc timestamp key val l d =
     (if log_segments l = [] then (Inl (Msg ''log has no segments''), l, d)
      else case seg_Append cdc timestamp key val (last (log_segments l)) d of
        (Inl e, s', d1) \<Rightarrow> (Inl e, set_active s' l, d1)
      | (Inr (offset, bytesSaved), s', d1) \<Rightarrow>
          (case roll (offset + 1) (notify_saved bytesSaved (set_active s' l)) d1 of
             (Inl e, l', d2) \<Rightarrow> (Inl e, l', d2)
           | (Inr _, l', d2) \<Rightarrow> (Inr offset, l', d2)))"

definition log_Append ::
  "codec \<Rightarrow> i64 \<Rightarrow> bytes \<Rightarrow> bytes \<Rightarrow> log \<Rightarrow> directory \<Rightarrow> u64 res \<times> log \<times> directory" where
  "log_Append cdc timestamp key val l d = appendLocked cdc timestamp key val l d"

text \<open>
  \<open>AppendBatch\<close> returns the offsets and the error; when rolling over fails it returns both.
\<close>

definition log_AppendBatch ::
  "codec \<Rightarrow> log_record list \<Rightarrow> log \<Rightarrow> directory \<Rightarrow> (u64 list \<times> error option) \<times> log \<times> directory" where
  "log_AppendBatch cdc records l d =
     (if records = [] then (([], None), l, d)
      else if log_segments l = [] then (([], Some (Msg ''log has no segments'')), l, d)
      else case seg_AppendBatch cdc records (last (log_segments l)) d of
        (Inl e, s', d1) \<Rightarrow> (([], Some e), set_active s' l, d1)
      | (Inr (offsets, bytesSaved), s', d1) \<Rightarrow>
          (case roll (last offsets + 1) (notify_saved bytesSaved (set_active s' l)) d1 of
             (Inl e, l', d2) \<Rightarrow> ((offsets, Some e), l', d2)
           | (Inr _, l', d2) \<Rightarrow> ((offsets, None), l', d2)))"

section \<open>Reading\<close>

fun latest_scan :: "segment list \<Rightarrow> u64" where
  "latest_scan [] = 0"
| "latest_scan (s # ss) =
     (if seg_nextOffset s > seg_baseOffset s then seg_nextOffset s - 1 else latest_scan ss)"

definition LatestOffset :: "log \<Rightarrow> u64" where
  "LatestOffset l = latest_scan (rev (log_segments l))"

text \<open>The index of the segment an offset falls into: \<open>segmentForOffset\<close> returns its pointer.\<close>

definition segmentForOffset :: "log \<Rightarrow> u64 \<Rightarrow> nat res" where
  "segmentForOffset l offset =
     (let segs = log_segments l
      in if segs = [] then Inl (Msg ''log has no segments'')
         else if offset < seg_BaseOffset (segs ! 0)
         then Inl (OffsetErr ''offset is before the beginning of the log'' offset)
         else let index = sort_search (length segs) (\<lambda>i. seg_BaseOffset (segs ! i) > offset)
              in if index = 0 then Inl (Panic ''index out of range [-1]'') else Inr (index - 1))"

definition log_Read :: "codec \<Rightarrow> u64 \<Rightarrow> log \<Rightarrow> directory \<Rightarrow> message res" where
  "log_Read cdc offset l d =
     (case segmentForOffset l offset of
        Inl e \<Rightarrow> Inl e
      | Inr i \<Rightarrow> seg_Read cdc offset (log_segments l ! i) d)"

text \<open>
  The inner loop of \<open>ReadBatch\<close>: at most \<open>n\<close> more messages from one segment. Results: the
  messages so far, the current offset, and the error that stopped it.
\<close>

fun read_run ::
  "codec \<Rightarrow> segment \<Rightarrow> directory \<Rightarrow> nat \<Rightarrow> u64 \<Rightarrow> message list \<Rightarrow> message list \<times> u64 \<times> error option" where
  "read_run cdc s d 0 cur acc = (acc, cur, None)"
| "read_run cdc s d (Suc n) cur acc =
     (if cur < seg_nextOffset s
      then (case seg_Read cdc cur s d of
              Inl e \<Rightarrow> (acc, cur, Some e)
            | Inr m \<Rightarrow> read_run cdc s d n (cur + 1) (acc @ [m]))
      else (acc, cur, None))"

text \<open>The outer loop has no structural bound: \<open>None\<close> is non-termination.\<close>

partial_function (option) read_batch_loop ::
  "codec \<Rightarrow> log \<Rightarrow> directory \<Rightarrow> nat \<Rightarrow> u64 \<Rightarrow> message list \<Rightarrow> message list res option" where
  "read_batch_loop cdc l d maxCount cur acc =
     (if length acc < maxCount then
        (case segmentForOffset l cur of
           Inl e \<Rightarrow> Some (if acc \<noteq> [] then Inr acc else Inl e)
         | Inr i \<Rightarrow>
             (case read_run cdc (log_segments l ! i) d (maxCount - length acc) cur acc of
                (acc', cur', Some e) \<Rightarrow> Some (if acc' \<noteq> [] then Inr acc' else Inl e)
              | (acc', cur', None) \<Rightarrow>
                  if cur' \<ge> seg_nextOffset (log_segments l ! i) \<and> i = length (log_segments l) - 1
                  then Some (Inr acc')
                  else read_batch_loop cdc l d maxCount cur' acc'))
      else Some (Inr acc))"

definition log_ReadBatch ::
  "codec \<Rightarrow> u64 \<Rightarrow> i32 \<Rightarrow> log \<Rightarrow> directory \<Rightarrow> message list res option" where
  "log_ReadBatch cdc offset maxCount l d =
     (if sint maxCount \<le> 0 then Some (Inr [])
      else read_batch_loop cdc l d (nat (sint maxCount)) offset [])"

section \<open>Closing\<close>

definition log_Close :: "log \<Rightarrow> directory \<Rightarrow> unit res \<times> log \<times> directory" where
  "log_Close l d =
     (case close_segments (log_segments l) d of
        (r, segs, d') \<Rightarrow> (r, l\<lparr>log_segments := segs\<rparr>, d'))"

end
