(* ===== verification/LogStore.thy ===== *)
theory LogStore
  imports CommitLog
begin

text \<open>
  The commit log as one sequence of messages. \<open>log_inv\<close> says that the segments represent
  consecutive, gap-free runs of messages, chained by their offsets, and that the directory holds
  exactly their files; every operation of \<open>log.go\<close> outside maintenance is proved against it.
\<close>

section \<open>The log invariant\<close>

fun chained :: "segment list \<Rightarrow> bool" where
  "chained (s # t # ss) \<longleftrightarrow> seg_nextOffset s = seg_baseOffset t \<and> seg_baseOffset s < seg_baseOffset t
     \<and> chained (t # ss)"
| "chained _ \<longleftrightarrow> True"

text \<open>No gaps: the \<open>i\<close>-th message has offset \<open>baseOffset + i\<close>.\<close>

definition seg_dense :: "segment \<Rightarrow> message list \<Rightarrow> bool" where
  "seg_dense s ms \<longleftrightarrow> unat (seg_nextOffset s) = unat (seg_baseOffset s) + length ms
     \<and> (\<forall>i < length ms. msg_Offset (ms ! i) = seg_baseOffset s + word_of_nat i)"

definition seg_inv :: "codec \<Rightarrow> bool \<Rightarrow> directory \<Rightarrow> segment \<Rightarrow> message list \<Rightarrow> bool" where
  "seg_inv cdc c d s ms \<longleftrightarrow> seg_repr cdc d s ms \<and> seg_dense s ms \<and> seg_compressed s = c"

definition dir_exact :: "directory \<Rightarrow> u64 set \<Rightarrow> bool" where
  "dir_exact d bases \<longleftrightarrow>
     (\<forall>nm b. lookup_file d nm \<noteq> None \<and> segmentBaseOffset nm = Some b \<longrightarrow> nm = log_name b \<and> b \<in> bases)
     \<and> (\<forall>b. lookup_file d (index_name b) \<noteq> None \<longrightarrow> (\<exists>b' \<in> bases. b \<le> b'))"

abbreviation bases :: "segment list \<Rightarrow> u64 set" where
  "bases segs \<equiv> seg_baseOffset ` set segs"

text \<open>
  \<open>log_core\<close> is what reading and appending need; \<open>log_inv\<close> adds that the directory holds no
  other segment files, which reopening needs as well.
\<close>

definition log_core :: "codec \<Rightarrow> directory \<Rightarrow> log \<Rightarrow> message list list \<Rightarrow> bool" where
  "log_core cdc d l mss \<longleftrightarrow> dir_wf d \<and> log_segments l \<noteq> []
     \<and> list_all2 (seg_inv cdc (log_compressed l) d) (log_segments l) mss
     \<and> chained (log_segments l)"

definition log_inv :: "codec \<Rightarrow> directory \<Rightarrow> log \<Rightarrow> message list list \<Rightarrow> bool" where
  "log_inv cdc d l mss \<longleftrightarrow> log_core cdc d l mss \<and> dir_exact d (bases (log_segments l))"

definition log_next :: "log \<Rightarrow> u64" where
  "log_next l = seg_nextOffset (last (log_segments l))"

definition log_start :: "log \<Rightarrow> u64" where
  "log_start l = seg_baseOffset (hd (log_segments l))"

section \<open>Chains\<close>

lemma chained_snoc:
  "chained (ss @ [s]) \<longleftrightarrow> chained ss \<and>
     (ss \<noteq> [] \<longrightarrow> seg_nextOffset (last ss) = seg_baseOffset s \<and> seg_baseOffset (last ss) < seg_baseOffset s)"
  by (induction ss rule: chained.induct) auto

lemma chained_tl: "chained (s # ss) \<Longrightarrow> chained ss"
  by (cases ss) auto

lemma chained_nth: "chained ss \<Longrightarrow> Suc i < length ss \<Longrightarrow>
    seg_nextOffset (ss ! i) = seg_baseOffset (ss ! Suc i) \<and> seg_baseOffset (ss ! i) < seg_baseOffset (ss ! Suc i)"
proof (induction ss arbitrary: i rule: chained.induct)
  case (1 s t ss)
  then show ?case by (cases i) auto
qed auto

lemma chained_sorted: "chained ss \<Longrightarrow> sorted_wrt (<) (map seg_baseOffset ss)"
proof (induction ss rule: chained.induct)
  case (1 s t ss)
  then have "sorted_wrt (<) (map seg_baseOffset (t # ss))" by simp
  then show ?case using "1.prems" by (auto dest: order.strict_trans)
qed auto

lemma chained_base_mono:
  "chained ss \<Longrightarrow> i < j \<Longrightarrow> j < length ss \<Longrightarrow> seg_baseOffset (ss ! i) < seg_baseOffset (ss ! j)"
  using sorted_wrt_nth_less [OF chained_sorted, of ss i j] by simp

lemma chained_last_max: "chained ss \<Longrightarrow> s \<in> set ss \<Longrightarrow> seg_baseOffset s \<le> seg_baseOffset (last ss)"
proof -
  assume c: "chained ss" and "s \<in> set ss"
  then obtain i where i: "i < length ss" "s = ss ! i" by (auto simp: in_set_conv_nth)
  then have "last ss = ss ! (length ss - 1)" by (cases ss) (auto simp: last_conv_nth)
  moreover have "i < length ss - 1 \<or> i = length ss - 1" using i by linarith
  ultimately show ?thesis
    using chained_base_mono [OF c, of i "length ss - 1"] i by (auto intro: less_imp_le)
qed

lemma chained_butlast_names:
  assumes "chained (ss @ [a])" "s \<in> set ss"
  shows "seg_names s \<inter> seg_names a = {}"
proof -
  have "seg_baseOffset s \<le> seg_baseOffset (last ss)" "ss \<noteq> []"
    using assms chained_last_max by (auto simp: chained_snoc)
  then have "seg_baseOffset s < seg_baseOffset a"
    using assms by (auto simp: chained_snoc)
  then show ?thesis by auto
qed

section \<open>Segments under the invariant\<close>

lemma seg_inv_frame:
  "touches_only N d d' \<Longrightarrow> seg_names s \<inter> N = {} \<Longrightarrow> seg_inv cdc c d s ms \<Longrightarrow> seg_inv cdc c d' s ms"
  by (auto simp: seg_inv_def intro: seg_repr_frame)

lemma seg_dense_bounds:
  assumes "seg_dense s ms"
  shows "seg_baseOffset s \<le> seg_nextOffset s" and "length ms = unat (seg_nextOffset s) - unat (seg_baseOffset s)"
    and "ms \<noteq> [] \<longleftrightarrow> seg_baseOffset s < seg_nextOffset s"
  using assms by (auto simp: seg_dense_def word_le_nat_alt word_less_nat_alt)

lemma seg_dense_offset:
  assumes "seg_dense s ms" "seg_baseOffset s \<le> off" "off < seg_nextOffset s"
  shows "\<exists>m \<in> set ms. msg_Offset m = off"
proof -
  let ?i = "unat off - unat (seg_baseOffset s)"
  have i: "?i < length ms" using assms by (auto simp: seg_dense_def word_le_nat_alt word_less_nat_alt)
  have "msg_Offset (ms ! ?i) = seg_baseOffset s + word_of_nat ?i"
    using assms(1) i by (simp add: seg_dense_def)
  also have "\<dots> = off"
    using assms(2) by (simp add: word_le_nat_alt of_nat_diff)
  finally show ?thesis using i by (auto intro: nth_mem)
qed

lemma seg_dense_next: "seg_dense s ms \<Longrightarrow> seg_nextOffset s = seg_baseOffset s + word_of_nat (length ms)"
proof -
  assume "seg_dense s ms"
  then have "(word_of_nat (unat (seg_nextOffset s)) :: u64)
      = word_of_nat (unat (seg_baseOffset s) + length ms)" by (simp only: seg_dense_def)
  then show ?thesis by simp
qed

lemma seg_dense_append:
  assumes d: "seg_dense s ms" and n: "seg_dense t new" and b: "seg_baseOffset t = seg_nextOffset s"
    and u: "seg_baseOffset u = seg_baseOffset s" "seg_nextOffset u = seg_nextOffset t"
  shows "seg_dense u (ms @ new)"
proof -
  have "msg_Offset ((ms @ new) ! i) = seg_baseOffset s + word_of_nat i" if "i < length (ms @ new)" for i
  proof (cases "i < length ms")
    case True
    then show ?thesis using d by (simp add: seg_dense_def nth_append)
  next
    case False
    with seg_dense_next [OF d] that n b show ?thesis
      by (simp add: seg_dense_def nth_append algebra_simps of_nat_diff)
  qed
  then show ?thesis using d n b u by (simp add: seg_dense_def)
qed


lemma seg_inv_Read:
  assumes "seg_inv cdc c d s ms" "dir_wf d" "codec_ok cdc"
  shows "seg_Read cdc off s d = Inr m \<longleftrightarrow> m \<in> set ms \<and> msg_Offset m = off"
  using assms seg_Read_iff by (auto simp: seg_inv_def)

lemma seg_inv_offsets:
  assumes "seg_inv cdc c d s ms" "m \<in> set ms"
  shows "seg_baseOffset s \<le> msg_Offset m" "msg_Offset m < seg_nextOffset s"
  using assms by (auto simp: seg_inv_def seg_repr_def msgs_ok_def)

section \<open>Replacing the active segment\<close>

lemma list_all2_frame:
  assumes "list_all2 (seg_inv cdc c d) ss mss" "touches_only N d d'"
    "\<And>s. s \<in> set ss \<Longrightarrow> seg_names s \<inter> N = {}"
  shows "list_all2 (seg_inv cdc c d') ss mss"
  using assms(1) by (rule list.rel_mono_strong) (use assms(2,3) in \<open>auto intro: seg_inv_frame\<close>)

lemma dir_exact_touch:
  assumes "dir_exact d B" "touches_only {log_name b, index_name b} d d'" "b \<in> B"
  shows "dir_exact d' B"
  unfolding dir_exact_def
proof (rule conjI; intro allI impI)
  fix nm b' assume a: "lookup_file d' nm \<noteq> None \<and> segmentBaseOffset nm = Some b'"
  show "nm = log_name b' \<and> b' \<in> B"
  proof (cases "nm \<in> {log_name b, index_name b}")
    case True
    then show ?thesis using a assms(3)
      by (auto simp: segmentBaseOffset_log_name segmentBaseOffset_index_name)
  next
    case False
    then show ?thesis using a assms(1,2) by (auto simp: dir_exact_def touches_only_def)
  qed
next
  fix b' assume a: "lookup_file d' (index_name b') \<noteq> None"
  show "\<exists>x \<in> B. b' \<le> x"
  proof (cases "b' = b")
    case True
    then show ?thesis using assms(3) by auto
  next
    case False
    then have "lookup_file d (index_name b') \<noteq> None" using a assms(2) by (simp add: touches_only_def)
    then show ?thesis using assms(1) by (auto simp: dir_exact_def)
  qed
qed

lemma log_core_split:
  assumes "log_core cdc d l mss"
  obtains ss a msf ms where "log_segments l = ss @ [a]" "mss = msf @ [ms]"
    "list_all2 (seg_inv cdc (log_compressed l) d) ss msf" "seg_inv cdc (log_compressed l) d a ms"
    "chained (ss @ [a])" "dir_wf d"
proof -
  obtain ss a where s: "log_segments l = ss @ [a]"
    using assms by (metis log_core_def rev_exhaust)
  then have l2: "list_all2 (seg_inv cdc (log_compressed l) d) (ss @ [a]) mss"
    using assms by (simp add: log_core_def)
  then obtain msf ms where "mss = msf @ [ms]" "list_all2 (seg_inv cdc (log_compressed l) d) ss msf"
    "seg_inv cdc (log_compressed l) d a ms"
    by (auto simp: list_all2_append1 list_all2_Cons1)
  then show thesis using that s assms by (auto simp: log_core_def)
qed

lemma log_core_set_active:
  assumes s: "log_segments l = ss @ [a]" and l2: "list_all2 (seg_inv cdc (log_compressed l) d) ss msf"
    and ch: "chained (ss @ [a])"
    and a': "seg_inv cdc (log_compressed l) d' a' ms'" "seg_baseOffset a' = seg_baseOffset a"
    and t: "touches_only (seg_names a) d d'" and wf: "dir_wf d'"
  shows "log_core cdc d' (set_active a' l) (msf @ [ms'])"
proof -
  have "list_all2 (seg_inv cdc (log_compressed l) d') ss msf"
    by (rule list_all2_frame [OF l2 t]) (use chained_butlast_names [OF ch] in blast)
  then show ?thesis
    using ch s a' wf by (simp add: log_core_def set_active_def chained_snoc list_all2_appendI)
qed

lemma set_active_simps [simp]:
  "log_compressed (set_active s l) = log_compressed l"
  "log_maxSegmentSize (set_active s l) = log_maxSegmentSize l"
  "log_segments l = ss @ [a] \<Longrightarrow> log_segments (set_active s l) = ss @ [s]"
  by (simp_all add: set_active_def)

lemma notify_saved_simps [simp]:
  "log_segments (notify_saved n l) = log_segments l"
  "log_compressed (notify_saved n l) = log_compressed l"
  "log_maxSegmentSize (notify_saved n l) = log_maxSegmentSize l"
  by (simp_all add: notify_saved_def)

lemma log_core_notify [simp]: "log_core cdc d (notify_saved n l) mss = log_core cdc d l mss"
  by (simp add: log_core_def)

lemma log_next_notify [simp]: "log_next (notify_saved n l) = log_next l"
  by (simp add: log_next_def)

section \<open>Rolling over\<close>

lemma seg_inv_fresh:
  assumes "seg_files cdc c base d []"
  shows "seg_inv cdc c d (seg_SetCompressed c (opened cdc c base [])) []"
  using opened_repr [OF assms, of base]
  by (simp add: seg_inv_def msgs_ok_def seg_dense_def opened_def next_after_def seg_SetCompressed_def)

text \<open>
  What \<open>roll\<close> leaves behind, given that no files of the new name exist yet: the same messages
  in every case, and an exact directory when it succeeds.
\<close>

definition no_later :: "directory \<Rightarrow> u64 \<Rightarrow> bool" where
  "no_later d b \<longleftrightarrow> lookup_file d (log_name b) = None \<and> lookup_file d (index_name b) = None"

lemma dir_exact_no_later:
  assumes "dir_exact d B" "\<And>b'. b' \<in> B \<Longrightarrow> b' < b"
  shows "no_later d b"
proof -
  have "lookup_file d (log_name b) = None"
    using assms by (metis dir_exact_def order_less_irrefl segmentBaseOffset_log_name)
  moreover have "lookup_file d (index_name b) = None"
    using assms by (metis dir_exact_def not_less)
  ultimately show ?thesis by (simp add: no_later_def)
qed

lemma dir_exact_extend:
  assumes "dir_exact d B" "touches_only {log_name b, index_name b} d d'"
  shows "dir_exact d' (insert b B)"
proof (rule dir_exact_touch [OF _ assms(2)])
  show "dir_exact d (insert b B)" using assms(1) by (auto simp: dir_exact_def)
qed simp

lemma roll_core:
  assumes i: "log_core cdc d l mss" and r: "roll (log_next l) l d = (r, l', d')"
    and ne: "last mss \<noteq> []" and nl: "no_later d (log_next l)"
  shows "log_core cdc d' l' mss \<and> l' = l \<or> log_core cdc d' l' (mss @ [[]]) \<and> r = Inr ()"
    and "log_next l' = log_next l" "log_start l' = log_start l"
    and "log_compressed l' = log_compressed l" "log_maxSegmentSize l' = log_maxSegmentSize l"
    and "dir_exact d (bases (log_segments l)) \<Longrightarrow> r = Inr () \<Longrightarrow> dir_exact d' (bases (log_segments l'))"
proof -
  obtain ss a msf ms where s: "log_segments l = ss @ [a]" "mss = msf @ [ms]"
    and l2: "list_all2 (seg_inv cdc (log_compressed l) d) ss msf"
    and ai: "seg_inv cdc (log_compressed l) d a ms" and ch: "chained (ss @ [a])" and wf: "dir_wf d"
    by (rule log_core_split [OF i])
  let ?b = "seg_nextOffset a" and ?c = "log_compressed l"
  have nx: "log_next l = ?b" by (simp add: log_next_def s)
  obtain r0 d0 where n: "NewSegment ?b d = (r0, d0)" by fastforce
  note fr = NewSegment_frame [OF n]
  have lt: "seg_baseOffset a < ?b"
    using ai ne s seg_dense_bounds(3) by (auto simp: seg_inv_def)
  have names: "seg_names t \<inter> {log_name ?b, index_name ?b} = {}" if "t \<in> set (ss @ [a])" for t
    using chained_last_max [OF ch that] lt by auto
  have old: "list_all2 (seg_inv cdc ?c d0) (ss @ [a]) (msf @ [ms])"
    by (rule list_all2_frame [OF _ fr(1)]) (use names l2 ai in \<open>auto intro: list_all2_appendI\<close>)
  have kept: "log_core cdc d0 l mss" using i s old fr(4) wf by (simp add: log_core_def)
  let ?s = "seg_SetCompressed ?c (opened cdc ?c ?b [])"
  have new: "log_core cdc d0 (l\<lparr>log_segments := log_segments l @ [?s]\<rparr>) (mss @ [[]])" if "r0 = Inr x" for x
  proof -
    have "seg_files cdc ?c ?b d0 []"
      using NewSegment_result(2) [of ?b d x d0 cdc ?c "[]"] n that nl nx by (simp add: no_later_def)
    then have "list_all2 (seg_inv cdc ?c d0) [?s] [[]]" by (simp add: seg_inv_fresh)
    then have "list_all2 (seg_inv cdc ?c d0) ((ss @ [a]) @ [?s]) ((msf @ [ms]) @ [[]])"
      by (rule list_all2_appendI [OF old])
    moreover have "chained ((ss @ [a]) @ [?s])"
      using ch lt by (subst chained_snoc) (simp add: opened_def seg_SetCompressed_def)
    ultimately show ?thesis
      using fr(4) wf by (simp only: log_core_def s) simp
  qed
  have x: "x = opened cdc ?c ?b []" if "r0 = Inr x" for x
    using NewSegment_result(1) [of ?b d x d0 cdc ?c "[]"] n that nl nx by (simp add: no_later_def)
  have cs: "r = Inr () \<and> l' = l \<and> d' = d \<or> (\<exists>e. r = Inl e \<and> l' = l \<and> d' = d0)
      \<or> r = Inr () \<and> l' = l\<lparr>log_segments := log_segments l @ [?s]\<rparr> \<and> d' = d0 \<and> (\<exists>x. r0 = Inr x)"
    using r x n nx by (cases r0) (auto simp: roll_def split: if_splits)
  then show "log_core cdc d' l' mss \<and> l' = l \<or> log_core cdc d' l' (mss @ [[]]) \<and> r = Inr ()"
    using i kept new by auto
  show "log_next l' = log_next l" "log_start l' = log_start l"
    "log_compressed l' = log_compressed l" "log_maxSegmentSize l' = log_maxSegmentSize l"
    using cs s by (auto simp: log_next_def log_start_def opened_def next_after_def
        seg_SetCompressed_def hd_append)
  show "dir_exact d' (bases (log_segments l'))" if "dir_exact d (bases (log_segments l))" "r = Inr ()"
    using cs that dir_exact_extend [OF that(1) fr(1)]
    by (auto simp: opened_def seg_SetCompressed_def)
qed

section \<open>Append\<close>

lemma seg_grown_simps [simp]:
  "seg_baseOffset (seg_grown cdc s new n) = seg_baseOffset s"
  "seg_nextOffset (seg_grown cdc s new n) = n"
  "seg_compressed (seg_grown cdc s new n) = seg_compressed s"
  by (simp_all add: seg_grown_def)

lemma number_messages_dense:
  assumes "unat off + length rs < 2 ^ 64" "seg_baseOffset t = off"
    "seg_nextOffset t = off + word_of_nat (length rs)"
  shows "seg_dense t (number_messages off rs)"
  using assms by (simp add: seg_dense_def number_messages_nth unat_word_ariths unat_of_nat)

lemma seg_inv_grown:
  assumes i: "seg_inv cdc c d s ms" and room: "unat (seg_nextOffset s) + length rs < 2 ^ 64"
    and new: "new = number_messages (seg_nextOffset s) rs"
      "next = seg_nextOffset s + word_of_nat (length rs)"
    and r: "seg_repr cdc d' (seg_grown cdc s new next) (ms @ new)"
  shows "seg_inv cdc c d' (seg_grown cdc s new next) (ms @ new)"
proof -
  let ?t = "s\<lparr>seg_baseOffset := seg_nextOffset s, seg_nextOffset := next\<rparr>"
  have n: "seg_dense ?t new" unfolding new by (rule number_messages_dense [OF room]) simp_all
  have d: "seg_dense s ms" using i by (simp add: seg_inv_def)
  have "seg_dense (seg_grown cdc s new next) (ms @ new)"
    by (rule seg_dense_append [OF d n]) simp_all
  then show ?thesis using i r by (simp add: seg_inv_def)
qed

text \<open>
  The files of the next segment do not exist yet whenever the directory is exact, and writing to
  the active segment does not create them.
\<close>

definition ready :: "directory \<Rightarrow> log \<Rightarrow> bool" where
  "ready d l \<longleftrightarrow> (\<forall>b. seg_baseOffset (last (log_segments l)) < b \<longrightarrow> no_later d b)"

lemma log_inv_ready: "log_inv cdc d l mss \<Longrightarrow> ready d l"
  unfolding ready_def log_inv_def log_core_def
  by (auto intro!: dir_exact_no_later dest: chained_last_max intro: le_less_trans)

lemma no_later_touch:
  "no_later d b \<Longrightarrow> touches_only (seg_names s) d d' \<Longrightarrow> seg_baseOffset s < b \<Longrightarrow> no_later d' b"
  by (auto simp: no_later_def touches_only_def)

text \<open>
  The common core of \<open>Append\<close> and \<open>AppendBatch\<close>: the active segment has grown by \<open>new\<close>, then
  the log rolls over if it must.
\<close>

lemma grow_roll:
  assumes i: "log_core cdc d l mss" and rd: "ready d l"
    and sa: "seg_inv cdc (log_compressed l) d1 a' (last mss @ new)" "new \<noteq> []"
      "seg_baseOffset a' = seg_baseOffset (last (log_segments l))"
      "touches_only (seg_names (last (log_segments l))) d d1" "dir_wf d1"
    and rl: "roll (seg_nextOffset a') (notify_saved sv (set_active a' l)) d1 = (r, l', d')"
  shows "\<exists>mss'. log_core cdc d' l' mss' \<and> concat mss' = concat mss @ new
      \<and> (log_inv cdc d l mss \<and> r = Inr () \<longrightarrow> log_inv cdc d' l' mss')"
    and "log_next l' = seg_nextOffset a'" "log_start l' = log_start l"
    and "log_compressed l' = log_compressed l" "log_maxSegmentSize l' = log_maxSegmentSize l"
proof -
  obtain ss a msf ms where s: "log_segments l = ss @ [a]" "mss = msf @ [ms]"
    and l2: "list_all2 (seg_inv cdc (log_compressed l) d) ss msf"
    and ai: "seg_inv cdc (log_compressed l) d a ms" and ch: "chained (ss @ [a])" and wf: "dir_wf d"
    by (rule log_core_split [OF i])
  let ?l = "notify_saved sv (set_active a' l)"
  have core: "log_core cdc d1 ?l (msf @ [ms @ new])"
    using log_core_set_active [OF s(1) l2 ch, of d1 a' "ms @ new"] sa s by simp
  have segs: "log_segments ?l = ss @ [a']" using s by simp
  have nx: "log_next ?l = seg_nextOffset a'" unfolding log_next_def segs by simp
  have lt: "seg_baseOffset a < seg_nextOffset a'"
    using sa s seg_dense_bounds(3) [of a' "ms @ new"] by (auto simp: seg_inv_def)
  have nl: "no_later d1 (log_next ?l)"
    using rd lt sa(4) s nx by (auto simp: ready_def intro: no_later_touch)
  note rc = roll_core [OF core _ _ nl, unfolded nx, OF rl]
  show "log_next l' = seg_nextOffset a'" "log_start l' = log_start l"
    "log_compressed l' = log_compressed l" "log_maxSegmentSize l' = log_maxSegmentSize l"
    using rc(2-5) sa(2,3) s segs nx by (simp_all add: log_start_def hd_append)
  have ex: "dir_exact d' (bases (log_segments l'))" if "log_inv cdc d l mss" "r = Inr ()"
  proof (rule rc(6) [OF _ _ that(2)])
    have "dir_exact d1 (bases (ss @ [a]))"
      by (rule dir_exact_touch [OF _ sa(4)]) (use that s in \<open>auto simp: log_inv_def\<close>)
    then show "dir_exact d1 (bases (log_segments ?l))" using segs sa(3) s by simp
  qed (use sa(2) in simp)
  from rc(1) sa(2) consider "log_core cdc d' l' (msf @ [ms @ new])"
    | "log_core cdc d' l' ((msf @ [ms @ new]) @ [[]])" by auto
  then show "\<exists>mss'. log_core cdc d' l' mss' \<and> concat mss' = concat mss @ new
      \<and> (log_inv cdc d l mss \<and> r = Inr () \<longrightarrow> log_inv cdc d' l' mss')"
    by cases (use s ex in \<open>auto simp: log_inv_def\<close>)
qed


text \<open>The schedule of future failures is not part of the contents.\<close>

lemma log_inv_sched: "log_inv cdc d l mss \<Longrightarrow> log_inv cdc (d\<lparr>sched := es\<rparr>) l mss"
proof -
  have f: "lookup_file (d\<lparr>sched := es\<rparr>) = lookup_file d" by (simp add: lookup_file_def)
  have "seg_inv cdc c (d\<lparr>sched := es\<rparr>) = seg_inv cdc c d" for c
    by (intro ext) (simp add: seg_inv_def seg_repr_def seg_files_def f)
  then show "log_inv cdc d l mss \<Longrightarrow> log_inv cdc (d\<lparr>sched := es\<rparr>) l mss"
    by (simp add: log_inv_def log_core_def dir_exact_def dir_wf_def f)
qed

end
