(* ===== verification/LogAccess.thy ===== *)
theory LogAccess
  imports LogStore
begin

text \<open>
  The client view of a commit log: \<open>log_holds cdc d l msgs\<close> relates a log and its directory to
  the message sequence they store. Appending extends the sequence, reading looks an offset up in
  it, \<open>ReadBatch\<close> returns a contiguous run of it and always terminates.
\<close>

section \<open>The stored sequence\<close>

definition log_holds :: "codec \<Rightarrow> directory \<Rightarrow> log \<Rightarrow> message list \<Rightarrow> bool" where
  "log_holds cdc d l msgs \<longleftrightarrow> (\<exists>mss. log_inv cdc d l mss \<and> concat mss = msgs)"

text \<open>The whole log read as one segment.\<close>

definition log_span :: "log \<Rightarrow> segment" where
  "log_span l = (hd (log_segments l))\<lparr>seg_nextOffset := log_next l\<rparr>"

lemma log_span_simps [simp]:
  "seg_baseOffset (log_span l) = log_start l" "seg_nextOffset (log_span l) = log_next l"
  by (simp_all add: log_span_def log_start_def)

lemma segments_dense:
  assumes "list_all2 (seg_inv cdc c d) ss mss" "chained ss" "ss \<noteq> []"
  shows "seg_dense ((hd ss)\<lparr>seg_nextOffset := seg_nextOffset (last ss)\<rparr>) (concat mss)"
  using assms
proof (induction ss arbitrary: mss)
  case Nil
  then show ?case by simp
next
  case (Cons s ss)
  then obtain ms mss' where m: "mss = ms # mss'" and s: "seg_inv cdc c d s ms"
    and r: "list_all2 (seg_inv cdc c d) ss mss'" by (auto simp: list_all2_Cons1)
  have ds: "seg_dense s ms" using s by (simp add: seg_inv_def)
  show ?case
  proof (cases ss)
    case Nil
    then show ?thesis using m r ds by simp
  next
    case C: (Cons t ts)
    have "seg_dense (t\<lparr>seg_nextOffset := seg_nextOffset (last ss)\<rparr>) (concat mss')"
      using Cons.IH [OF r] Cons.prems(2) C by simp
    then have "seg_dense (s\<lparr>seg_nextOffset := seg_nextOffset (last ss)\<rparr>) (ms @ concat mss')"
      by (rule seg_dense_append [OF ds]) (use Cons.prems C in simp_all)
    then show ?thesis using m C by simp
  qed
qed

lemma log_core_dense:
  assumes "log_core cdc d l mss" shows "seg_dense (log_span l) (concat mss)"
  using segments_dense assms by (auto simp: log_core_def log_span_def log_next_def)

lemma log_core_nth:
  assumes "log_core cdc d l mss" "i < length (log_segments l)"
  shows "seg_inv cdc (log_compressed l) d (log_segments l ! i) (mss ! i)" and "i < length mss"
  using assms by (auto simp: log_core_def list_all2_conv_all_nth)

text \<open>What the invariant says about the sequence alone.\<close>

lemma log_holds_offsets:
  assumes "log_holds cdc d l msgs"
  shows "length msgs = unat (log_next l) - unat (log_start l)" and "log_start l \<le> log_next l"
    and "i < length msgs \<Longrightarrow> msg_Offset (msgs ! i) = log_start l + word_of_nat i"
proof -
  have ds: "seg_dense (log_span l) msgs"
    using assms log_core_dense by (auto simp: log_holds_def log_inv_def)
  show "length msgs = unat (log_next l) - unat (log_start l)" "log_start l \<le> log_next l"
    using seg_dense_bounds(1,2) [OF ds] by simp_all
  show "i < length msgs \<Longrightarrow> msg_Offset (msgs ! i) = log_start l + word_of_nat i"
    using ds by (simp add: seg_dense_def)
qed

section \<open>Append\<close>

lemma log_Append_core:
  assumes i: "log_core cdc d l mss" and rd: "ready d l" and room: "log_next l \<noteq> -1"
    and a: "log_Append cdc ts k v l d = (r, l', d')"
    and m: "m = \<lparr>msg_Offset = log_next l, msg_Timestamp = ts, msg_Key = k, msg_Value = v\<rparr>"
    and seg: "seg_Append cdc ts k v (last (log_segments l)) d = (Inr (off, saved), s', d1)"
  shows "r = Inr off \<or> (\<exists>e. r = Inl e)" and "off = log_next l" and "log_next l' = log_next l + 1"
    and "log_start l' = log_start l" "log_compressed l' = log_compressed l"
    and "log_maxSegmentSize l' = log_maxSegmentSize l"
    and "\<exists>mss'. log_core cdc d' l' mss' \<and> concat mss' = concat mss @ [m]
      \<and> (log_inv cdc d l mss \<and> r = Inr off \<longrightarrow> log_inv cdc d' l' mss')"
proof -
  obtain ss a msf ms where s: "log_segments l = ss @ [a]" "mss = msf @ [ms]"
    and l2: "list_all2 (seg_inv cdc (log_compressed l) d) ss msf"
    and ai: "seg_inv cdc (log_compressed l) d a ms" and ch: "chained (ss @ [a])" and wf: "dir_wf d"
    by (rule log_core_split [OF i])
  have nx: "log_next l = seg_nextOffset a" by (simp add: log_next_def s)
  have rep: "seg_repr cdc d a ms" using ai by (simp add: seg_inv_def)
  have mm: "[m] = number_messages (seg_nextOffset a)
      [\<lparr>rec_Timestamp = ts, rec_Key = k, rec_Value = v\<rparr>]"
    by (simp add: m nx new_message_def)
  note ok = seg_Append_ok [OF rep seg [unfolded s, simplified] word_less_succ [OF room [unfolded nx]]
      m [unfolded nx]]
  have room': "unat (seg_nextOffset a) + length [\<lparr>rec_Timestamp = ts, rec_Key = k, rec_Value = v\<rparr>] < 2 ^ 64"
    using room by (simp add: nx word_neq_minus_one)
  have inv: "seg_inv cdc (log_compressed l) d1 s' (ms @ [m])"
    using seg_inv_grown [OF ai room' mm, of "seg_nextOffset a + 1"] ok by simp
  have t: "touches_only (seg_names a) d d1"
    by (rule dir_step_touches [OF ok(4)]) auto
  obtain r0 l0 d0 where rl: "roll (seg_nextOffset s') (notify_saved saved (set_active s' l)) d1
      = (r0, l0, d0)" by (metis prod.collapse)
  have res: "l' = l0 \<and> d' = d0 \<and> r = map_sum id (\<lambda>_. off) r0"
    using a seg rl s ok(1,3) by (cases r0) (auto simp: log_Append_def appendLocked_def)
  note gr = grow_roll [OF i rd _ _ _ _ _ rl, of "[m]"]
  have g: "\<exists>mss'. log_core cdc d0 l0 mss' \<and> concat mss' = concat mss @ [m]
      \<and> (log_inv cdc d l mss \<and> r0 = Inr () \<longrightarrow> log_inv cdc d0 l0 mss')"
    "log_next l0 = seg_nextOffset s'" "log_start l0 = log_start l"
    "log_compressed l0 = log_compressed l" "log_maxSegmentSize l0 = log_maxSegmentSize l"
    using gr s inv ok(3) t dir_step_wf [OF ok(4) wf] by simp_all
  show "r = Inr off \<or> (\<exists>e. r = Inl e)" "off = log_next l" "log_next l' = log_next l + 1"
    "log_start l' = log_start l" "log_compressed l' = log_compressed l"
    "log_maxSegmentSize l' = log_maxSegmentSize l"
    using res g ok(1,3) nx by (cases r0, auto)+
  show "\<exists>mss'. log_core cdc d' l' mss' \<and> concat mss' = concat mss @ [m]
      \<and> (log_inv cdc d l mss \<and> r = Inr off \<longrightarrow> log_inv cdc d' l' mss')"
    using g(1) res by (cases r0) auto
qed

lemma log_Append_seg:
  assumes "log_Append cdc ts k v l d = (Inr off, l', d')"
  obtains saved s' d1 where
    "seg_Append cdc ts k v (last (log_segments l)) d = (Inr (off, saved), s', d1)"
  using assms by (auto simp: log_Append_def appendLocked_def split: if_splits sum.splits prod.splits)

lemma log_Append_holds:
  assumes h: "log_holds cdc d l msgs" and room: "log_next l \<noteq> -1"
    and a: "log_Append cdc ts k v l d = (Inr off, l', d')"
  shows "off = log_next l" and "log_next l' = log_next l + 1" and "log_start l' = log_start l"
    and "log_compressed l' = log_compressed l"
    and "log_holds cdc d' l' (msgs @ [\<lparr>msg_Offset = log_next l, msg_Timestamp = ts,
           msg_Key = k, msg_Value = v\<rparr>])"
proof -
  obtain mss where i: "log_inv cdc d l mss" and c: "concat mss = msgs"
    using h by (auto simp: log_holds_def)
  obtain saved s' d1 where sg:
    "seg_Append cdc ts k v (last (log_segments l)) d = (Inr (off, saved), s', d1)"
    by (rule log_Append_seg [OF a])
  have core: "log_core cdc d l mss" using i by (simp add: log_inv_def)
  note ac = log_Append_core [OF core log_inv_ready [OF i] room a refl sg]
  show "off = log_next l" "log_next l' = log_next l + 1" "log_start l' = log_start l"
    "log_compressed l' = log_compressed l" using ac(2-5) by simp_all
  show "log_holds cdc d' l' (msgs @ [\<lparr>msg_Offset = log_next l, msg_Timestamp = ts,
           msg_Key = k, msg_Value = v\<rparr>])"
    using ac(7) i c by (auto simp: log_holds_def)
qed

section \<open>AppendBatch\<close>

lemma log_AppendBatch_seg:
  assumes "log_AppendBatch cdc rs l d = ((offs, None), l', d')" "rs \<noteq> []"
  obtains saved s' d1 l2 d2 where
    "seg_AppendBatch cdc rs (last (log_segments l)) d = (Inr (offs, saved), s', d1)"
    "roll (last offs + 1) (notify_saved saved (set_active s' l)) d1 = (Inr (), l', d')"
  using assms by (auto simp: log_AppendBatch_def split: if_splits sum.splits prod.splits)

lemma last_number_messages:
  assumes "rs \<noteq> []"
  shows "msg_Offset (last (number_messages off rs)) + 1 = off + word_of_nat (length rs)"
proof -
  have "number_messages off rs \<noteq> []" using assms by (cases rs) auto
  then show ?thesis
    using assms by (simp add: last_conv_nth number_messages_nth of_nat_diff Suc_le_eq)
qed

lemma log_AppendBatch_holds:
  assumes h: "log_holds cdc d l msgs" and room: "unat (log_next l) + length rs < 2 ^ 64"
    and a: "log_AppendBatch cdc rs l d = ((offs, None), l', d')"
    and new: "new = number_messages (log_next l) rs"
  shows "offs = map msg_Offset new" and "log_next l' = log_next l + word_of_nat (length rs)"
    and "log_start l' = log_start l" and "log_compressed l' = log_compressed l"
    and "log_holds cdc d' l' (msgs @ new)"
proof -
  obtain mss where i: "log_inv cdc d l mss" and c: "concat mss = msgs"
    using h by (auto simp: log_holds_def)
  have core: "log_core cdc d l mss" using i by (simp add: log_inv_def)
  have "offs = map msg_Offset new \<and> log_next l' = log_next l + word_of_nat (length rs)
    \<and> log_start l' = log_start l \<and> log_compressed l' = log_compressed l
    \<and> log_holds cdc d' l' (msgs @ new)"
  proof (cases "rs = []")
    case True
    then show ?thesis using a h new by (simp add: log_AppendBatch_def)
  next
    case False
    obtain saved s' d1 where sg:
        "seg_AppendBatch cdc rs (last (log_segments l)) d = (Inr (offs, saved), s', d1)"
      and rl: "roll (last offs + 1) (notify_saved saved (set_active s' l)) d1 = (Inr (), l', d')"
      by (rule log_AppendBatch_seg [OF a False])
    obtain ss a msf ms where s: "log_segments l = ss @ [a]" "mss = msf @ [ms]"
      and ai: "seg_inv cdc (log_compressed l) d a ms" and wf: "dir_wf d"
      by (rule log_core_split [OF core])
    have nx: "log_next l = seg_nextOffset a" by (simp add: log_next_def s)
    have rep: "seg_repr cdc d a ms" using ai by (simp add: seg_inv_def)
    note ok = seg_AppendBatch_ok [OF rep sg [unfolded s, simplified] room [unfolded nx] False
        new [unfolded nx]]
    have inv: "seg_inv cdc (log_compressed l) d1 s' (ms @ new)"
      using seg_inv_grown [OF ai room [unfolded nx] new [unfolded nx] refl] ok by simp
    have t: "touches_only (seg_names a) d d1"
      by (rule dir_step_touches [OF ok(4)]) auto
    have "new \<noteq> []" using new False by (cases rs) auto
    then have lo: "last offs + 1 = seg_nextOffset s'"
      using ok(1,3) last_number_messages [OF False] new nx by (simp add: last_map)
    show ?thesis
      using grow_roll [OF core log_inv_ready [OF i] _ _ _ _ _ rl [unfolded lo], of new]
        s inv ok(1,3) t dir_step_wf [OF ok(4) wf] \<open>new \<noteq> []\<close> i c nx
      by (auto simp: log_holds_def)
  qed
  then show "offs = map msg_Offset new" "log_next l' = log_next l + word_of_nat (length rs)"
    "log_start l' = log_start l" "log_compressed l' = log_compressed l"
    "log_holds cdc d' l' (msgs @ new)" by blast+
qed

section \<open>Read\<close>

lemma segmentForOffset_spec:
  assumes ch: "chained (log_segments l)" "log_segments l \<noteq> []" and ge: "log_start l \<le> off"
  obtains i where "segmentForOffset l off = Inr i" "i < length (log_segments l)"
    "seg_baseOffset (log_segments l ! i) \<le> off"
    "\<And>j. i < j \<Longrightarrow> j < length (log_segments l) \<Longrightarrow> off < seg_baseOffset (log_segments l ! j)"
proof -
  let ?segs = "log_segments l"
  define f where "f = (\<lambda>i. seg_BaseOffset (?segs ! i) > off)"
  define k where "k = sort_search (length ?segs) f"
  have "boundary (length ?segs) f k"
    unfolding k_def
  proof (rule sort_search_boundary, intro allI impI)
    fix a b assume "a \<le> b \<and> b < length ?segs \<and> f a"
    then show "f b"
      using chained_base_mono [OF ch(1), of a b]
      by (cases "a = b") (auto simp: f_def seg_BaseOffset_def)
  qed
  then have b: "k \<le> length ?segs" "\<forall>j < k. \<not> f j" "\<forall>j. k \<le> j \<and> j < length ?segs \<longrightarrow> f j"
    by (simp_all add: boundary_def)
  have st: "log_start l = seg_baseOffset (?segs ! 0)"
    using ch(2) by (simp add: log_start_def hd_conv_nth)
  have "\<not> f 0" using ge st by (simp add: f_def seg_BaseOffset_def not_less)
  then have k0: "k \<noteq> 0" using b(3) ch(2) by (metis le_refl length_greater_0_conv)
  have "segmentForOffset l off = Inr (k - 1)"
    using ch(2) ge st k0 by (simp add: segmentForOffset_def Let_def seg_BaseOffset_def not_less
        f_def [symmetric] k_def [unfolded f_def seg_BaseOffset_def, symmetric])
  moreover have "seg_baseOffset (?segs ! (k - 1)) \<le> off"
    using b(2) k0 by (simp add: f_def seg_BaseOffset_def not_less)
  moreover have "off < seg_baseOffset (?segs ! j)" if "k - 1 < j" "j < length ?segs" for j
  proof -
    have "f j" using b(3) that by simp
    then show ?thesis by (simp add: f_def seg_BaseOffset_def)
  qed
  ultimately show thesis using that [of "k - 1"] b(1) k0 by simp
qed

lemma segmentForOffset_before:
  "log_segments l \<noteq> [] \<Longrightarrow> off < log_start l \<Longrightarrow>
     segmentForOffset l off = Inl (OffsetErr ''offset is before the beginning of the log'' off)"
  by (simp add: segmentForOffset_def log_start_def hd_conv_nth seg_BaseOffset_def Let_def)

lemma chained_next_le:
  assumes "chained ss" "i < j" "j < length ss"
  shows "seg_nextOffset (ss ! i) \<le> seg_baseOffset (ss ! j)"
  using chained_nth [OF assms(1), of i] chained_base_mono [OF assms(1), of "Suc i" j] assms
  by (cases "Suc i = j") (auto intro: less_imp_le)

lemma log_core_member:
  assumes c: "log_core cdc d l mss" and m: "m \<in> set (concat mss)"
  obtains j where "j < length (log_segments l)" "m \<in> set (mss ! j)"
    "seg_baseOffset (log_segments l ! j) \<le> msg_Offset m"
    "msg_Offset m < seg_nextOffset (log_segments l ! j)"
proof -
  obtain ms where "ms \<in> set mss" "m \<in> set ms" using m by auto
  then obtain j where j: "j < length mss" "m \<in> set (mss ! j)" by (auto simp: in_set_conv_nth)
  then have jl: "j < length (log_segments l)"
    using c by (auto simp: log_core_def dest: list_all2_lengthD)
  show thesis using that [OF jl] j seg_inv_offsets [OF log_core_nth(1) [OF c jl]] by blast
qed

lemma log_start_le:
  assumes "log_core cdc d l mss" "i < length (log_segments l)"
  shows "log_start l \<le> seg_baseOffset (log_segments l ! i)"
  using assms chained_base_mono [of "log_segments l" 0 i]
  by (cases i) (auto simp: log_core_def log_start_def hd_conv_nth intro: less_imp_le)

lemma log_Read_core:
  assumes c: "log_core cdc d l mss" and cdc: "codec_ok cdc"
  shows "log_Read cdc off l d = Inr m \<longleftrightarrow> m \<in> set (concat mss) \<and> msg_Offset m = off"
proof (cases "log_start l \<le> off")
  case False
  have "\<not> (m \<in> set (concat mss) \<and> msg_Offset m = off)"
    using False log_start_le [OF c] by (meson log_core_member [OF c] order.trans)
  then show ?thesis
    using False c segmentForOffset_before [of l off] by (auto simp: log_Read_def log_core_def not_le)
next
  case True
  have ch: "chained (log_segments l)" "log_segments l \<noteq> []" and wf: "dir_wf d"
    using c by (simp_all add: log_core_def)
  obtain i where i: "segmentForOffset l off = Inr i" "i < length (log_segments l)"
      "seg_baseOffset (log_segments l ! i) \<le> off"
      "\<And>j. i < j \<Longrightarrow> j < length (log_segments l) \<Longrightarrow> off < seg_baseOffset (log_segments l ! j)"
    using segmentForOffset_spec [OF ch True] by blast
  have rd: "log_Read cdc off l d = Inr m \<longleftrightarrow> m \<in> set (mss ! i) \<and> msg_Offset m = off"
    using seg_inv_Read [OF log_core_nth(1) [OF c i(2)] wf cdc] i(1) by (simp add: log_Read_def)
  have "m \<in> set (mss ! i)" if m: "m \<in> set (concat mss)" "msg_Offset m = off"
  proof -
    obtain j where j: "j < length (log_segments l)" "m \<in> set (mss ! j)"
      "seg_baseOffset (log_segments l ! j) \<le> off" "off < seg_nextOffset (log_segments l ! j)"
      using log_core_member [OF c m(1)] m(2) by blast
    have "\<not> i < j" using i(4) [OF _ j(1)] j(3) leD by blast
    moreover have "\<not> j < i"
      using chained_next_le [OF ch(1) _ i(2), of j] j(4) i(3) by (meson leD order.trans)
    ultimately show ?thesis using j by (metis linorder_neqE_nat)
  qed
  then show ?thesis using rd log_core_nth(2) [OF c i(2)] by (auto intro: nth_mem)
qed

lemma log_Read_holds:
  assumes "log_holds cdc d l msgs" "codec_ok cdc"
  shows "log_Read cdc off l d = Inr m \<longleftrightarrow> m \<in> set msgs \<and> msg_Offset m = off"
  using assms log_Read_core by (auto simp: log_holds_def log_inv_def)

section \<open>ReadBatch\<close>

text \<open>A run of messages with consecutive offsets from \<open>off\<close> on.\<close>

definition consecutive :: "message list \<Rightarrow> u64 \<Rightarrow> message list \<Rightarrow> bool" where
  "consecutive msgs off R \<longleftrightarrow> unat off + length R < 2 ^ 64
     \<and> (\<forall>j < length R. R ! j \<in> set msgs \<and> msg_Offset (R ! j) = off + word_of_nat j)"

lemma consecutive_snoc:
  "consecutive msgs off R \<Longrightarrow> m \<in> set msgs \<Longrightarrow> msg_Offset m = off + word_of_nat (length R) \<Longrightarrow>
     unat off + length R + 1 < 2 ^ 64 \<Longrightarrow> consecutive msgs off (R @ [m])"
  by (auto simp: consecutive_def nth_append less_Suc_eq)

lemma unat_consecutive:
  "consecutive msgs off R \<Longrightarrow> unat (off + word_of_nat (length R)) = unat off + length R"
  by (simp add: consecutive_def unat_word_ariths unat_of_nat)

lemma read_run_spec:
  assumes i: "seg_inv cdc c d s ms" and wf: "dir_wf d" and cdc: "codec_ok cdc"
    and sub: "set ms \<subseteq> set msgs" and acc: "consecutive msgs off acc"
    and cur: "cur = off + word_of_nat (length acc)" and ge: "seg_baseOffset s \<le> cur"
  shows "\<exists>acc'. read_run cdc s d n cur acc = (acc', off + word_of_nat (length acc'), None)
    \<and> consecutive msgs off acc'
    \<and> length acc' = (if cur < seg_nextOffset s then min (length acc + n) (unat (seg_nextOffset s) - unat off)
                     else length acc)"
  using acc cur ge
proof (induction n arbitrary: cur acc)
  case 0
  then have "unat cur = unat off + length acc" using unat_consecutive by simp
  then show ?case using "0.prems" by (auto simp: word_less_nat_alt)
next
  case (Suc n)
  have uc: "unat cur = unat off + length acc" using Suc.prems unat_consecutive by simp
  show ?case
  proof (cases "cur < seg_nextOffset s")
    case False
    then show ?thesis using Suc.prems by auto
  next
    case True
    obtain m where m: "m \<in> set ms" "msg_Offset m = cur"
      using seg_dense_offset [of s ms cur] i Suc.prems(3) True by (auto simp: seg_inv_def)
    have rd: "seg_Read cdc cur s d = Inr m" using seg_inv_Read [OF i wf cdc] m by simp
    have ult: "unat cur < unat (seg_nextOffset s)" using True by (simp add: word_less_nat_alt)
    then have room: "unat cur + 1 < 2 ^ 64" using unat_lt_pow [of "seg_nextOffset s"] by simp
    have acc': "consecutive msgs off (acc @ [m])"
      using Suc.prems m sub uc room by (intro consecutive_snoc) auto
    have u1: "unat (cur + 1) = unat cur + 1" using room by (simp add: unat_word_ariths)
    have "cur + 1 = off + word_of_nat (length (acc @ [m]))" using Suc.prems(2) by simp
    moreover have "seg_baseOffset s \<le> cur + 1" using Suc.prems(3) u1 by (simp add: word_le_nat_alt)
    ultimately obtain acc'' where
      a: "read_run cdc s d n (cur + 1) (acc @ [m]) = (acc'', off + word_of_nat (length acc''), None)"
         "consecutive msgs off acc''"
         "length acc'' = (if cur + 1 < seg_nextOffset s
           then min (length (acc @ [m]) + n) (unat (seg_nextOffset s) - unat off) else length (acc @ [m]))"
      using Suc.IH [OF acc'] by blast
    have "length acc'' = min (length acc + Suc n) (unat (seg_nextOffset s) - unat off)"
      using a(3) u1 uc ult by (auto simp: word_less_nat_alt)
    then show ?thesis using True rd a by simp
  qed
qed

lemma log_next_ge:
  assumes "log_core cdc d l mss" "i < length (log_segments l)"
  shows "seg_nextOffset (log_segments l ! i) \<le> log_next l"
proof (cases "i = length (log_segments l) - 1")
  case True
  then show ?thesis using assms by (auto simp: log_next_def log_core_def last_conv_nth)
next
  case False
  let ?n = "length (log_segments l) - 1"
  have n: "?n < length (log_segments l)" "i < ?n" using assms(2) False by linarith+
  have "seg_nextOffset (log_segments l ! i) \<le> seg_baseOffset (log_segments l ! ?n)"
    using chained_next_le [OF _ n(2,1)] assms(1) by (simp add: log_core_def)
  also have "\<dots> \<le> seg_nextOffset (log_segments l ! ?n)"
    using log_core_nth(1) [OF assms(1) n(1)] seg_dense_bounds(1) by (auto simp: seg_inv_def)
  also have "\<dots> = log_next l"
    using assms(1) by (auto simp: log_next_def log_core_def last_conv_nth)
  finally show ?thesis .
qed

text \<open>
  The loop returns, and with exactly the messages from the requested offset on, as many as were
  asked for or as there are.
\<close>

lemma read_batch_loop_spec:
  assumes c: "log_core cdc d l mss" and cdc: "codec_ok cdc" and st: "log_start l \<le> off"
    and acc: "consecutive (concat mss) off acc" "length acc \<le> n"
      "length acc \<le> unat (log_next l) - unat off"
  shows "\<exists>R. read_batch_loop cdc l d n (off + word_of_nat (length acc)) acc = Some (Inr R)
    \<and> consecutive (concat mss) off R \<and> length R = min n (unat (log_next l) - unat off)"
  using acc
proof (induction "unat (log_next l) - (unat off + length acc)" arbitrary: acc rule: less_induct)
  case less
  let ?segs = "log_segments l" and ?cur = "off + word_of_nat (length acc)"
  have ch: "chained ?segs" "?segs \<noteq> []" and wf: "dir_wf d" using c by (simp_all add: log_core_def)
  have uc: "unat ?cur = unat off + length acc" using less.prems(1) unat_consecutive by simp
  show ?case
  proof (cases "length acc < n")
    case False
    then show ?thesis
      using less.prems by (subst read_batch_loop.simps) auto
  next
    case True
    have "log_start l \<le> ?cur" using st uc by (simp add: word_le_nat_alt)
    then obtain i where i: "segmentForOffset l ?cur = Inr i" "i < length ?segs"
        "seg_baseOffset (?segs ! i) \<le> ?cur"
        "\<And>j. i < j \<Longrightarrow> j < length ?segs \<Longrightarrow> ?cur < seg_baseOffset (?segs ! j)"
      using segmentForOffset_spec [OF ch] by blast
    let ?s = "?segs ! i"
    have sub: "set (mss ! i) \<subseteq> set (concat mss)"
      using log_core_nth(2) [OF c i(2)] by (auto intro: nth_mem)
    from read_run_spec [OF log_core_nth(1) [OF c i(2)] wf cdc sub less.prems(1) refl i(3), of "n - length acc"]
    obtain acc' where r: "read_run cdc ?s d (n - length acc) ?cur acc
        = (acc', off + word_of_nat (length acc'), None)" "consecutive (concat mss) off acc'"
      "length acc' = (if ?cur < seg_nextOffset ?s
         then min n (unat (seg_nextOffset ?s) - unat off) else length acc)"
      using True by auto
    have uc': "unat (off + word_of_nat (length acc')) = unat off + length acc'"
      using r(2) unat_consecutive by simp
    have le: "unat (seg_nextOffset ?s) \<le> unat (log_next l)"
      using log_next_ge [OF c i(2)] by (simp add: word_le_nat_alt)
    show ?thesis
    proof (cases "off + word_of_nat (length acc') \<ge> seg_nextOffset ?s \<and> i = length ?segs - 1")
      case stop: True
      then have "log_next l = seg_nextOffset ?s"
        using ch(2) by (simp add: log_next_def last_conv_nth)
      then have "length acc' = min n (unat (log_next l) - unat off)"
        using r(3) stop uc' uc True less.prems(3) by (auto simp: word_le_nat_alt word_less_nat_alt)
      then show ?thesis
        using True i(1) r stop by (subst read_batch_loop.simps) auto
    next
      case go: False
      have curlt: "?cur < seg_nextOffset ?s"
      proof (rule ccontr)
        assume "\<not> ?cur < seg_nextOffset ?s"
        then have "i \<noteq> length ?segs - 1" using go r(3) by auto
        then have "Suc i < length ?segs" using i(2) by linarith
        then show False
          using chained_nth [OF ch(1)] i(4) [of "Suc i"] \<open>\<not> ?cur < seg_nextOffset ?s\<close> by auto
      qed
      then have l': "length acc' = min n (unat (seg_nextOffset ?s) - unat off)" using r(3) by simp
      have "length acc < length acc'"
        using l' curlt uc True by (auto simp: word_less_nat_alt)
      moreover have "length acc' \<le> n" "length acc' \<le> unat (log_next l) - unat off"
        using l' le by auto
      ultimately obtain R where R: "read_batch_loop cdc l d n (off + word_of_nat (length acc')) acc'
          = Some (Inr R)" "consecutive (concat mss) off R" "length R = min n (unat (log_next l) - unat off)"
        using less.hyps [of acc'] r(2) by fastforce
      then show ?thesis
        using True i(1) r(1) go by (subst read_batch_loop.simps) auto
    qed
  qed
qed

lemma consecutive_slice:
  assumes ds: "seg_dense t msgs" and R: "consecutive msgs off R" "seg_baseOffset t \<le> off"
    "length R = min n (unat (seg_nextOffset t) - unat off)"
  shows "R = take n (drop (unat off - unat (seg_baseOffset t)) msgs)"
proof (rule nth_equalityI)
  let ?b = "seg_baseOffset t"
  have len: "length msgs = unat (seg_nextOffset t) - unat ?b" by (rule seg_dense_bounds(2) [OF ds])
  have le: "unat ?b \<le> unat off" using R(2) by (simp add: word_le_nat_alt)
  show "length R = length (take n (drop (unat off - unat ?b) msgs))"
    using R(3) len le by auto
  fix j assume j: "j < length R"
  then obtain k where k: "k < length msgs" "R ! j = msgs ! k"
    using R(1) by (auto simp: consecutive_def in_set_conv_nth)
  have "?b + word_of_nat k = off + word_of_nat j"
    using R(1) j k ds by (auto simp: consecutive_def seg_dense_def)
  moreover have "unat (?b + word_of_nat k) = unat ?b + k"
    using k ds unat_lt_pow [of "seg_nextOffset t"] by (simp add: seg_dense_def unat_word_ariths unat_of_nat)
  moreover have "unat (off + word_of_nat j) = unat off + j"
    using R(1) j by (simp add: consecutive_def unat_word_ariths unat_of_nat)
  ultimately have "k = unat off - unat ?b + j" using le by simp
  then show "R ! j = take n (drop (unat off - unat ?b) msgs) ! j"
    using k j R(3) by simp
qed

lemma log_ReadBatch_holds:
  assumes h: "log_holds cdc d l msgs" and cdc: "codec_ok cdc" and st: "log_start l \<le> off"
    and n: "0 < sint n"
  shows "log_ReadBatch cdc off n l d =
    Some (Inr (take (nat (sint n)) (drop (unat off - unat (log_start l)) msgs)))"
proof -
  obtain mss where c: "log_core cdc d l mss" and m: "concat mss = msgs"
    using h by (auto simp: log_holds_def log_inv_def)
  have "consecutive msgs off []"
    using unat_lt_pow [of off] by (simp add: consecutive_def)
  then obtain R where R: "read_batch_loop cdc l d (nat (sint n)) off [] = Some (Inr R)"
    "consecutive msgs off R" "length R = min (nat (sint n)) (unat (log_next l) - unat off)"
    using read_batch_loop_spec [OF c cdc st, of "[]" "nat (sint n)"] m by auto
  have "R = take (nat (sint n)) (drop (unat off - unat (log_start l)) msgs)"
    using consecutive_slice [OF log_core_dense [OF c, unfolded m], of off R] R st by simp
  then show ?thesis using R n by (simp add: log_ReadBatch_def)
qed

lemma log_ReadBatch_before:
  assumes h: "log_holds cdc d l msgs" and lt: "off < log_start l" and n: "0 < sint n"
  shows "log_ReadBatch cdc off n l d =
    Some (Inl (OffsetErr ''offset is before the beginning of the log'' off))"
proof -
  have "log_segments l \<noteq> []" using h by (auto simp: log_holds_def log_inv_def log_core_def)
  then show ?thesis
    using lt n segmentForOffset_before [of l off]
    by (simp add: log_ReadBatch_def read_batch_loop.simps)
qed

section \<open>LatestOffset\<close>

lemma log_core_single:
  assumes c: "log_core cdc d l mss" and e: "concat mss = []"
  shows "\<exists>s. log_segments l = [s] \<and> seg_nextOffset s = seg_baseOffset s"
proof -
  have "length (log_segments l) = 1"
  proof (rule ccontr)
    assume "length (log_segments l) \<noteq> 1"
    then have n: "Suc 0 < length (log_segments l)" using c by (cases "log_segments l") (auto simp: log_core_def)
    then have z: "0 < length (log_segments l)" by linarith
    have "seg_dense (log_segments l ! 0) (mss ! 0)" "mss ! 0 = []"
      using log_core_nth [OF c z] e nth_mem [of 0 mss] by (auto simp: seg_inv_def simp del: nth_mem)
    moreover have "seg_baseOffset (log_segments l ! 0) < seg_nextOffset (log_segments l ! 0)"
      using chained_nth [OF _ n] c by (auto simp: log_core_def)
    ultimately show False using seg_dense_bounds(3) by blast
  qed
  then obtain s where s: "log_segments l = [s]" by (auto simp: length_Suc_conv)
  then have "seg_dense s (mss ! 0)" "mss ! 0 = []"
    using log_core_nth [OF c, of 0] e nth_mem [of 0 mss] by (auto simp: seg_inv_def simp del: nth_mem)
  then show ?thesis using s by (simp add: seg_dense_def word_unat_eq_iff)
qed

lemma LatestOffset_core:
  assumes c: "log_core cdc d l mss"
  shows "LatestOffset l = (if concat mss = [] then 0 else log_next l - 1)"
proof (cases "concat mss = []")
  case True
  then show ?thesis using log_core_single [OF c] by (auto simp: LatestOffset_def)
next
  case False
  obtain ss a msf ms where s: "log_segments l = ss @ [a]" "mss = msf @ [ms]"
    and l2: "list_all2 (seg_inv cdc (log_compressed l) d) ss msf"
    and ai: "seg_inv cdc (log_compressed l) d a ms" and ch: "chained (ss @ [a])"
    by (rule log_core_split [OF c])
  have nx: "log_next l = seg_nextOffset a" by (simp add: log_next_def s)
  show ?thesis
  proof (cases "ms = []")
    case nonempty: False
    then have "seg_baseOffset a < seg_nextOffset a"
      using ai seg_dense_bounds(3) by (auto simp: seg_inv_def)
    then show ?thesis using nonempty nx s by (simp add: LatestOffset_def)
  next
    case empty: True
    then have ab: "seg_nextOffset a = seg_baseOffset a"
      using ai by (simp add: seg_inv_def seg_dense_def word_unat_eq_iff)
    have "ss \<noteq> []" using False empty s l2 by auto
    then obtain tt t where t: "ss = tt @ [t]" by (metis rev_exhaust)
    then have "seg_nextOffset t = seg_baseOffset a" "seg_baseOffset t < seg_baseOffset a"
      using ch chained_snoc [of ss a] by simp_all
    then have "LatestOffset l = log_next l - 1" using nx s t ab by (simp add: LatestOffset_def)
    then show ?thesis by (simp only: False if_False)
  qed
qed

lemma LatestOffset_holds:
  assumes h: "log_holds cdc d l msgs"
  shows "LatestOffset l = (if msgs = [] then 0 else msg_Offset (last msgs))"
proof -
  obtain mss where c: "log_core cdc d l mss" and m: "concat mss = msgs"
    using h by (auto simp: log_holds_def log_inv_def)
  have "msg_Offset (last msgs) = log_next l - 1" if "msgs \<noteq> []"
  proof -
    have ds: "seg_dense (log_span l) msgs" using log_core_dense [OF c] m by simp
    then have "msg_Offset (last msgs) = log_start l + word_of_nat (length msgs - 1)"
      using that by (simp add: seg_dense_def last_conv_nth)
    moreover have "log_next l = log_start l + word_of_nat (length msgs)"
      using seg_dense_next [OF ds] by simp
    ultimately show ?thesis using that by (simp add: of_nat_diff Suc_le_eq)
  qed
  then show ?thesis using LatestOffset_core [OF c] m by simp
qed


section \<open>Batches and single appends\<close>

text \<open>Appending the records of a batch one by one, as a caller without \<open>AppendBatch\<close> would.\<close>

fun append_all :: "codec \<Rightarrow> log_record list \<Rightarrow> log \<Rightarrow> directory \<Rightarrow> u64 list res \<times> log \<times> directory" where
  "append_all cdc [] l d = (Inr [], l, d)"
| "append_all cdc (r # rs) l d =
     (case log_Append cdc (rec_Timestamp r) (rec_Key r) (rec_Value r) l d of
        (Inl e, l', d') \<Rightarrow> (Inl e, l', d')
      | (Inr off, l', d') \<Rightarrow>
          (case append_all cdc rs l' d' of
             (Inl e, l2, d2) \<Rightarrow> (Inl e, l2, d2)
           | (Inr offs, l2, d2) \<Rightarrow> (Inr (off # offs), l2, d2)))"

lemma append_all_holds:
  assumes "log_holds cdc d l msgs" "unat (log_next l) + length rs < 2 ^ 64"
    "append_all cdc rs l d = (Inr offs, l', d')"
  shows "offs = map msg_Offset (number_messages (log_next l) rs)
    \<and> log_next l' = log_next l + word_of_nat (length rs)
    \<and> log_holds cdc d' l' (msgs @ number_messages (log_next l) rs)"
  using assms
proof (induction rs arbitrary: l d msgs offs)
  case Nil
  then show ?case by simp
next
  case (Cons r rs)
  obtain o1 l1 d1 where a: "log_Append cdc (rec_Timestamp r) (rec_Key r) (rec_Value r) l d = (o1, l1, d1)"
    by (metis surj_pair)
  obtain off where o: "o1 = Inr off" using Cons.prems(3) a by (cases o1) auto
  obtain o2 l2 d2 where r: "append_all cdc rs l1 d1 = (o2, l2, d2)" by (metis surj_pair)
  obtain offs1 where o2: "o2 = Inr offs1" using Cons.prems(3) a o r by (cases o2) auto
  have e: "offs = off # offs1" "l' = l2" "d' = d2" using Cons.prems(3) a o r o2 by auto
  have "log_next l \<noteq> -1" using Cons.prems(2) by (simp add: word_neq_minus_one)
  note h = log_Append_holds [OF Cons.prems(1) this a [unfolded o]]
  have u: "unat (log_next l1) + length rs < 2 ^ 64"
    using Cons.prems(2) h(2) by (simp add: unat_word_ariths)
  show ?case
    using Cons.IH [OF h(5) u r [unfolded o2, folded e(2,3)]] h e by (simp add: new_message_def)
qed


section \<open>ReadBatch always ends\<close>

text \<open>
  Whatever the files hold: on a chained list of segments every round of the outer loop adds a
  message, fails, or is the last.
\<close>

lemma read_run_longer:
  "read_run cdc s d n cur acc = (acc', cur', None) \<Longrightarrow>
     length acc \<le> length acc' \<and> (0 < n \<and> cur < seg_nextOffset s \<longrightarrow> length acc < length acc')"
proof (induction n arbitrary: cur acc)
  case (Suc n)
  show ?case
  proof (cases "cur < seg_nextOffset s")
    case True
    then obtain m where "read_run cdc s d n (cur + 1) (acc @ [m]) = (acc', cur', None)"
      using Suc.prems by (auto split: sum.splits)
    from Suc.IH [OF this] show ?thesis by simp
  qed (use Suc.prems in auto)
qed simp

lemma read_batch_loop_ends:
  assumes ch: "chained (log_segments l)" "log_segments l \<noteq> []"
  shows "\<exists>r. read_batch_loop cdc l d n cur acc = Some r"
proof (induction "n - length acc" arbitrary: cur acc rule: less_induct)
  case less
  let ?segs = "log_segments l"
  show ?case
  proof (cases "length acc < n \<and> log_start l \<le> cur")
    case False
    then show ?thesis
      using segmentForOffset_before [OF ch(2), of cur] by (subst read_batch_loop.simps) (auto simp: not_le)
  next
    case True
    then obtain i where i: "segmentForOffset l cur = Inr i" "i < length ?segs"
        "\<And>j. i < j \<Longrightarrow> j < length ?segs \<Longrightarrow> cur < seg_baseOffset (?segs ! j)"
      using segmentForOffset_spec [OF ch, of cur] by metis
    obtain acc' cur' e where r: "read_run cdc (?segs ! i) d (n - length acc) cur acc = (acc', cur', e)"
      by (metis surj_pair)
    show ?thesis
    proof (cases "e = None \<and> \<not> (cur' \<ge> seg_nextOffset (?segs ! i) \<and> i = length ?segs - 1)")
      case False
      then show ?thesis using True i(1) r by (subst read_batch_loop.simps) (auto split: option.split)
    next
      case go: True
      have "length acc < length acc'"
      proof (cases "cur < seg_nextOffset (?segs ! i)")
        case lt: True
        then show ?thesis using read_run_longer r go True by (metis zero_less_diff)
      next
        case ge: False
        then have "acc' = acc \<and> cur' = cur" using r True by (cases "n - length acc") auto
        then have "Suc i < length ?segs" using go ge i(2) by auto
        then show ?thesis using chained_nth [OF ch(1), of i] i(3) [of "Suc i"] ge by simp
      qed
      then have "n - length acc' < n - length acc" using True by linarith
      from less.hyps [OF this] show ?thesis
        using True i(1) r go by (subst read_batch_loop.simps) auto
    qed
  qed
qed

lemma log_ReadBatch_ends:
  assumes "chained (log_segments l)" "log_segments l \<noteq> []"
  shows "\<exists>r. log_ReadBatch cdc off n l d = Some r"
  using read_batch_loop_ends [OF assms] by (simp add: log_ReadBatch_def)

end
