(* ===== verification/LogReopen.thy ===== *)
theory LogReopen
  imports LogAccess
begin

text \<open>
  \<open>NewLog\<close>: on an empty directory it creates an empty log at offset 0; on the directory of a
  log it rebuilds exactly the segments that log had, whatever was written, rolled or deleted
  before.
\<close>

section \<open>Scanning the directory\<close>

definition entry_base :: "string \<times> bool \<Rightarrow> u64 option" where
  "entry_base e = (if snd e then None else segmentBaseOffset (fst e))"

lemma scan_entries_filter:
  assumes "\<And>e b. e \<in> set es \<Longrightarrow> entry_base e = Some b \<Longrightarrow> stat_exists (index_name b) d"
  shows "scan_entries es d = Inr (List.map_filter entry_base es)"
  using assms
proof (induction es)
  case Nil
  then show ?case by (simp add: List.map_filter_simps)
next
  case (Cons e es)
  obtain name isDir where e: "e = (name, isDir)" by fastforce
  have IH: "scan_entries es d = Inr (List.map_filter entry_base es)"
    using Cons.IH Cons.prems by (meson list.set_intros(2))
  have eb: "entry_base e = (if isDir then None else segmentBaseOffset name)"
    by (simp add: e entry_base_def)
  have "stat_exists (index_name b) d" if "entry_base e = Some b" for b
    using Cons.prems [of e b] that by simp
  then show ?case
    using IH unfolding e by (auto simp: List.map_filter_simps eb [unfolded e] split: option.splits)
qed

lemma set_read_dir:
  "set (read_dir d) = (\<lambda>n. (n, False)) ` dom (lookup_file d) \<union> (\<lambda>n. (n, True)) ` set (subdirs d)"
  by (auto simp: read_dir_def dom_lookup_file)

lemma distinct_remdups_dirs:
  "distinct (filter (\<lambda>e. \<not> snd e) (read_dir d))" if "distinct (map fst (files d))"
proof -
  have "filter (\<lambda>e. \<not> snd e) (read_dir d) = sort_key fst (map (\<lambda>f. (fst f, False)) (files d))"
    by (simp add: read_dir_def filter_sort filter_map comp_def)
  moreover have "distinct (map (\<lambda>f. (fst f, False)) (files d))"
    using that by (auto simp: distinct_map inj_on_def)
  ultimately show ?thesis by simp
qed

lemma map_filter_entry_base:
  "List.map_filter entry_base es = List.map_filter entry_base (filter (\<lambda>e. \<not> snd e) es)"
proof (induction es)
  case (Cons e es)
  have "snd e \<Longrightarrow> entry_base e = None" by (simp add: entry_base_def)
  with Cons show ?case by (auto simp: List.map_filter_simps split: option.splits)
qed (simp add: List.map_filter_simps)

text \<open>In an exact directory the scan finds each segment's base offset once.\<close>

lemma scan_exact:
  assumes ex: "dir_exact d B" and wf: "dir_wf d"
    and fs: "\<And>b. b \<in> B \<Longrightarrow> lookup_file d (log_name b) \<noteq> None \<and> lookup_file d (index_name b) \<noteq> None"
  shows "\<exists>offs. scan_entries (read_dir d) d = Inr offs \<and> set offs = B \<and> distinct offs"
proof -
  have name: "fst e = log_name b \<and> b \<in> B" if "e \<in> set (read_dir d)" "entry_base e = Some b" for e b
  proof -
    have "lookup_file d (fst e) \<noteq> None \<and> segmentBaseOffset (fst e) = Some b"
      using that by (auto simp: set_read_dir entry_base_def split: if_splits)
    then show ?thesis using ex unfolding dir_exact_def by blast
  qed
  have scan: "scan_entries (read_dir d) d = Inr (List.map_filter entry_base (read_dir d))"
    by (rule scan_entries_filter) (use name fs in \<open>auto simp: stat_exists_def\<close>)
  have "b \<in> set (List.map_filter entry_base (read_dir d))" if "b \<in> B" for b
  proof -
    have "(log_name b, False) \<in> set (read_dir d)" using fs [OF that] by (auto simp: set_read_dir)
    then show ?thesis
      by (auto simp: set_map_filter entry_base_def segmentBaseOffset_log_name intro!: bexI)
  qed
  then have "set (List.map_filter entry_base (read_dir d)) = B"
    using name by (auto simp: set_map_filter)
  moreover have "distinct (List.map_filter entry_base (read_dir d))"
    unfolding map_filter_entry_base [of "read_dir d"]
  proof (rule distinct_map_filter)
    show "distinct (filter (\<lambda>e. \<not> snd e) (read_dir d))"
      using wf distinct_remdups_dirs by (simp add: dir_wf_def)
    fix x y b assume "x \<in> set (filter (\<lambda>e. \<not> snd e) (read_dir d))"
      "y \<in> set (filter (\<lambda>e. \<not> snd e) (read_dir d))" "entry_base x = Some b" "entry_base y = Some b"
    then have "fst x = log_name b" "fst y = log_name b" "\<not> snd x" "\<not> snd y"
      using name by auto
    then show "x = y" by (simp add: prod_eq_iff)
  qed
  ultimately show ?thesis using scan by blast
qed

section \<open>Reopening the segments\<close>

lemma opened_seg_inv:
  assumes "seg_inv cdc c d s ms"
  shows "opened cdc c (seg_baseOffset s) ms = seg_SetCompressed False s"
proof -
  have ds: "seg_dense s ms" and r: "seg_repr cdc d s ms" and c: "seg_compressed s = c"
    using assms by (auto simp: seg_inv_def)
  have nx: "next_after (seg_baseOffset s) ms = seg_nextOffset s"
  proof (cases "ms = []")
    case True
    then show ?thesis using seg_dense_next [OF ds] by (simp add: next_after_def)
  next
    case False
    then have "msg_Offset (last ms) = seg_baseOffset s + word_of_nat (length ms - 1)"
      using ds by (simp add: seg_dense_def last_conv_nth)
    then show ?thesis
      using False seg_dense_next [OF ds] by (simp add: next_after_def of_nat_diff Suc_le_eq)
  qed
  show ?thesis
    using r c nx by (intro segment.equality)
      (auto simp: opened_def seg_SetCompressed_def seg_repr_def seg_open_def)
qed

lemma seg_files_cong: "lookup_file d' = lookup_file d \<Longrightarrow> seg_files cdc c b d' ms = seg_files cdc c b d ms"
  by (simp add: seg_files_def)

text \<open>Closing leaves the files alone.\<close>

lemma close_segments_step:
  "close_segments ss d = (r, ss', d') \<Longrightarrow>
     ss' = map seg_nil_handles ss \<and> dir_step d d' (lookup_file d)"
proof (induction ss arbitrary: d r ss' d')
  case Nil
  then show ?case by simp
next
  case (Cons s ss)
  obtain r1 s1 d1 where c: "seg_Close s d = (r1, s1, d1)" by (metis prod.collapse)
  obtain r2 ss2 d2 where cs: "close_segments ss d1 = (r2, ss2, d2)" by (metis prod.collapse)
  have "ss' = s1 # ss2" "d' = d2" using Cons.prems c cs by auto
  then show ?case
    using seg_Close_step [OF c] Cons.IH [OF cs]
    by (auto simp: dir_step_def)
qed

lemma open_segments_files:
  assumes "list_all2 (seg_inv cdc c d) segs mss" "lookup_file d0 = lookup_file d"
    "open_segments False acc (map seg_baseOffset segs) d0 = (r, d')"
  shows "dir_step d0 d' (lookup_file d0)
    \<and> (\<forall>ss. r = Inr ss \<longrightarrow> ss = acc @ map (seg_SetCompressed False) segs)"
  using assms
proof (induction segs arbitrary: mss d0 acc)
  case Nil
  then show ?case by auto
next
  case (Cons s segs)
  obtain ms mss' where s: "seg_inv cdc c d s ms" and l2: "list_all2 (seg_inv cdc c d) segs mss'"
    using Cons.prems(1) by (auto simp: list_all2_Cons1)
  let ?b = "seg_baseOffset s"
  have sf: "seg_files cdc c ?b d0 ms"
    using s Cons.prems(2) by (auto simp: seg_inv_def seg_repr_def seg_files_def)
  obtain r1 d1 where n: "NewSegment ?b d0 = (r1, d1)" by fastforce
  have "lookup_file d1 nm = lookup_file d0 nm" for nm
    using NewSegment_frame(1,2) [OF n] sf
    by (cases "nm \<in> {log_name ?b, index_name ?b}")
      (auto simp: touches_only_def keeps_contents_def map_le_def seg_files_def dom_def)
  then have kept: "dir_step d0 d1 (lookup_file d0)"
    using NewSegment_frame(3,4) [OF n] by (auto simp: dir_step_def)
  show ?case
  proof (cases r1)
    case (Inl e)
    obtain r2 ss2 d2 where cl: "close_segments acc d1 = (r2, ss2, d2)" by (metis prod.collapse)
    have "r = Inl e" "d' = d2" using Cons.prems(3) n Inl cl by auto
    then show ?thesis using close_segments_step [OF cl] kept by (auto simp: dir_step_def)
  next
    case (Inr x)
    have x: "x = seg_SetCompressed False s"
      using NewSegment_result(1) [OF n [unfolded Inr], of cdc c ms] sf opened_seg_inv [OF s] by simp
    have o: "open_segments False (acc @ [seg_SetCompressed False s]) (map seg_baseOffset segs) d1 = (r, d')"
      using Cons.prems(3) n Inr x by (simp add: seg_SetCompressed_def)
    have l1: "lookup_file d1 = lookup_file d" using kept Cons.prems(2) by (simp add: dir_step_def)
    show ?thesis using Cons.IH [OF l2 l1 o] kept by (auto simp: dir_step_def)
  qed
qed

lemma chain_next_id: "chained ss \<Longrightarrow> chain_next ss = ss"
  by (induction ss rule: chained.induct) auto

lemma chained_SetCompressed [simp]: "chained (map (seg_SetCompressed c) ss) = chained ss"
  by (induction ss rule: chained.induct) (auto simp: seg_SetCompressed_def)

lemma SetCompressed_back:
  "seg_compressed s = c \<Longrightarrow> seg_SetCompressed c (seg_SetCompressed b s) = s"
  by (auto simp: seg_SetCompressed_def)

lemma seg_inv_same_files:
  "seg_inv cdc c d s ms \<Longrightarrow> lookup_file d' = lookup_file d \<Longrightarrow> seg_inv cdc c d' s ms"
  by (rule seg_inv_frame [where N = "{}"]) (auto simp: touches_only_def)

lemma log_inv_same_files:
  assumes "log_inv cdc d l mss" "lookup_file d' = lookup_file d" "dir_wf d'"
    "log_segments l' = log_segments l" "log_compressed l' = log_compressed l"
  shows "log_inv cdc d' l' mss"
  using assms
  by (auto simp: log_inv_def log_core_def dir_exact_def
      intro: seg_inv_same_files elim!: list_all2_mono)

section \<open>NewLog\<close>

text \<open>
  Opening the directory of a log, under any schedule of faults: the files are left as they are,
  and when it succeeds the log is the one that was there. The compression flag is not stored in
  the files; the log holds the same messages once \<open>SetCompressed\<close> has put it back.
\<close>

lemma sorted_bases:
  assumes "chained segs" "set offs = bases segs" "distinct offs"
  shows "sort offs = map seg_baseOffset segs"
proof (rule sorted_distinct_set_unique)
  show "sorted (map seg_baseOffset segs)" "distinct (map seg_baseOffset segs)"
    using chained_sorted [OF assms(1)] by (simp_all add: strict_sorted_iff)
qed (use assms in auto)

lemma log_inv_scan:
  assumes i: "log_inv cdc d l mss" and d0: "lookup_file d0 = lookup_file d" "dir_wf d0"
  shows "\<exists>offs. scan_entries (read_dir d0) d0 = Inr offs
    \<and> sort offs = map seg_baseOffset (log_segments l)"
proof -
  have l2: "list_all2 (seg_inv cdc (log_compressed l) d) (log_segments l) mss"
    and ch: "chained (log_segments l)" and ex: "dir_exact d (bases (log_segments l))"
    using i by (auto simp: log_inv_def log_core_def)
  have "lookup_file d0 (log_name b) \<noteq> None \<and> lookup_file d0 (index_name b) \<noteq> None"
    if "b \<in> bases (log_segments l)" for b
    using that l2 d0(1)
    by (auto simp: in_set_conv_nth list_all2_conv_all_nth seg_inv_def seg_repr_def seg_files_def)
  moreover have "dir_exact d0 (bases (log_segments l))" using ex d0(1) by (simp add: dir_exact_def)
  ultimately show ?thesis
    using scan_exact [OF _ d0(2)] sorted_bases [OF ch] by blast
qed

lemma NewLog_reopen:
  assumes i: "log_inv cdc d l mss" and d0: "lookup_file d0 = lookup_file d" "dir_wf d0"
    and n: "NewLog sz d0 = (r, d')"
  shows "dir_step d0 d' (lookup_file d0)"
    and "r = Inr l' \<Longrightarrow> log_segments l' = map (seg_SetCompressed False) (log_segments l)"
    and "r = Inr l' \<Longrightarrow> log_inv cdc d' (log_SetCompressed (log_compressed l) l') mss"
proof -
  let ?bs = "map seg_baseOffset (log_segments l)"
  have l2: "list_all2 (seg_inv cdc (log_compressed l) d) (log_segments l) mss"
    and ne: "log_segments l \<noteq> []" and ch: "chained (log_segments l)"
    using i by (auto simp: log_inv_def log_core_def)
  obtain r1 d1 where c: "os_call d0 = (r1, d1)" by fastforce
  have s1: "dir_step d0 d1 (lookup_file d0)" by (rule os_call_step [OF c])
  then have d1: "lookup_file d1 = lookup_file d" "dir_wf d1" using d0 by (auto simp: dir_step_def)
  obtain offs where sc: "scan_entries (read_dir d1) d1 = Inr offs" "sort offs = ?bs"
    using log_inv_scan [OF i d1] by blast
  obtain r2 d2 where o: "open_segments False [] ?bs d1 = (r2, d2)" by fastforce
  have os: "dir_step d1 d2 (lookup_file d1)" "r2 = Inr ss \<Longrightarrow> ss = map (seg_SetCompressed False) (log_segments l)" for ss
    using open_segments_files [OF l2 d1(1) o] by simp_all
  have s2: "dir_step d0 d2 (lookup_file d0)"
    using dir_step_trans [OF s1 os(1)] s1 by (simp add: dir_step_def)
  have r2: "r2 \<noteq> Inr []" using os(2) ne by auto
  have cs: "d' \<in> {d0, d1, d2}" "\<And>l'. r = Inr l' \<Longrightarrow> \<exists>ss. r2 = Inr ss \<and> d' = d2 \<and>
      log_segments l' = chain_next ss"
    using n c sc o r2 by (auto simp: NewLog_def Let_def split: if_splits sum.splits prod.splits)
  show "dir_step d0 d' (lookup_file d0)" using cs(1) s1 s2 by auto
  show segs: "log_segments l' = map (seg_SetCompressed False) (log_segments l)" if r0: "r = Inr l'" for l'
  proof -
    obtain ss where ss: "r2 = Inr ss" "log_segments l' = chain_next ss" using cs(2) [OF r0] by blast
    then show ?thesis using os(2) [of ss] ch by (simp add: chain_next_id)
  qed
  assume r: "r = Inr l'"
  have "map (seg_SetCompressed (log_compressed l)) (log_segments l') = log_segments l"
    unfolding segs [OF r] using l2
    by (auto simp: list_all2_conv_all_nth seg_inv_def SetCompressed_back intro!: nth_equalityI)
  then have restored: "log_segments (log_SetCompressed (log_compressed l) l') = log_segments l"
    "log_compressed (log_SetCompressed (log_compressed l) l') = log_compressed l"
    by (simp_all add: log_SetCompressed_def)
  have "d' = d2" using cs(2) [OF r] by blast
  then have "lookup_file d' = lookup_file d" "dir_wf d'" using s2 d0 by (simp_all add: dir_step_def)
  then show "log_inv cdc d' (log_SetCompressed (log_compressed l) l') mss"
    using log_inv_same_files [OF i _ _ restored] by blast
qed

text \<open>Without faults it does succeed.\<close>

lemma open_segments_idle:
  assumes "list_all2 (seg_inv cdc c d) segs mss" "lookup_file d0 = lookup_file d"
    "sched d0 = []" "dir_wf d0"
  shows "\<exists>ss d'. open_segments False acc (map seg_baseOffset segs) d0 = (Inr ss, d') \<and> sched d' = []"
  using assms
proof (induction segs arbitrary: mss d0 acc)
  case Nil
  then show ?case by simp
next
  case (Cons s segs)
  obtain ms mss' where s: "seg_inv cdc c d s ms" and l2: "list_all2 (seg_inv cdc c d) segs mss'"
    using Cons.prems(1) by (auto simp: list_all2_Cons1)
  let ?b = "seg_baseOffset s"
  have sf: "seg_files cdc c ?b d0 ms"
    using s Cons.prems(2) by (auto simp: seg_inv_def seg_repr_def seg_files_def)
  then have "log_name ?b \<notin> set (subdirs d0)" "index_name ?b \<notin> set (subdirs d0)"
    using Cons.prems(4) dir_wf_subdir by (auto simp: seg_files_def)
  then obtain d1 where n: "NewSegment ?b d0 = (Inr (opened cdc c ?b ms), d1)" "sched d1 = []"
    using NewSegment_idle [OF Cons.prems(3)] sf by blast
  have "lookup_file d1 = lookup_file d0"
    using NewSegment_result(3) [OF n(1), of cdc c ms] sf
    by (simp add: dir_step_def seg_files_def fun_upd_idem)
  then show ?case
    using Cons.IH [OF l2 _ n(2)] Cons.prems NewSegment_frame(4) [OF n(1)] n(1) by auto
qed

definition size_args_ok :: "u64 list \<Rightarrow> bool" where
  "size_args_ok sz \<longleftrightarrow> sz = [] \<or> (\<exists>n. sz = [n] \<and> n \<noteq> 0)"

lemma NewLog_reopen_idle:
  assumes i: "log_inv cdc d l mss" and d0: "lookup_file d0 = lookup_file d" "dir_wf d0"
    and "sched d0 = []" "size_args_ok sz"
  shows "\<exists>l' d'. NewLog sz d0 = (Inr l', d') \<and> sched d' = []"
proof -
  obtain offs where sc: "scan_entries (read_dir d0) d0 = Inr offs"
    "sort offs = map seg_baseOffset (log_segments l)"
    using log_inv_scan [OF i d0] by blast
  have l2: "list_all2 (seg_inv cdc (log_compressed l) d) (log_segments l) mss"
    and ne: "log_segments l \<noteq> []"
    using i by (auto simp: log_inv_def log_core_def)
  obtain ss d' where o: "open_segments False [] (map seg_baseOffset (log_segments l)) d0 = (Inr ss, d')"
    and "sched d' = []"
    using open_segments_idle [OF l2 d0(1) assms(4) d0(2)] by blast
  have "ss \<noteq> []" using open_segments_files [OF l2 d0(1) o] ne by simp
  then show ?thesis
    using assms(4,5) sc o \<open>sched d' = []\<close> by (auto simp: NewLog_def Let_def size_args_ok_def)
qed

text \<open>An empty directory becomes an empty log at offset 0.\<close>

lemma NewLog_result_shape:
  assumes "NewLog sz d = (Inr l, d')"
  shows "size_args_ok sz" and "\<not> log_compressed l" and "log_maxSegmentSize l \<noteq> 0"
  using assms by (cases sz; auto simp: NewLog_def Let_def size_args_ok_def DefaultMaxSegmentSize_def
      split: if_splits sum.splits prod.splits)+

lemma NewLog_fresh:
  assumes n: "NewLog sz d = (Inr l, d')" and e: "lookup_file d = Map.empty" and wf: "dir_wf d"
  shows "log_inv cdc d' l [[]]" and "log_start l = 0"
proof -
  obtain d1 where c: "os_call d = (Inr (), d1)"
    using n by (auto simp: NewLog_def Let_def split: if_splits sum.splits prod.splits)
  have d1: "lookup_file d1 = Map.empty" "dir_wf d1"
    using os_call_step [OF c] e wf by (auto simp: dir_step_def)
  then have "files d1 = []"
    by (metis dom_empty dom_lookup_file map_is_Nil_conv set_empty)
  then have no: "entry_base e = None" if "e \<in> set (read_dir d1)" for e
    using that by (auto simp: read_dir_def entry_base_def)
  then have "set (List.map_filter entry_base (read_dir d1)) = {}" by (auto simp: set_map_filter)
  then have "scan_entries (read_dir d1) d1 = Inr []"
    using scan_entries_filter [of "read_dir d1" d1] no by simp
  then obtain s where s: "NewSegment 0 d1 = (Inr s, d')" and l: "log_segments l = [s]" "log_compressed l = False"
    using n c by (auto simp: NewLog_def Let_def split: if_splits sum.splits prod.splits)
  note res = NewSegment_result [OF s, of cdc False "[]"]
  have sf: "s = opened cdc False 0 []" "seg_files cdc False 0 d' []"
    using res(1,2) d1 by simp_all
  have "seg_inv cdc False d' (seg_SetCompressed False s) []" using seg_inv_fresh sf by simp
  moreover have "seg_SetCompressed False s = s" using sf by (simp add: opened_def seg_SetCompressed_def)
  moreover have "dir_exact d1 {}" using d1 by (simp add: dir_exact_def)
  then have "dir_exact d' {0}" using dir_exact_extend NewSegment_frame(1) [OF s] by blast
  ultimately show "log_inv cdc d' l [[]]"
    using l sf NewSegment_frame(4) [OF s] d1(2) by (simp add: log_inv_def log_core_def opened_def)
  show "log_start l = 0" using l sf by (simp add: log_start_def opened_def)
qed

lemma log_Close_step:
  assumes "log_Close l d = (r, l', d')"
  shows "dir_step d d' (lookup_file d)" and "log_segments l' = map seg_nil_handles (log_segments l)"
  using assms close_segments_step by (fastforce simp: log_Close_def split: prod.splits)+

end
