(* ===== verification/Maintenance.thy ===== *)
theory Maintenance
  imports LogReopen
begin

text \<open>
  The two maintenance operations of \<open>src/internal/log/log.go\<close>: \<open>Compact\<close> and
  \<open>EnforceRetention\<close>. A \<open>*Segment\<close> held in a local variable is the index of the segment in
  \<open>log_segments\<close>, so that \<open>segment.Close()\<close> is seen by the log as it is in the source.
  A Go \<open>map[string]int64\<close> is a map from key bytes; \<open>time.Time\<close> is nanoseconds since the epoch.
\<close>

section \<open>Compaction\<close>

type_synonym latest = "bytes \<rightharpoonup> int"

text \<open>The loop of \<open>collectLatestOffsets\<close>, from entry \<open>i - 1\<close> down to entry 0.\<close>

fun collect_entries :: "codec \<Rightarrow> segment \<Rightarrow> directory \<Rightarrow> nat \<Rightarrow> latest \<Rightarrow> latest res" where
  "collect_entries cdc s d 0 m = Inr m"
| "collect_entries cdc s d (Suc i) m =
     (case readIndexEntry s d (int i * int indexEntrySize) of
        Inl e \<Rightarrow> Inl e
      | Inr (offset, _) \<Rightarrow>
          (case seg_Read cdc offset s d of
             Inl e \<Rightarrow> Inl e
           | Inr message \<Rightarrow>
               collect_entries cdc s d i
                 (if m (msg_Key message) = None
                  then m(msg_Key message \<mapsto> int64 (msg_Offset message)) else m)))"

definition collectLatestOffsets :: "codec \<Rightarrow> segment \<Rightarrow> directory \<Rightarrow> latest \<Rightarrow> latest res" where
  "collectLatestOffsets cdc s d m =
     (case stat_size (seg_indexRead s) d of
        Inl e \<Rightarrow> Inl e
      | Inr fileSize \<Rightarrow> collect_entries cdc s d (nat (fileSize div int indexEntrySize)) m)"

text \<open>The first loop of \<open>Compact\<close>, over the inactive segments from the newest to the oldest.\<close>

fun collect_segments :: "codec \<Rightarrow> segment list \<Rightarrow> directory \<Rightarrow> latest \<Rightarrow> latest res" where
  "collect_segments cdc [] d m = Inr m"
| "collect_segments cdc (s # ss) d m =
     (case collectLatestOffsets cdc s d m of
        Inl e \<Rightarrow> Inl (Wrap ''scan segment for compaction'' e)
      | Inr m' \<Rightarrow> collect_segments cdc ss d m')"

text \<open>Whether a record is kept: its key, decoded from the payload, has it as latest offset.\<close>

definition keep_record :: "codec \<Rightarrow> bool \<Rightarrow> latest \<Rightarrow> u64 \<Rightarrow> bytes \<Rightarrow> bool res" where
  "keep_record cdc compressed latestOffsets offset record =
     (let keySize = unat (Uint32 (drop 16 record));
          valueSize = unat (Uint32 (drop 20 record));
          raw = drop messageHeaderSize record;
          payload = (if compressed then (case Decode cdc raw of Some p \<Rightarrow> p | None \<Rightarrow> raw) else raw)
      in if length payload \<noteq> keySize + valueSize
         then Inl (OffsetErr ''invalid payload size'' offset)
         else Inr (latestOffsets (take keySize payload) = Some (int64 offset)))"

text \<open>One round of the rewrite loop: entry \<open>i\<close> of \<open>entries\<close>.\<close>

definition compact_entry ::
  "codec \<Rightarrow> segment \<Rightarrow> string \<Rightarrow> string \<Rightarrow> string \<Rightarrow> latest \<Rightarrow> nat \<Rightarrow> nat \<Rightarrow> directory \<Rightarrow> unit res \<times> directory"
where
  "compact_entry cdc s source tempLog tempIndex latestOffsets entries i d =
     (case readIndexEntry s d (int i * int indexEntrySize) of
        Inl e \<Rightarrow> (Inl e, d)
      | Inr (offset, position) \<Rightarrow>
      case (if i + 1 < entries
            then map_sum id snd (readIndexEntry s d (int (i + 1) * int indexEntrySize))
            else map_sum id uint64 (stat_size (Some source) d)) of
        Inl e \<Rightarrow> (Inl e, d)
      | Inr endPosition \<Rightarrow>
      if endPosition < position \<or> endPosition - position < word_of_nat messageHeaderSize
      then (Inl (OffsetErr ''invalid record bounds at offset'' offset), d)
      else if unat (endPosition - position) > max_alloc
      then (Inl (Panic ''makeslice: len out of range''), d)
      else case read_at (Some source) (unat (endPosition - position)) (int64 position) d of
        Inl e \<Rightarrow> (Inl e, d)
      | Inr record \<Rightarrow>
      case keep_record cdc (seg_compressed s) latestOffsets offset record of
        Inl e \<Rightarrow> (Inl e, d)
      | Inr False \<Rightarrow> (Inr (), d)
      | Inr True \<Rightarrow>
      case stat_size (Some tempLog) d of
        Inl e \<Rightarrow> (Inl e, d)
      | Inr fileSize \<Rightarrow>
      case writeAll (Some tempLog) record d of
        (Inl e, d1) \<Rightarrow> (Inl e, d1)
      | (Inr _, d1) \<Rightarrow> writeAll (Some tempIndex) (entry_bytes offset (uint64 fileSize)) d1)"

text \<open>\<open>n\<close> rounds remain.\<close>

fun compact_entries ::
  "codec \<Rightarrow> segment \<Rightarrow> string \<Rightarrow> string \<Rightarrow> string \<Rightarrow> latest \<Rightarrow> nat \<Rightarrow> nat \<Rightarrow> directory \<Rightarrow> unit res \<times> directory"
where
  "compact_entries cdc s source tempLog tempIndex m entries 0 d = (Inr (), d)"
| "compact_entries cdc s source tempLog tempIndex m entries (Suc n) d =
     (case compact_entry cdc s source tempLog tempIndex m entries (entries - Suc n) d of
        (Inl e, d') \<Rightarrow> (Inl e, d')
      | (Inr _, d') \<Rightarrow> compact_entries cdc s source tempLog tempIndex m entries n d')"

definition compact_cleanup :: "string \<Rightarrow> string \<Rightarrow> directory \<Rightarrow> directory" where
  "compact_cleanup tempLog tempIndex d =
     snd (os_remove tempIndex (snd (os_remove tempLog (snd (os_calls 3 d)))))"

definition segmentIndex :: "log \<Rightarrow> u64 \<Rightarrow> nat option" where
  "segmentIndex l baseOffset =
     (let segs = log_segments l;
          index = sort_search (length segs) (\<lambda>i. seg_baseOffset (segs ! i) \<ge> baseOffset)
      in if index < length segs \<and> seg_baseOffset (segs ! index) = baseOffset then Some index else None)"

definition set_segment :: "nat \<Rightarrow> segment \<Rightarrow> log \<Rightarrow> log" where
  "set_segment i s l = l\<lparr>log_segments := (log_segments l)[i := s]\<rparr>"

text \<open>The end of \<open>compactSegment\<close>: the rewritten files take the names of the old ones.\<close>

definition compact_replace ::
  "segment \<Rightarrow> string \<Rightarrow> string \<Rightarrow> log \<Rightarrow> directory \<Rightarrow> unit res \<times> log \<times> directory" where
  "compact_replace s tempLog tempIndex l d =
     (let base = seg_baseOffset s; d0 = snd (os_calls 3 d)
      in case os_rename tempLog (log_name base) d0 of
           (Inl e, d1) \<Rightarrow> (Inl e, l, snd (os_remove tempIndex (snd (os_remove tempLog d1))))
         | (Inr _, d1) \<Rightarrow>
         case os_rename tempIndex (index_name base) d1 of
           (Inl e, d2) \<Rightarrow> (Inl e, l, snd (os_remove tempIndex d2))
         | (Inr _, d2) \<Rightarrow>
         case NewSegment base d2 of
           (Inl e, d3) \<Rightarrow> (Inl e, l, d3)
         | (Inr t, d3) \<Rightarrow>
             let rewritten = (seg_SetCompressed (seg_compressed s) t)\<lparr>seg_nextOffset := seg_nextOffset s\<rparr>
             in case segmentIndex l base of
                  None \<Rightarrow> (case seg_Close rewritten d3 of (_, _, d4) \<Rightarrow>
                             (Inl (OffsetErr ''segment no longer exists in log'' base), l, d4))
                | Some index \<Rightarrow> (Inr (), set_segment index rewritten l, d3))"

definition compactSegment ::
  "codec \<Rightarrow> nat \<Rightarrow> latest \<Rightarrow> log \<Rightarrow> directory \<Rightarrow> unit res \<times> log \<times> directory" where
  "compactSegment cdc i latestOffsets l d =
     (let s = log_segments l ! i; base = seg_baseOffset s
      in if seg_nextOffset s \<le> base then (Inr (), l, d)
         else case stat_size (seg_indexRead s) d of
           Inl e \<Rightarrow> (Inl e, l, d)
         | Inr indexSize \<Rightarrow>
         let entries = nat (indexSize div int indexEntrySize)
         in case seg_Close s d of
           (Inl e, s', d0) \<Rightarrow> (Inl e, set_segment i s' l, d0)
         | (Inr _, s', d0) \<Rightarrow>
         let l' = set_segment i s' l
         in case open_read (log_name base) d0 of
           (Inl e, d1) \<Rightarrow> (Inl e, l', d1)
         | (Inr source, d1) \<Rightarrow>
         case create_temp (format_uint (unat base) @ ''.compact-'') ''.tmp'' d1 of
           (Inl e, d2) \<Rightarrow> (Inl e, l', snd (os_call d2))
         | (Inr tempLog, d2) \<Rightarrow>
         case create_temp (format_uint (unat base) @ ''.index-'') ''.tmp'' d2 of
           (Inl e, d3) \<Rightarrow> (Inl e, l', snd (os_remove tempLog (snd (os_calls 2 d3))))
         | (Inr tempIndex, d3) \<Rightarrow>
         case compact_entries cdc s' source tempLog tempIndex latestOffsets entries entries d3 of
           (Inl e, d4) \<Rightarrow> (Inl e, l', compact_cleanup tempLog tempIndex d4)
         | (Inr _, d4) \<Rightarrow>
         case os_call d4 of
           (Inl e, d5) \<Rightarrow> (Inl e, l', compact_cleanup tempLog tempIndex d5)
         | (Inr _, d5) \<Rightarrow>
         case os_call d5 of
           (Inl e, d6) \<Rightarrow> (Inl e, l', compact_cleanup tempLog tempIndex d6)
         | (Inr _, d6) \<Rightarrow> compact_replace s' tempLog tempIndex l' d6)"

text \<open>The second loop of \<open>Compact\<close>: \<open>n\<close> inactive segments remain.\<close>

fun compact_segments ::
  "codec \<Rightarrow> nat \<Rightarrow> nat \<Rightarrow> latest \<Rightarrow> log \<Rightarrow> directory \<Rightarrow> unit res \<times> log \<times> directory" where
  "compact_segments cdc i 0 m l d = (Inr (), l, d)"
| "compact_segments cdc i (Suc n) m l d =
     (case compactSegment cdc i m l d of
        (Inl e, l', d') \<Rightarrow> (Inl (Wrap ''compact segment'' e), l', d')
      | (Inr _, l', d') \<Rightarrow> compact_segments cdc (Suc i) n m l' d')"

definition Compact :: "codec \<Rightarrow> log \<Rightarrow> directory \<Rightarrow> unit res \<times> log \<times> directory" where
  "Compact cdc l d =
     (if length (log_segments l) \<le> 1 then (Inr (), l, d)
      else case collect_segments cdc (rev (butlast (log_segments l))) d Map.empty of
        Inl e \<Rightarrow> (Inl e, l, d)
      | Inr latestOffsets \<Rightarrow>
          compact_segments cdc 0 (length (log_segments l) - 1) latestOffsets l d)"

section \<open>Retention\<close>

text \<open>
  One pass of the loop of \<open>EnforceRetention\<close> per segment: the first segment is deleted while the
  log is too large or the segment's newest message is older than the cutoff.
\<close>

fun retention_loop ::
  "int \<Rightarrow> int \<Rightarrow> int \<Rightarrow> int \<Rightarrow> segment list \<Rightarrow> directory \<Rightarrow> unit res \<times> segment list \<times> directory" where
  "retention_loop retentionBytes retentionMs cutoff totalSize (s # t # ss) d =
     (let removeForBytes = (retentionBytes > 0 \<and> totalSize > retentionBytes)
      in case (if retentionMs > 0 \<and> seg_Size s > 0
               then (case NewestTimestamp s d of
                       Inl e \<Rightarrow> Inl (Wrap ''read newest timestamp for segment'' e)
                     | Inr newestTimestamp \<Rightarrow> Inr (sint newestTimestamp < cutoff))
               else Inr False) of
           Inl e \<Rightarrow> (Inl e, s # t # ss, d)
         | Inr removeForTime \<Rightarrow>
             if \<not> removeForBytes \<and> \<not> removeForTime then (Inr (), s # t # ss, d)
             else case seg_Delete s d of
                 (Inl e, s', d') \<Rightarrow> (Inl (Wrap ''delete segment'' e), s' # t # ss, d')
               | (Inr _, s', d') \<Rightarrow>
                   retention_loop retentionBytes retentionMs cutoff (totalSize - seg_Size s) (t # ss) d')"
| "retention_loop retentionBytes retentionMs cutoff totalSize ss d = (Inr (), ss, d)"

text \<open>\<open>now.Add(-time.Duration(retentionMs) * time.Millisecond)\<close>: the product wraps at 64 bits.\<close>

definition retention_cutoff :: "i64 \<Rightarrow> int \<Rightarrow> int" where
  "retention_cutoff retentionMs now = now + sint ((- retentionMs) * 1000000)"

definition EnforceRetention ::
  "i64 \<Rightarrow> i64 \<Rightarrow> int \<Rightarrow> log \<Rightarrow> directory \<Rightarrow> unit res \<times> log \<times> directory" where
  "EnforceRetention retentionBytes retentionMs now l d =
     (if length (log_segments l) \<le> 1 then (Inr (), l, d)
      else if sint retentionBytes \<le> 0 \<and> sint retentionMs \<le> 0 then (Inr (), l, d)
      else
        let totalSize = sum_list (map seg_Size (log_segments l));
            cutoff = (if sint retentionMs > 0 then retention_cutoff retentionMs now else 0)
        in case retention_loop (sint retentionBytes) (sint retentionMs) cutoff totalSize
                  (log_segments l) d of
             (r, segs, d') \<Rightarrow> (r, l\<lparr>log_segments := segs\<rparr>, d'))"

end
