(* ===== verification/Retention.thy ===== *)
theory Retention
  imports Maintenance
begin

text \<open>
  What \<open>EnforceRetention\<close> promises: it deletes a prefix of the segments, namely the one the
  abstract rule \<open>surplus\<close> computes from the sizes and newest timestamps alone, never the active
  segment, and the log then holds exactly the messages of the other segments.
\<close>

section \<open>The retention rule\<close>

text \<open>
  A segment is summarised by its size in bytes and the timestamp of its last message. The oldest
  one goes while the total is over the byte limit or it is not empty and older than the cutoff.
\<close>

definition doomed :: "int \<Rightarrow> int \<Rightarrow> int \<Rightarrow> (int \<times> int) list \<Rightarrow> bool" where
  "doomed rb rms cutoff xs \<longleftrightarrow>
     (rb > 0 \<and> sum_list (map fst xs) > rb) \<or> (rms > 0 \<and> fst (hd xs) > 0 \<and> snd (hd xs) < cutoff)"

fun surplus :: "int \<Rightarrow> int \<Rightarrow> int \<Rightarrow> (int \<times> int) list \<Rightarrow> nat" where
  "surplus rb rms cutoff (x # y # xs) =
     (if doomed rb rms cutoff (x # y # xs) then Suc (surplus rb rms cutoff (y # xs)) else 0)"
| "surplus rb rms cutoff xs = 0"

lemma surplus_less: "xs \<noteq> [] \<Longrightarrow> surplus rb rms cutoff xs < length xs"
  by (induction rb rms cutoff xs rule: surplus.induct) auto

lemma surplus_stops:
  "xs \<noteq> [] \<Longrightarrow> Suc (surplus rb rms cutoff xs) < length xs \<Longrightarrow>
     \<not> doomed rb rms cutoff (drop (surplus rb rms cutoff xs) xs)"
  by (induction rb rms cutoff xs rule: surplus.induct) auto

lemma surplus_needed:
  "j < surplus rb rms cutoff xs \<Longrightarrow> doomed rb rms cutoff (drop j xs)"
proof (induction rb rms cutoff xs arbitrary: j rule: surplus.induct)
  case (1 rb rms cutoff x y xs)
  then show ?case by (cases j) (auto split: if_splits)
qed auto

section \<open>Deleting the oldest segment\<close>

lemma log_bytes_pos: "0 < length (log_bytes cdc c ms) \<longleftrightarrow> ms \<noteq> []"
  by (cases ms) (auto simp: log_bytes_def rec_bytes_def header_bytes_def codec_simps)

definition digest :: "codec \<Rightarrow> bool \<Rightarrow> message list \<Rightarrow> int \<times> int" where
  "digest cdc c ms = (int (length (log_bytes cdc c ms)), sint (msg_Timestamp (last ms)))"

lemma chained_head_less:
  assumes "chained (s # ss)" "t \<in> set ss" shows "seg_baseOffset s < seg_baseOffset t"
  using chained_sorted [OF assms(1)] assms(2) by simp

lemma chained_head_names:
  "chained (s # ss) \<Longrightarrow> t \<in> set ss \<Longrightarrow> seg_names t \<inter> seg_names s = {}"
  using chained_head_less by fastforce

lemma dir_exact_Delete:
  assumes ex: "dir_exact d (bases (s # t # ss))" and ch: "chained (s # t # ss)"
    and l: "lookup_file d' = (lookup_file d)(log_name (seg_baseOffset s) := None,
              index_name (seg_baseOffset s) := None)"
  shows "dir_exact d' (bases (t # ss))"
  unfolding dir_exact_def
proof (rule conjI; intro allI impI)
  fix nm b assume a: "lookup_file d' nm \<noteq> None \<and> segmentBaseOffset nm = Some b"
  then have "lookup_file d nm \<noteq> None" "nm \<noteq> log_name (seg_baseOffset s)"
    using l by (auto split: if_splits)
  then have "nm = log_name b" "b \<in> bases (s # t # ss)" "b \<noteq> seg_baseOffset s"
    using ex a unfolding dir_exact_def by blast+
  then show "nm = log_name b \<and> b \<in> bases (t # ss)" by auto
next
  fix b assume "lookup_file d' (index_name b) \<noteq> None"
  then have "lookup_file d (index_name b) \<noteq> None" using l by (auto split: if_splits)
  then obtain b' where b': "b' \<in> bases (s # t # ss)" "b \<le> b'"
    using ex unfolding dir_exact_def by blast
  show "\<exists>b' \<in> bases (t # ss). b \<le> b'"
  proof (cases "b' = seg_baseOffset s")
    case True
    then have "b \<le> seg_baseOffset t" using b' chained_head_less [OF ch, of t] by simp
    then show ?thesis by auto
  next
    case False
    then show ?thesis using b' by auto
  qed
qed

lemma seg_Delete_idle:
  assumes "sched d = []" shows "\<exists>d'. seg_Delete s d = (Inr (), seg_nil_handles s, d') \<and> sched d' = []"
proof -
  have "\<exists>d'. remove_if_exists nm d = (Inr (), d') \<and> sched d' = []" if "sched d = []" for nm d
    using that by (auto simp: remove_if_exists_def os_remove_def split: option.splits)
  then obtain d1 d2 where
    "remove_if_exists (log_name (seg_baseOffset s)) d = (Inr (), d1)"
    "remove_if_exists (index_name (seg_baseOffset s)) d1 = (Inr (), d2)" "sched d2 = []"
    using assms by metis
  then show ?thesis using seg_Close_idle [OF assms] by (simp add: seg_Delete_def)
qed

section \<open>The loop\<close>

definition segs_inv :: "codec \<Rightarrow> bool \<Rightarrow> directory \<Rightarrow> segment list \<Rightarrow> message list list \<Rightarrow> bool" where
  "segs_inv cdc c d ss mss \<longleftrightarrow> dir_wf d \<and> list_all2 (seg_inv cdc c d) ss mss \<and> chained ss
     \<and> dir_exact d (bases ss)"

lemma log_inv_segs:
  "log_inv cdc d l mss \<longleftrightarrow> log_segments l \<noteq> [] \<and> segs_inv cdc (log_compressed l) d (log_segments l) mss"
  by (auto simp: log_inv_def log_core_def segs_inv_def)

lemma segs_inv_size:
  assumes "segs_inv cdc c d (s # ss) (ms # mss)"
  shows "seg_Size s = fst (digest cdc c ms)" and "0 < seg_Size s \<Longrightarrow> ms \<noteq> []"
    and "ms \<noteq> [] \<Longrightarrow> NewestTimestamp s d = Inr (msg_Timestamp (last ms))"
  using assms NewestTimestamp_last
  by (auto simp: segs_inv_def seg_inv_def seg_repr_def seg_Size_def digest_def log_bytes_def)

lemma seg_sizes:
  "list_all2 (seg_inv cdc c d) ss mss \<Longrightarrow> map seg_Size ss = map fst (map (digest cdc c) mss)"
  by (induction rule: list_all2_induct) (auto simp: seg_inv_def seg_repr_def seg_Size_def digest_def)

lemma segs_inv_Delete:
  assumes i: "segs_inv cdc c d (s # t # ss) (ms # mss)" and dl: "seg_Delete s d = (Inr (), s', d')"
  shows "segs_inv cdc c d' (t # ss) mss"
proof -
  note st = seg_Delete_step [OF dl]
  have ch: "chained (s # t # ss)" using i by (simp add: segs_inv_def)
  have "list_all2 (seg_inv cdc c d') (t # ss) mss"
    by (rule list_all2_frame [OF _ st(2)])
      (use i chained_head_names [OF ch] in \<open>auto simp: segs_inv_def\<close>)
  moreover have "dir_exact d' (bases (t # ss))"
    by (rule dir_exact_Delete [OF _ ch]) (use i st in \<open>auto simp: segs_inv_def\<close>)
  ultimately show ?thesis using i st(4) chained_tl [OF ch] by (simp add: segs_inv_def)
qed

text \<open>The time test of the loop, on a segment that holds \<open>ms\<close>.\<close>

lemma retention_loop_step:
  assumes i: "segs_inv cdc c d (s # t # ss) (ms # mss)"
    and tot: "tot = sum_list (map seg_Size (s # t # ss))"
  shows "retention_loop rb rms cutoff tot (s # t # ss) d =
    (if doomed rb rms cutoff (map (digest cdc c) (ms # mss))
     then (case seg_Delete s d of
             (Inl e, s', d') \<Rightarrow> (Inl (Wrap ''delete segment'' e), s' # t # ss, d')
           | (Inr _, s', d') \<Rightarrow> retention_loop rb rms cutoff (tot - seg_Size s) (t # ss) d')
     else (Inr (), s # t # ss, d))"
proof -
  note sz = segs_inv_size [OF i]
  have "map seg_Size (s # t # ss) = map fst (map (digest cdc c) (ms # mss))"
    using i unfolding segs_inv_def by (intro seg_sizes) blast
  then have tot': "tot = sum_list (map fst (map (digest cdc c) (ms # mss)))" using tot by simp
  have time: "(if rms > 0 \<and> seg_Size s > 0
       then (case NewestTimestamp s d of
               Inl e \<Rightarrow> Inl (Wrap ''read newest timestamp for segment'' e)
             | Inr ts \<Rightarrow> Inr (sint ts < cutoff))
       else Inr False)
     = (Inr (rms > 0 \<and> fst (digest cdc c ms) > 0 \<and> snd (digest cdc c ms) < cutoff) :: bool res)"
    using sz by (auto simp: digest_def log_bytes_pos)
  have del: "doomed rb rms cutoff (map (digest cdc c) (ms # mss)) \<longleftrightarrow> rb > 0 \<and> tot > rb
      \<or> rms > 0 \<and> fst (digest cdc c ms) > 0 \<and> snd (digest cdc c ms) < cutoff"
    using tot' by (simp add: doomed_def)
  show ?thesis
    unfolding retention_loop.simps Let_def time del by auto
qed

lemma retention_loop_spec:
  assumes "segs_inv cdc c d ss mss" "tot = sum_list (map seg_Size ss)"
    "retention_loop rb rms cutoff tot ss d = (Inr (), ss', d')"
    "k = surplus rb rms cutoff (map (digest cdc c) mss)"
  shows "ss' = drop k ss \<and> segs_inv cdc c d' ss' (drop k mss)"
  using assms
proof (induction ss arbitrary: d mss tot k)
  case Nil
  then show ?case by (auto simp: segs_inv_def)
next
  case (Cons s ss)
  obtain ms mss1 where m: "mss = ms # mss1" using Cons.prems(1) by (auto simp: segs_inv_def list_all2_Cons1)
  show ?case
  proof (cases ss)
    case Nil
    then show ?thesis using Cons.prems m by (auto simp: segs_inv_def)
  next
    case ss: (Cons t ss1)
    obtain ms2 mss2 where m1: "mss1 = ms2 # mss2"
      using Cons.prems(1) m ss by (auto simp: segs_inv_def list_all2_Cons1)
    note st = retention_loop_step [OF Cons.prems(1) [unfolded m ss] Cons.prems(2) [unfolded ss], of rb rms cutoff]
    show ?thesis
    proof (cases "doomed rb rms cutoff (map (digest cdc c) mss)")
      case False
      then show ?thesis using Cons.prems m m1 ss st by simp
    next
      case True
      obtain r1 s1 d1 where dl: "seg_Delete s d = (r1, s1, d1)" by (metis prod.collapse)
      have r1: "r1 = Inr ()" and rest: "retention_loop rb rms cutoff (tot - seg_Size s) ss d1 = (Inr (), ss', d')"
        using Cons.prems(3) True st dl m ss by (cases r1; simp)+
      have inv: "segs_inv cdc c d1 ss mss1"
        using segs_inv_Delete [OF _ dl [unfolded r1]] Cons.prems(1) m ss by simp
      show ?thesis
        using Cons.IH [OF inv _ rest refl] Cons.prems(2,4) True m m1 by auto
    qed
  qed
qed

lemma retention_loop_idle:
  assumes "segs_inv cdc c d ss mss" "tot = sum_list (map seg_Size ss)" "sched d = []"
  shows "\<exists>ss' d'. retention_loop rb rms cutoff tot ss d = (Inr (), ss', d')
    \<and> sched d' = [] \<and> subdirs d' = subdirs d"
  using assms
proof (induction ss arbitrary: d mss tot)
  case (Cons s ss)
  obtain ms mss1 where m: "mss = ms # mss1" using Cons.prems(1) by (auto simp: segs_inv_def list_all2_Cons1)
  show ?case
  proof (cases ss)
    case ss: (Cons t ss1)
    obtain d1 where dl: "seg_Delete s d = (Inr (), seg_nil_handles s, d1)" "sched d1 = []"
      using seg_Delete_idle [OF Cons.prems(3)] by blast
    have inv: "segs_inv cdc c d1 ss mss1"
      using segs_inv_Delete [OF _ dl(1)] Cons.prems(1) m ss by simp
    show ?thesis
      using retention_loop_step [OF Cons.prems(1) [unfolded m ss] Cons.prems(2) [unfolded ss], of rb rms cutoff]
        Cons.IH [OF inv _ dl(2)] Cons.prems(2,3) dl ss seg_Delete_step(3) [OF dl(1)] by auto
  qed (use Cons.prems(3) in simp)
qed simp

section \<open>EnforceRetention\<close>

definition retention_rule :: "codec \<Rightarrow> i64 \<Rightarrow> i64 \<Rightarrow> int \<Rightarrow> bool \<Rightarrow> message list list \<Rightarrow> nat" where
  "retention_rule cdc rb rms now c mss =
     surplus (sint rb) (sint rms) (retention_cutoff rms now) (map (digest cdc c) mss)"

lemma surplus_cutoff_unused: "rms \<le> 0 \<Longrightarrow> surplus rb rms a xs = surplus rb rms b xs"
  by (induction rb rms a xs rule: surplus.induct) (auto simp: doomed_def)

lemma surplus_none: "rb \<le> 0 \<Longrightarrow> rms \<le> 0 \<Longrightarrow> surplus rb rms a xs = 0"
  by (induction rb rms a xs rule: surplus.induct) (auto simp: doomed_def)

lemma surplus_single: "length xs \<le> 1 \<Longrightarrow> surplus rb rms a xs = 0"
  by (induction rb rms a xs rule: surplus.induct) auto

lemma EnforceRetention_spec:
  assumes i: "log_inv cdc d l mss" and e: "EnforceRetention rb rms now l d = (Inr (), l', d')"
    and k: "k = retention_rule cdc rb rms now (log_compressed l) mss"
  shows "k < length mss" and "l' = l\<lparr>log_segments := drop k (log_segments l)\<rparr>"
    and "log_inv cdc d' l' (drop k mss)"
proof -
  let ?ss = "log_segments l" and ?tot = "sum_list (map seg_Size (log_segments l))"
  have si: "segs_inv cdc (log_compressed l) d ?ss mss" and ne: "?ss \<noteq> []"
    using i by (auto simp: log_inv_segs)
  have len: "length ?ss = length mss" using si by (auto simp: segs_inv_def list_all2_lengthD)
  then have "mss \<noteq> []" using ne by auto
  then have kl: "k < length mss"
    using surplus_less [of "map (digest cdc (log_compressed l)) mss"] k
    by (simp add: retention_rule_def)
  then show "k < length mss" .
  have "l' = l\<lparr>log_segments := drop k ?ss\<rparr> \<and> segs_inv cdc (log_compressed l) d' (log_segments l') (drop k mss)"
  proof (cases "length ?ss \<le> 1 \<or> sint rb \<le> 0 \<and> sint rms \<le> 0")
    case True
    then have "k = 0" using k len by (auto simp: retention_rule_def surplus_single surplus_none)
    then show ?thesis using True e si by (auto simp: EnforceRetention_def split: if_splits)
  next
    case False
    define cut where "cut = (if sint rms > 0 then retention_cutoff rms now else 0)"
    obtain r ss' d1 where lp: "retention_loop (sint rb) (sint rms) cut ?tot ?ss d = (r, ss', d1)"
      by (metis prod.collapse)
    have res: "r = Inr ()" "l' = l\<lparr>log_segments := ss'\<rparr>" "d' = d1"
      using e False lp by (auto simp: EnforceRetention_def cut_def Let_def split: if_splits)
    have "k = surplus (sint rb) (sint rms) cut (map (digest cdc (log_compressed l)) mss)"
      using k surplus_cutoff_unused by (auto simp: retention_rule_def cut_def)
    then show ?thesis using retention_loop_spec [OF si refl lp [unfolded res(1)]] res by auto
  qed
  then show "l' = l\<lparr>log_segments := drop k ?ss\<rparr>" "log_inv cdc d' l' (drop k mss)"
    using kl len by (auto simp: log_inv_segs)
qed

lemma EnforceRetention_idle:
  assumes i: "log_inv cdc d l mss" and "sched d = []"
  shows "\<exists>l' d'. EnforceRetention rb rms now l d = (Inr (), l', d') \<and> sched d' = [] \<and> subdirs d' = subdirs d"
proof -
  have si: "segs_inv cdc (log_compressed l) d (log_segments l) mss" using i by (simp add: log_inv_segs)
  show ?thesis
    using retention_loop_idle [OF si refl assms(2), of "sint rb" "sint rms"
        "if sint rms > 0 then retention_cutoff rms now else 0"] assms(2)
    by (auto simp: EnforceRetention_def Let_def)
qed


lemma EnforceRetention_bounded:
  assumes i: "log_inv cdc d l mss" and e: "EnforceRetention rb rms now l d = (Inr (), l', d')"
    and rb: "0 < sint rb"
  shows "length (log_segments l') = 1 \<or> sum_list (map seg_Size (log_segments l')) \<le> sint rb"
proof -
  define k where "k = retention_rule cdc rb rms now (log_compressed l) mss"
  let ?ds = "map (digest cdc (log_compressed l)) mss"
  note spec = EnforceRetention_spec [OF i e k_def]
  have c: "log_compressed l' = log_compressed l" using spec(2) by simp
  have la: "list_all2 (seg_inv cdc (log_compressed l) d') (log_segments l') (drop k mss)"
    using spec(3) c by (simp add: log_inv_def log_core_def)
  then have len: "length (log_segments l') = length mss - k"
    by (simp add: list_all2_lengthD)
  have sz: "map seg_Size (log_segments l') = map fst (drop k ?ds)"
    using seg_sizes [OF la] by (simp add: drop_map)
  show ?thesis
  proof (cases "Suc k < length mss")
    case True
    then have "\<not> doomed (sint rb) (sint rms) (retention_cutoff rms now) (drop k ?ds)"
      using surplus_stops [of ?ds "sint rb" "sint rms" "retention_cutoff rms now"]
      by (cases "mss = []") (simp_all add: k_def retention_rule_def)
    then show ?thesis using rb sz by (simp add: doomed_def not_less)
  next
    case False
    then show ?thesis using len spec(1) by auto
  qed
qed

end
