(* ===== verification/Compaction.thy ===== *)
theory Compaction
  imports Retention
begin

text \<open>
  What \<open>Compact\<close> does on a log that satisfies the invariant. Its first pass computes the latest
  offset of every key of the inactive segments. Its second pass fails: \<open>compactSegment\<close> closes
  the segment, which clears its index handle, and then reads the index through that handle. So
  compacting a log of several segments returns an error, rewrites nothing and leaves the oldest
  segment closed.
\<close>

section \<open>The first pass\<close>

definition last_offset :: "message list \<Rightarrow> latest" where
  "last_offset ms = map_of (rev (map (\<lambda>m. (msg_Key m, int64 (msg_Offset m))) ms))"

lemma last_offset_append: "last_offset (xs @ ys) = last_offset xs ++ last_offset ys"
  by (simp add: last_offset_def)

lemma last_offset_single: "last_offset [m] = [msg_Key m \<mapsto> int64 (msg_Offset m)]"
  by (simp add: last_offset_def)

text \<open>It is the offset of the last message with that key.\<close>

lemma last_offset_Some:
  "last_offset ms k = Some off \<longleftrightarrow>
     (\<exists>xs m ys. ms = xs @ m # ys \<and> msg_Key m = k \<and> int64 (msg_Offset m) = off
        \<and> (\<forall>y \<in> set ys. msg_Key y \<noteq> k))"
proof (induction ms rule: rev_induct)
  case Nil
  then show ?case by (simp add: last_offset_def)
next
  case (snoc x ms)
  show ?case
  proof (cases "msg_Key x = k")
    case True
    then show ?thesis
      by (fastforce simp: last_offset_append last_offset_single map_add_Some_iff
          append_eq_append_conv2 Cons_eq_append_conv append_eq_Cons_conv)
  next
    case False
    have "(\<exists>xs m ys. ms @ [x] = xs @ m # ys \<and> msg_Key m = k \<and> int64 (msg_Offset m) = off
          \<and> (\<forall>y \<in> set ys. msg_Key y \<noteq> k))
        \<longleftrightarrow> (\<exists>xs m ys. ms = xs @ m # ys \<and> msg_Key m = k \<and> int64 (msg_Offset m) = off
          \<and> (\<forall>y \<in> set ys. msg_Key y \<noteq> k))" (is "?L = ?R")
    proof
      assume ?L
      then obtain xs m ys where *: "ms @ [x] = xs @ m # ys" "msg_Key m = k"
        "int64 (msg_Offset m) = off" "\<forall>y \<in> set ys. msg_Key y \<noteq> k" by blast
      have "ys \<noteq> []" using * False by auto
      then have "ms = xs @ m # butlast ys" using *(1) by (metis butlast_append butlast_snoc butlast.simps(2) list.distinct(1))
      moreover have "\<forall>y \<in> set (butlast ys). msg_Key y \<noteq> k" using *(4) in_set_butlastD by fast
      ultimately show ?R using *(2,3) by blast
    next
      assume ?R
      then obtain xs m ys where "ms = xs @ m # ys" "msg_Key m = k"
        "int64 (msg_Offset m) = off" "\<forall>y \<in> set ys. msg_Key y \<noteq> k" by blast
      then have "ms @ [x] = xs @ m # (ys @ [x])" "\<forall>y \<in> set (ys @ [x]). msg_Key y \<noteq> k"
        using False by auto
      then show ?L using \<open>msg_Key m = k\<close> \<open>int64 (msg_Offset m) = off\<close> by blast
    qed
    then show ?thesis using False snoc
      by (auto simp: last_offset_append last_offset_single map_add_Some_iff)
  qed
qed

lemma collect_entries_spec:
  assumes r: "seg_repr cdc d s ms" and wf: "dir_wf d" and cdc: "codec_ok cdc"
  shows "n \<le> length ms \<Longrightarrow> collect_entries cdc s d n m = Inr (last_offset (take n ms) ++ m)"
proof (induction n arbitrary: m)
  case 0
  then show ?case by (simp add: last_offset_def)
next
  case (Suc n)
  let ?m = "ms ! n"
  have e: "\<exists>p. readIndexEntry s d (int n * int indexEntrySize) = Inr (msg_Offset ?m, p)"
    using readIndexEntry_nat [OF seg_repr_index [OF r wf], of n] Suc.prems
    by (simp add: index_from_nth indexEntrySize_def)
  have rd: "seg_Read cdc (msg_Offset ?m) s d = Inr ?m" using seg_Read_nth [OF r wf cdc] Suc.prems by simp
  let ?m' = "if m (msg_Key ?m) = None then m(msg_Key ?m \<mapsto> int64 (msg_Offset ?m)) else m"
  have "last_offset (take n ms) ++ ?m' = last_offset (take (Suc n) ms) ++ m"
    using Suc.prems
    by (auto simp: take_Suc_conv_app_nth last_offset_append last_offset_single map_add_def
        intro!: ext split: option.splits)
  then show ?case using Suc e rd by auto
qed

lemma collectLatestOffsets_spec:
  assumes r: "seg_repr cdc d s ms" and wf: "dir_wf d" and cdc: "codec_ok cdc"
  shows "collectLatestOffsets cdc s d m = Inr (last_offset ms ++ m)"
proof -
  have "stat_size (seg_indexRead s) d = Inr (16 * int (length ms))"
    using r by (auto simp: stat_size_def seg_repr_def seg_open_def seg_files_def length_index_bytes)
  then show ?thesis
    using collect_entries_spec [OF assms, of "length ms"]
    by (simp add: collectLatestOffsets_def indexEntrySize_def)
qed

lemma collect_segments_spec:
  assumes "list_all2 (seg_inv cdc c d) ss mss" "dir_wf d" "codec_ok cdc"
  shows "collect_segments cdc (rev ss) d m = Inr (last_offset (concat mss) ++ m)"
  using assms(1)
proof (induction ss arbitrary: mss m rule: rev_induct)
  case Nil
  then show ?case by (simp add: last_offset_def)
next
  case (snoc s ss)
  obtain mss1 ms where m: "mss = mss1 @ [ms]" "list_all2 (seg_inv cdc c d) ss mss1" "seg_inv cdc c d s ms"
    using snoc.prems by (auto simp: list_all2_append1 list_all2_Cons1)
  then have "collectLatestOffsets cdc s d m = Inr (last_offset ms ++ m)"
    using collectLatestOffsets_spec assms(2,3) by (auto simp: seg_inv_def)
  then show ?case using snoc.IH [OF m(2)] m(1) by (simp add: last_offset_append)
qed

section \<open>The second pass\<close>

lemma compact_entry_closed:
  "seg_indexRead s = None \<Longrightarrow> compact_entry cdc s src tlog tidx m entries i d = (Inl ErrInvalid, d)"
  by (simp add: compact_entry_def readIndexEntry_def read_at_def)

lemma compact_entries_closed:
  "seg_indexRead s = None \<Longrightarrow> 0 < n \<Longrightarrow>
     compact_entries cdc s src tlog tidx m entries n d = (Inl ErrInvalid, d)"
  by (cases n) (simp_all add: compact_entry_closed)

lemma os_remove_keeps:
  "lookup_file d0 nm = None \<Longrightarrow> keeps_contents d0 d \<Longrightarrow> keeps_contents d0 (snd (os_remove nm d))"
proof -
  assume n: "lookup_file d0 nm = None" and k: "keeps_contents d0 d"
  obtain r d' where c: "os_remove nm d = (r, d')" by fastforce
  have "lookup_file d' = lookup_file d \<or> lookup_file d' = (lookup_file d)(nm := None)"
    using os_remove_step [OF c] by (cases r) (auto simp: dir_step_def)
  then show ?thesis using n k c by (auto simp: keeps_contents_def map_le_def)
qed

lemma same_keeps: "keeps_contents d0 d \<Longrightarrow> dir_step d d' (lookup_file d) \<Longrightarrow> keeps_contents d0 d'"
  by (simp add: keeps_contents_def dir_step_def)

lemma os_calls_keeps: "keeps_contents d0 d \<Longrightarrow> keeps_contents d0 (snd (os_calls n d))"
  by (metis os_calls_step prod.collapse same_keeps)

lemma os_call_keeps: "keeps_contents d0 d \<Longrightarrow> keeps_contents d0 (snd (os_call d))"
  by (metis os_call_step prod.collapse same_keeps)

lemma create_temp_keeps:
  assumes "create_temp p x d = (r, d')" "keeps_contents d0 d"
  shows "keeps_contents d0 d'" and "r = Inr nm \<Longrightarrow> lookup_file d0 nm = None"
proof -
  have le: "lookup_file d0 \<subseteq>\<^sub>m lookup_file d" using assms(2) by (simp add: keeps_contents_def)
  have n: "lookup_file d0 nm = None" if "r = Inr nm" for nm
    using create_temp_step [OF assms(1)] that le by (metis domIff map_le_implies_dom_le subsetD)
  then show "r = Inr nm \<Longrightarrow> lookup_file d0 nm = None" .
  show "keeps_contents d0 d'"
  proof (cases r)
    case (Inl e)
    then show ?thesis using create_temp_step [OF assms(1)] le by (simp add: keeps_contents_def dir_step_def)
  next
    case (Inr nm)
    then show ?thesis
      using create_temp_step [OF assms(1)] le n [OF Inr]
      by (auto simp: keeps_contents_def dir_step_def map_le_def)
  qed
qed

lemma compactSegment_fails:
  assumes i: "seg_inv cdc c d s ms" and ne: "ms \<noteq> []" and s: "log_segments l ! i = s"
    and r: "compactSegment cdc i m l d = (r, l', d')"
  shows "(\<exists>e. r = Inl e) \<and> l' = set_segment i (seg_nil_handles s) l \<and> keeps_contents d d'"
proof -
  have st: "stat_size (seg_indexRead s) d = Inr (16 * int (length ms))"
    using i by (auto simp: stat_size_def seg_inv_def seg_repr_def seg_open_def seg_files_def length_index_bytes)
  have lt: "\<not> seg_nextOffset s \<le> seg_baseOffset s"
    using i ne seg_dense_bounds(3) by (auto simp: seg_inv_def)
  let ?b = "format_uint (unat (seg_baseOffset s))"
  obtain r0 s0 d0 where c0: "seg_Close s d = (r0, s0, d0)" by (metis prod.collapse)
  obtain r1 d1 where c1: "open_read (log_name (seg_baseOffset s)) d0 = (r1, d1)" by fastforce
  obtain r2 d2 where c2: "create_temp (?b @ ''.compact-'') ''.tmp'' d1 = (r2, d2)" by fastforce
  obtain r3 d3 where c3: "create_temp (?b @ ''.index-'') ''.tmp'' d2 = (r3, d3)" by fastforce
  have s0: "s0 = seg_nil_handles s" and k0: "keeps_contents d d0"
    using seg_Close_step [OF c0] by (auto simp: keeps_contents_def dir_step_def)
  have k1: "keeps_contents d d1" using open_read_step [OF c1] k0 same_keeps by blast
  note k2 = create_temp_keeps [OF c2 k1]
  note k3 = create_temp_keeps [OF c3 k2(1)]
  have ce: "compact_entries cdc s0 src tlog tidx m (length ms) (length ms) d3 = (Inl ErrInvalid, d3)" for src tlog tidx
    using ne by (intro compact_entries_closed) (auto simp: s0 seg_nil_handles_def)
  show ?thesis
  proof (cases r0)
    case (Inl e)
    then show ?thesis using r s st lt c0 s0 k0 by (auto simp: compactSegment_def Let_def)
  next
    case r0: (Inr _)
    show ?thesis
    proof (cases r1)
      case (Inl e)
      then show ?thesis using r s st lt c0 s0 c1 k1 r0 by (auto simp: compactSegment_def Let_def)
    next
      case r1: (Inr src)
      show ?thesis
      proof (cases r2)
        case (Inl e)
        then show ?thesis
          using r s st lt c0 s0 c1 c2 os_call_keeps [OF k2(1)] r0 r1
          by (auto simp: compactSegment_def Let_def)
      next
        case r2: (Inr tlog)
        note rm = os_remove_keeps [OF k2(2) [OF r2]]
        show ?thesis
        proof (cases r3)
          case (Inl e)
          then show ?thesis
            using r s st lt c0 s0 c1 c2 c3 rm [OF os_calls_keeps [OF k3(1), of 2]] r0 r1 r2
            by (auto simp: compactSegment_def Let_def)
        next
          case r3: (Inr tidx)
          have "keeps_contents d (compact_cleanup tlog tidx d3)"
            unfolding compact_cleanup_def
            by (rule os_remove_keeps [OF k3(2) [OF r3] rm [OF os_calls_keeps [OF k3(1)]]])
          then show ?thesis
            using r s st lt c0 s0 c1 c2 c3 ce [of src tlog tidx] r0 r1 r2 r3
            by (auto simp: compactSegment_def Let_def indexEntrySize_def)
        qed
      qed
    qed
  qed
qed

section \<open>Compact\<close>

lemma inactive_nonempty:
  assumes "log_core cdc d l mss" "Suc i < length (log_segments l)"
  shows "mss ! i \<noteq> []"
proof
  assume e: "mss ! i = []"
  have "seg_inv cdc (log_compressed l) d (log_segments l ! i) (mss ! i)"
    using log_core_nth(1) [OF assms(1)] assms(2) by simp
  then have "seg_nextOffset (log_segments l ! i) = seg_baseOffset (log_segments l ! i)"
    using e seg_dense_next by (fastforce simp: seg_inv_def)
  moreover have "chained (log_segments l)" using assms(1) by (simp add: log_core_def)
  ultimately show False using chained_nth [OF _ assms(2)] by simp
qed

lemma Compact_single: "length (log_segments l) \<le> 1 \<Longrightarrow> Compact cdc l d = (Inr (), l, d)"
  by (simp add: Compact_def)

lemma Compact_fails:
  assumes i: "log_core cdc d l mss" and cdc: "codec_ok cdc" and two: "1 < length (log_segments l)"
    and r: "Compact cdc l d = (r, l', d')"
  shows "\<exists>e. r = Inl (Wrap ''compact segment'' e)"
    and "l' = set_segment 0 (seg_nil_handles (log_segments l ! 0)) l" and "keeps_contents d d'"
proof -
  have wf: "dir_wf d" and l2: "list_all2 (seg_inv cdc (log_compressed l) d) (log_segments l) mss"
    using i by (auto simp: log_core_def)
  have "list_all2 (seg_inv cdc (log_compressed l) d) (butlast (log_segments l)) (butlast mss)"
    using l2 by (simp add: list_all2_conv_all_nth nth_butlast)
  from collect_segments_spec [OF this wf cdc]
  obtain m where m: "collect_segments cdc (rev (butlast (log_segments l))) d Map.empty = Inr m" by simp
  obtain r1 l1 d1 where c: "compactSegment cdc 0 m l d = (r1, l1, d1)" by (metis prod.collapse)
  have f: "(\<exists>e. r1 = Inl e) \<and> l1 = set_segment 0 (seg_nil_handles (log_segments l ! 0)) l
      \<and> keeps_contents d d1"
    by (rule compactSegment_fails [OF log_core_nth(1) [OF i] _ refl c])
      (use two inactive_nonempty [OF i, of 0] in auto)
  have "length (log_segments l) - 1 = Suc (length (log_segments l) - 2)" using two by simp
  then have "compact_segments cdc 0 (length (log_segments l) - 1) m l d
      = (case r1 of Inl e \<Rightarrow> (Inl (Wrap ''compact segment'' e), l1, d1)
         | Inr _ \<Rightarrow> compact_segments cdc (Suc 0) (length (log_segments l) - 2) m l1 d1)"
    using c by (cases r1) simp_all
  then have "\<exists>e. r = Inl (Wrap ''compact segment'' e) \<and> l' = l1 \<and> d' = d1"
    using r two m f by (auto simp: Compact_def)
  then show "\<exists>e. r = Inl (Wrap ''compact segment'' e)"
    "l' = set_segment 0 (seg_nil_handles (log_segments l ! 0)) l" "keeps_contents d d'"
    using f by blast+
qed

text \<open>Afterwards nothing in the oldest segment can be read.\<close>

lemma Compact_unreadable:
  assumes i: "log_core cdc d l mss" and cdc: "codec_ok cdc" and two: "1 < length (log_segments l)"
    and r: "Compact cdc l d = (r, l', d')" and m: "m \<in> set (mss ! 0)"
  shows "\<exists>e. log_Read cdc (msg_Offset m) l' d' = Inl e"
proof -
  let ?s = "log_segments l ! 0"
  have l': "log_segments l' = (log_segments l)[0 := seg_nil_handles ?s]"
    using Compact_fails(2) [OF i cdc two r] by (simp add: set_segment_def)
  have si: "seg_inv cdc (log_compressed l) d ?s (mss ! 0)"
    by (rule log_core_nth(1) [OF i]) (use two in linarith)
  have ch: "chained (log_segments l)" using i by (simp add: log_core_def)
  have base: "seg_baseOffset (log_segments l' ! j) = seg_baseOffset (log_segments l ! j)" for j
    by (cases "j = 0 \<and> log_segments l \<noteq> []") (auto simp: l' seg_nil_handles_def)
  have same: "segmentForOffset l' off = segmentForOffset l off" for off
  proof -
    have "length (log_segments l') = length (log_segments l)" "(log_segments l' = []) = (log_segments l = [])"
      by (auto simp: l')
    then show ?thesis by (simp add: segmentForOffset_def seg_BaseOffset_def Let_def base)
  qed
  have st: "log_start l \<le> msg_Offset m"
    using seg_inv_offsets(1) [OF si m] two by (cases "log_segments l") (auto simp: log_start_def)
  have lt: "msg_Offset m < seg_baseOffset (log_segments l ! 1)"
    using seg_inv_offsets(2) [OF si m] chained_nth [OF ch, of 0] two by simp
  have "log_segments l \<noteq> []" using two by auto
  then obtain i where fo: "segmentForOffset l (msg_Offset m) = Inr i" "i < length (log_segments l)"
    and le: "seg_baseOffset (log_segments l ! i) \<le> msg_Offset m"
    by (rule segmentForOffset_spec [OF ch _ st])
  have "i = 0"
  proof (rule ccontr)
    assume "i \<noteq> 0"
    then have "seg_baseOffset (log_segments l ! 1) \<le> seg_baseOffset (log_segments l ! i)"
      using chained_base_mono [OF ch, of 1 i] fo(2) by (cases "i = 1") auto
    then show False using le lt by simp
  qed
  then have "log_Read cdc (msg_Offset m) l' d' = seg_Read cdc (msg_Offset m) (seg_nil_handles ?s) d'"
    using fo by (simp add: log_Read_def same l')
  then show ?thesis by (simp add: seg_Read_closed seg_nil_handles_def)
qed


lemma Compact_scan:
  assumes "log_inv cdc d l mss" "codec_ok cdc"
  shows "collect_segments cdc (rev (butlast (log_segments l))) d Map.empty
    = Inr (last_offset (concat (butlast mss)))"
proof -
  have la: "list_all2 (seg_inv cdc (log_compressed l) d) (log_segments l) mss" and wf: "dir_wf d"
    using assms(1) by (auto simp: log_inv_def log_core_def)
  have "list_all2 (seg_inv cdc (log_compressed l) d) (butlast (log_segments l)) (butlast mss)"
    using la by (simp add: butlast_conv_take list_all2_lengthD list_all2_takeI)
  then show ?thesis using collect_segments_spec [OF _ wf assms(2), of _ _ _ Map.empty] by simp
qed

end
