(* ===== verification/RaftFSM.thy ===== *)
theory RaftFSM
  imports LogAccess
begin

text \<open>
  \<open>src/internal/raft/fsm.go\<close>: the binary frames of replicated commands and the state machine
  that applies them. \<open>LogProvider\<close> is the record \<open>provider\<close>: \<open>GetPartition\<close> and, because it
  returns a pointer, how the log behind that pointer is read and updated in the provider's state.
  The wall clock is an argument of \<open>Apply\<close>.
\<close>

section \<open>Frames\<close>

definition CmdTypeSingle :: byte where "CmdTypeSingle = 1"
definition CmdTypeBatch :: byte where "CmdTypeBatch = 2"

record BatchRecord =
  br_Key :: bytes
  br_Value :: bytes

definition frame_head :: "byte \<Rightarrow> string \<Rightarrow> int \<Rightarrow> bytes" where
  "frame_head cmd topic part =
     cmd # PutUint16 (word_of_nat (length topic)) @ bytes_of_string topic
       @ PutUint32 (word_of_int part)"

definition frame_kv :: "bytes \<Rightarrow> bytes \<Rightarrow> bytes" where
  "frame_kv key val =
     PutUint32 (word_of_nat (length key)) @ key @ PutUint32 (word_of_nat (length val)) @ val"

definition EncodeCommand :: "string \<Rightarrow> int \<Rightarrow> bytes \<Rightarrow> bytes \<Rightarrow> bytes" where
  "EncodeCommand topic part key val = frame_head CmdTypeSingle topic part @ frame_kv key val"

definition EncodeBatchCommand :: "string \<Rightarrow> int \<Rightarrow> BatchRecord list \<Rightarrow> bytes" where
  "EncodeBatchCommand topic part records =
     frame_head CmdTypeBatch topic part @ PutUint32 (word_of_nat (length records))
       @ concat (map (\<lambda>r. frame_kv (br_Key r) (br_Value r)) records)"

section \<open>Apply\<close>

record 'st provider =
  prov_get :: "string \<Rightarrow> int \<Rightarrow> 'st \<Rightarrow> unit res \<times> 'st"
  prov_log :: "string \<Rightarrow> int \<Rightarrow> 'st \<Rightarrow> log \<times> directory"
  prov_set :: "string \<Rightarrow> int \<Rightarrow> log \<times> directory \<Rightarrow> 'st \<Rightarrow> 'st"

datatype response = RespOffset u64 | RespOffsets "u64 list" | RespError error

text \<open>
  The key and value at \<open>offset\<close> with the three length checks, and the offset after them;
  \<open>err\<close> builds the error from the text of the failed check.
\<close>

definition read_kv :: "(string \<Rightarrow> error) \<Rightarrow> bytes \<Rightarrow> nat \<Rightarrow> (bytes \<times> bytes \<times> nat) res" where
  "read_kv err data offset =
     (if length data < offset + 4 then Inl (err ''key length truncated'')
      else
        let keyLen = unat (Uint32 (drop offset data)); offset1 = offset + 4
        in if length data < offset1 + keyLen + 4 then Inl (err ''key payload truncated'')
           else
             let key = take keyLen (drop offset1 data); offset2 = offset1 + keyLen;
                 valLen = unat (Uint32 (drop offset2 data)); offset3 = offset2 + 4
             in if length data < offset3 + valLen then Inl (err ''value payload truncated'')
                else Inr (key, take valLen (drop offset3 data), offset3 + valLen))"

definition single_err :: "string \<Rightarrow> error" where
  "single_err what = Msg (''malformed single command: '' @ what)"

definition batch_err :: "nat \<Rightarrow> string \<Rightarrow> error" where
  "batch_err i what = NumErr (''malformed batch record: '' @ what) (int i)"

text \<open>The loop over the records of a batch: \<open>n\<close> remain, the next is record \<open>i\<close>.\<close>

fun read_records :: "i64 \<Rightarrow> bytes \<Rightarrow> nat \<Rightarrow> nat \<Rightarrow> nat \<Rightarrow> log_record list res" where
  "read_records now data 0 i offset = Inr []"
| "read_records now data (Suc n) i offset =
     (case read_kv (batch_err i) data offset of
        Inl e \<Rightarrow> Inl e
      | Inr (key, val, offset') \<Rightarrow>
          (case read_records now data n (Suc i) offset' of
             Inl e \<Rightarrow> Inl e
           | Inr rs \<Rightarrow> Inr (\<lparr>rec_Timestamp = now, rec_Key = key, rec_Value = val\<rparr> # rs)))"

text \<open>The append that ends each case, on the log the provider returned.\<close>

definition append_one ::
  "codec \<Rightarrow> 'st provider \<Rightarrow> i64 \<Rightarrow> string \<Rightarrow> int \<Rightarrow> bytes \<Rightarrow> bytes \<Rightarrow> 'st \<Rightarrow> response \<times> 'st" where
  "append_one cdc prov now topic part key val st =
     (case prov_log prov topic part st of (l, d) \<Rightarrow>
      case log_Append cdc now key val l d of
        (Inl e, l', d') \<Rightarrow>
          (RespError (Wrap ''append to partition'' e), prov_set prov topic part (l', d') st)
      | (Inr off, l', d') \<Rightarrow> (RespOffset off, prov_set prov topic part (l', d') st))"

definition append_many ::
  "codec \<Rightarrow> 'st provider \<Rightarrow> string \<Rightarrow> int \<Rightarrow> log_record list \<Rightarrow> 'st \<Rightarrow> response \<times> 'st" where
  "append_many cdc prov topic part records st =
     (case prov_log prov topic part st of (l, d) \<Rightarrow>
      case log_AppendBatch cdc records l d of
        ((_, Some e), l', d') \<Rightarrow>
          (RespError (Wrap ''append batch to partition'' e), prov_set prov topic part (l', d') st)
      | ((offs, None), l', d') \<Rightarrow> (RespOffsets offs, prov_set prov topic part (l', d') st))"

definition apply_single ::
  "codec \<Rightarrow> 'st provider \<Rightarrow> i64 \<Rightarrow> string \<Rightarrow> int \<Rightarrow> bytes \<Rightarrow> nat \<Rightarrow> 'st \<Rightarrow> response \<times> 'st" where
  "apply_single cdc prov now topic part data offset st =
     (case read_kv single_err data offset of
        Inl e \<Rightarrow> (RespError e, st)
      | Inr (key, val, _) \<Rightarrow> append_one cdc prov now topic part key val st)"

definition apply_batch ::
  "codec \<Rightarrow> 'st provider \<Rightarrow> i64 \<Rightarrow> string \<Rightarrow> int \<Rightarrow> bytes \<Rightarrow> nat \<Rightarrow> 'st \<Rightarrow> response \<times> 'st" where
  "apply_batch cdc prov now topic part data offset st =
     (if length data < offset + 4
      then (RespError (Msg ''malformed batch command: count truncated''), st)
      else
        case read_records now data (unat (Uint32 (drop offset data))) 0 (offset + 4) of
          Inl e \<Rightarrow> (RespError e, st)
        | Inr records \<Rightarrow> append_many cdc prov topic part records st)"

definition Apply :: "codec \<Rightarrow> 'st provider \<Rightarrow> i64 \<Rightarrow> bytes \<Rightarrow> 'st \<Rightarrow> response \<times> 'st" where
  "Apply cdc prov now data st =
     (if length data < 7 then (RespError (Msg ''malformed raft command: payload too short''), st)
      else
        let cmdType = hd data;
            topicLen = unat (Uint16 (drop 1 data))
        in if length data < 3 + topicLen + 4
           then (RespError (Msg ''malformed raft command: topic truncated''), st)
           else
             let topic0 = string_of_bytes (take topicLen (drop 3 data));
                 topic = (if topic0 = '''' then ''default'' else topic0);
                 part = uint (Uint32 (drop (3 + topicLen) data));
                 offset = 3 + topicLen + 4
             in case prov_get prov topic part st of
                  (Inl e, st') \<Rightarrow> (RespError (Wrap ''get partition log'' e), st')
                | (Inr _, st') \<Rightarrow>
                    if cmdType = CmdTypeSingle then apply_single cdc prov now topic part data offset st'
                    else if cmdType = CmdTypeBatch then apply_batch cdc prov now topic part data offset st'
                    else (RespError (NumErr ''unknown raft command type'' (uint cmdType)), st'))"

text \<open>
  A snapshot has no fields, persisting it closes the sink with nothing written to it, and restoring it
  does nothing.
\<close>

datatype noopSnapshot = NoopSnapshot

definition Snapshot :: "'st \<Rightarrow> noopSnapshot res" where "Snapshot st = Inr NoopSnapshot"

text \<open>\<open>sink\<close> is what the sink holds, \<open>closed\<close> the result of closing it.\<close>

definition Persist :: "error option \<Rightarrow> noopSnapshot \<Rightarrow> bytes \<Rightarrow> error option \<times> bytes" where
  "Persist closed snapshot sink = (closed, sink)"

definition Restore :: "bytes \<Rightarrow> 'st \<Rightarrow> unit res \<times> 'st" where "Restore snapshot st = (Inr (), st)"

text \<open>A committed sequence of entries, each applied at its own time.\<close>

fun apply_entries ::
  "codec \<Rightarrow> 'st provider \<Rightarrow> (i64 \<times> bytes) list \<Rightarrow> 'st \<Rightarrow> response list \<times> 'st" where
  "apply_entries cdc prov [] st = ([], st)"
| "apply_entries cdc prov ((now, data) # es) st =
     (case Apply cdc prov now data st of (r, st1) \<Rightarrow>
      case apply_entries cdc prov es st1 of (rs, st2) \<Rightarrow> (r # rs, st2))"

section \<open>Reading back what was encoded\<close>

lemma length_frame_head [codec_simps]: "length (frame_head c t p) = 7 + length t"
  by (simp add: frame_head_def codec_simps)

lemma length_frame_kv [codec_simps]: "length (frame_kv k v) = 8 + length k + length v"
  by (simp add: frame_kv_def codec_simps)

lemma read_kv_frame:
  assumes "offset = length pre" "length key < 2 ^ 32" "length val < 2 ^ 32"
  shows "read_kv err (pre @ frame_kv key val @ post) offset
    = Inr (key, val, offset + length (frame_kv key val))"
  using assms
  by (simp add: read_kv_def frame_kv_def codec_simps Let_def unat_of_nat)

text \<open>A frame cut short inside the key or the value is refused.\<close>

lemma read_kv_truncated:
  assumes "offset = length pre" "length key < 2 ^ 32" "length val < 2 ^ 32"
    "n < length (frame_kv key val)"
  shows "\<exists>what. read_kv err (pre @ take n (frame_kv key val)) offset = Inl (err what)"
proof -
  let ?kb = "PutUint32 (word_of_nat (length key) :: u32)" and ?vb = "PutUint32 (word_of_nat (length val) :: u32)"
  have n: "n < 8 + length key + length val" using assms(4) by (simp add: codec_simps)
  consider "n < 4" | "4 \<le> n" "n < 8 + length key" | "8 + length key \<le> n" by linarith
  then show ?thesis
  proof cases
    case 1
    then show ?thesis by (auto simp: read_kv_def assms(1) codec_simps)
  next
    case 2
    have "take n (frame_kv key val) = ?kb @ take (n - 4) (key @ ?vb @ val)"
      using 2 by (simp add: frame_kv_def codec_simps)
    then show ?thesis
      using 2 n assms(2) by (auto simp: read_kv_def assms(1) codec_simps unat_of_nat Let_def)
  next
    case 3
    have "take n (frame_kv key val) = ?kb @ key @ ?vb @ take (n - 8 - length key) val"
      using 3 by (simp add: frame_kv_def codec_simps)
    then show ?thesis
      using 3 n assms(2,3) by (auto simp: read_kv_def assms(1) codec_simps unat_of_nat Let_def)
  qed
qed

lemma read_records_frames:
  assumes "\<forall>r \<in> set rs. length (br_Key r) < 2 ^ 32 \<and> length (br_Value r) < 2 ^ 32"
  shows "read_records now (pre @ concat (map (\<lambda>r. frame_kv (br_Key r) (br_Value r)) rs) @ post)
      (length rs) i (length pre)
    = Inr (map (\<lambda>r. \<lparr>rec_Timestamp = now, rec_Key = br_Key r, rec_Value = br_Value r\<rparr>) rs)"
  using assms
proof (induction rs arbitrary: pre i)
  case Nil
  then show ?case by simp
next
  case (Cons r rs)
  let ?f = "frame_kv (br_Key r) (br_Value r)"
  let ?rest = "concat (map (\<lambda>r. frame_kv (br_Key r) (br_Value r)) rs) @ post"
  have "read_kv (batch_err i) (pre @ ?f @ ?rest) (length pre)
      = Inr (br_Key r, br_Value r, length pre + length ?f)"
    by (rule read_kv_frame) (use Cons.prems in simp_all)
  moreover have "read_records now ((pre @ ?f) @ ?rest) (length rs) (Suc i) (length (pre @ ?f))
      = Inr (map (\<lambda>r. \<lparr>rec_Timestamp = now, rec_Key = br_Key r, rec_Value = br_Value r\<rparr>) rs)"
    by (rule Cons.IH) (use Cons.prems in simp)
  ultimately show ?case by simp
qed

section \<open>Apply on encoded commands\<close>

definition effective_topic :: "string \<Rightarrow> string" where
  "effective_topic topic = (if topic = '''' then ''default'' else topic)"

definition head_ok :: "string \<Rightarrow> int \<Rightarrow> bool" where
  "head_ok topic part \<longleftrightarrow> length topic < 2 ^ 16 \<and> 0 \<le> part \<and> part < 2 ^ 32"

text \<open>The dispatch after the head of a frame.\<close>

lemma Apply_frame:
  assumes h: "head_ok topic part" and t: "t = effective_topic topic"
  shows "Apply cdc prov now (frame_head c topic part @ body) st =
    (case prov_get prov t part st of
       (Inl e, st') \<Rightarrow> (RespError (Wrap ''get partition log'' e), st')
     | (Inr _, st') \<Rightarrow>
         if c = CmdTypeSingle
         then apply_single cdc prov now t part (frame_head c topic part @ body) (7 + length topic) st'
         else if c = CmdTypeBatch
         then apply_batch cdc prov now t part (frame_head c topic part @ body) (7 + length topic) st'
         else (RespError (NumErr ''unknown raft command type'' (uint c)), st'))"
proof -
  let ?d = "frame_head c topic part @ body"
  have n: "unat (Uint16 (drop 1 ?d)) = length topic"
    using h by (simp add: frame_head_def codec_simps unat_of_nat head_ok_def)
  have tp: "take (length topic) (drop 3 ?d) = bytes_of_string topic"
    by (simp add: frame_head_def codec_simps numeral_3_eq_3)
  have p: "uint (Uint32 (drop (3 + length topic) ?d)) = part"
    using h by (simp add: frame_head_def codec_simps numeral_3_eq_3 head_ok_def uint_word_of_int)
  have len: "\<not> length ?d < 7" "\<not> length ?d < 3 + length topic + 4" "hd ?d = c"
    by (simp_all add: codec_simps) (simp add: frame_head_def)
  have off: "3 + length topic + 4 = 7 + length topic" by simp
  have tt: "(if string_of_bytes (bytes_of_string topic) = [] then ''default''
      else string_of_bytes (bytes_of_string topic)) = t"
    by (simp add: t effective_topic_def codec_simps)
  obtain r st' where g: "prov_get prov t part st = (r, st')" by fastforce
  show ?thesis
    unfolding Apply_def Let_def n tp p tt g off len(3) using len(1,2) by (cases r) simp_all
qed

lemma Apply_EncodeCommand:
  assumes h: "head_ok topic part" and kv: "length key < 2 ^ 32" "length val < 2 ^ 32"
    and t: "t = effective_topic topic"
  shows "Apply cdc prov now (EncodeCommand topic part key val) st =
    (case prov_get prov t part st of
       (Inl e, st') \<Rightarrow> (RespError (Wrap ''get partition log'' e), st')
     | (Inr _, st') \<Rightarrow> append_one cdc prov now t part key val st')"
proof -
  have r: "read_kv single_err (EncodeCommand topic part key val) (7 + length topic)
      = Inr (key, val, 7 + length topic + length (frame_kv key val))"
    using read_kv_frame [of "7 + length topic" "frame_head CmdTypeSingle topic part" key val single_err "[]"] kv
    by (simp add: EncodeCommand_def codec_simps)
  obtain g st' where "prov_get prov t part st = (g, st')" by fastforce
  then show ?thesis
    using Apply_frame [OF h t, of cdc prov now CmdTypeSingle "frame_kv key val" st] r
    by (cases g) (simp_all add: EncodeCommand_def apply_single_def)
qed

definition stamped :: "i64 \<Rightarrow> BatchRecord list \<Rightarrow> log_record list" where
  "stamped now rs = map (\<lambda>r. \<lparr>rec_Timestamp = now, rec_Key = br_Key r, rec_Value = br_Value r\<rparr>) rs"

definition records_ok :: "BatchRecord list \<Rightarrow> bool" where
  "records_ok rs \<longleftrightarrow> length rs < 2 ^ 32
     \<and> (\<forall>r \<in> set rs. length (br_Key r) < 2 ^ 32 \<and> length (br_Value r) < 2 ^ 32)"

lemma Apply_EncodeBatchCommand:
  assumes h: "head_ok topic part" and ok: "records_ok rs" and t: "t = effective_topic topic"
  shows "Apply cdc prov now (EncodeBatchCommand topic part rs) st =
    (case prov_get prov t part st of
       (Inl e, st') \<Rightarrow> (RespError (Wrap ''get partition log'' e), st')
     | (Inr _, st') \<Rightarrow> append_many cdc prov t part (stamped now rs) st')"
proof -
  let ?head = "frame_head CmdTypeBatch topic part" and ?n = "PutUint32 (word_of_nat (length rs) :: u32)"
  let ?body = "concat (map (\<lambda>r. frame_kv (br_Key r) (br_Value r)) rs)"
  have cnt: "unat (Uint32 (drop (7 + length topic) (?head @ ?n @ ?body))) = length rs"
    using ok by (simp add: codec_simps records_ok_def unat_of_nat)
  have r: "read_records now (?head @ ?n @ ?body) (length rs) 0 (7 + length topic + 4)
      = Inr (stamped now rs)"
    using read_records_frames [of rs now "?head @ ?n" "[]" 0] ok
    by (simp add: codec_simps records_ok_def stamped_def)
  have neq: "CmdTypeBatch \<noteq> CmdTypeSingle" by (simp add: CmdTypeBatch_def CmdTypeSingle_def)
  obtain g st' where "prov_get prov t part st = (g, st')" by fastforce
  then show ?thesis
    using Apply_frame [OF h t, of cdc prov now CmdTypeBatch "?n @ ?body" st] cnt r neq
    by (cases g) (simp_all add: EncodeBatchCommand_def apply_batch_def codec_simps add.assoc)
qed

section \<open>Damaged frames\<close>

text \<open>
  A refused command: an error, and the provider is as it was or as \<open>GetPartition\<close> left it.
\<close>

definition refused :: "'st provider \<Rightarrow> 'st \<Rightarrow> response \<times> 'st \<Rightarrow> bool" where
  "refused prov st out \<longleftrightarrow> (\<exists>e. fst out = RespError e)
     \<and> (snd out = st \<or> (\<exists>t p. snd out = snd (prov_get prov t p st)))"

lemma refused_get:
  "prov_get prov t p st = (r, st') \<Longrightarrow> refused prov st (RespError e, st')"
  unfolding refused_def by (metis fst_conv snd_conv)

lemma refused_same: "refused prov st (RespError e, st)"
  by (simp add: refused_def)

text \<open>No proper prefix of an encoded command is accepted.\<close>

lemma Apply_short:
  assumes h: "head_ok topic part" and n: "n < 7 + length topic"
  shows "refused prov st (Apply cdc prov now (take n (frame_head c topic part @ body)) st)"
proof (cases "n < 7")
  case True
  then show ?thesis by (simp add: Apply_def refused_same codec_simps)
next
  case False
  let ?d = "take n (frame_head c topic part @ body)"
  have "?d = c # PutUint16 (word_of_nat (length topic) :: u16) @ take (n - 3) (bytes_of_string topic @
      PutUint32 (word_of_int part :: u32) @ body)"
    using False by (cases n) (auto simp: frame_head_def codec_simps take_append)
  then have "Uint16 (drop 1 ?d) = word_of_nat (length topic)" by (simp add: codec_simps)
  then have t: "unat (Uint16 (drop 1 ?d)) = length topic" using h by (simp add: head_ok_def unat_of_nat)
  have len: "length ?d = n" using n by (simp add: codec_simps)
  have "Apply cdc prov now ?d st = (RespError (Msg ''malformed raft command: topic truncated''), st)"
    unfolding Apply_def Let_def t len using n False by simp
  then show ?thesis by (simp add: refused_same)
qed

lemma Apply_prefix_single:
  assumes h: "head_ok topic part" and kv: "length key < 2 ^ 32" "length val < 2 ^ 32"
    and n: "n < length (EncodeCommand topic part key val)"
  shows "refused prov st (Apply cdc prov now (take n (EncodeCommand topic part key val)) st)"
proof (cases "n < 7 + length topic")
  case True
  then show ?thesis using Apply_short [OF h] by (simp add: EncodeCommand_def)
next
  case False
  let ?h = "frame_head CmdTypeSingle topic part"
  define k where "k = n - (7 + length topic)"
  define t where "t = effective_topic topic"
  have k: "k < length (frame_kv key val)" using n False by (simp add: k_def EncodeCommand_def codec_simps)
  have d: "take n (EncodeCommand topic part key val) = ?h @ take k (frame_kv key val)"
    using False by (simp add: EncodeCommand_def k_def codec_simps)
  obtain what where w: "read_kv single_err (?h @ take k (frame_kv key val)) (7 + length topic)
      = Inl (single_err what)"
    using read_kv_truncated [of "7 + length topic" ?h key val k single_err] kv k by (auto simp: codec_simps)
  obtain r st' where g: "prov_get prov t part st = (r, st')" by fastforce
  show ?thesis
    unfolding d using Apply_frame [OF h t_def, of cdc prov now CmdTypeSingle "take k (frame_kv key val)" st] g w
    by (cases r) (simp_all add: apply_single_def refused_get [OF g])
qed

end
