(* ===== verification/LogProgress.thy ===== *)
theory LogProgress
  imports LogReopen
begin

text \<open>
  Progress: without I/O faults and within the size limits, appending to a log and creating a log
  succeed. The remaining lemmas of the library say what a successful call has done; these say
  that there is one.
\<close>

lemma length_log_bytes_ge: "24 * length ms \<le> length (log_bytes cdc c ms)"
  by (induction ms) (auto simp: log_bytes_def rec_bytes_def header_bytes_def codec_simps)

definition fits :: "codec \<Rightarrow> bool \<Rightarrow> message list \<Rightarrow> bytes \<Rightarrow> bytes \<Rightarrow> bool" where
  "fits cdc c ms k v \<longleftrightarrow> length k < 2 ^ 32 \<and> length v < 2 ^ 32
     \<and> (\<exists>p. stored cdc c k v = Some p \<and> length (log_bytes cdc c ms) + 24 + length p \<le> max_file_size)"

lemma writeAll_idle_any:
  assumes "sched d = []" "lookup_file d nm = Some old" "length old + length data \<le> max_file_size"
  shows "\<exists>d'. writeAll (Some nm) data d = (Inr (), d') \<and> sched d' = []
    \<and> lookup_file d' = (lookup_file d)(nm \<mapsto> old @ data) \<and> subdirs d' = subdirs d"
proof (cases "data = []")
  case True
  then show ?thesis using assms by (simp add: writeAll.simps fun_upd_idem)
next
  case False
  then show ?thesis using writeAll_idle [OF assms] assms(1) by simp
qed

lemma seg_Append_idle:
  assumes r: "seg_repr cdc d s ms" and idle: "sched d = []" and f: "fits cdc (seg_compressed s) ms k v"
  shows "\<exists>saved s' d'. seg_Append cdc ts k v s d = (Inr (seg_nextOffset s, saved), s', d')
    \<and> sched d' = [] \<and> subdirs d' = subdirs d"
proof -
  let ?c = "seg_compressed s" and ?L = "log_name (seg_baseOffset s)" and ?I = "index_name (seg_baseOffset s)"
  let ?h = "header_bytes (seg_nextOffset s) ts (length k) (length v)"
  let ?e = "entry_bytes (seg_nextOffset s) (uint64 (seg_size s))"
  obtain p where p: "stored cdc ?c k v = Some p" "length (log_bytes cdc ?c ms) + 24 + length p \<le> max_file_size"
    using f by (auto simp: fits_def)
  have files: "lookup_file d ?L = Some (log_bytes cdc ?c ms)"
    "lookup_file d ?I = Some (index_bytes (index_from cdc ?c 0 ms))"
    and hs: "seg_logFile s = Some ?L" "seg_indexWrite s = Some ?I"
    using r by (auto simp: seg_repr_def seg_files_def seg_open_def)
  obtain d1 where w1: "writeAll (Some ?L) ?h d = (Inr (), d1)" "sched d1 = []" "subdirs d1 = subdirs d"
    "lookup_file d1 = (lookup_file d)(?L \<mapsto> log_bytes cdc ?c ms @ ?h)"
    using writeAll_idle_any [OF idle files(1), of ?h] p(2) by (auto simp: header_decode)
  obtain d2 where w2: "writeAll (Some ?L) p d1 = (Inr (), d2)" "sched d2 = []" "subdirs d2 = subdirs d1"
    "lookup_file d2 = (lookup_file d1)(?L \<mapsto> (log_bytes cdc ?c ms @ ?h) @ p)"
    using writeAll_idle_any [OF w1(2), of ?L "log_bytes cdc ?c ms @ ?h" p] p(2) w1(4)
    by (auto simp: header_decode)
  have "lookup_file d2 ?I = Some (index_bytes (index_from cdc ?c 0 ms))"
    using w1(4) w2(4) files by simp
  moreover have "length (index_bytes (index_from cdc ?c 0 ms)) + length ?e \<le> max_file_size"
    using p(2) length_log_bytes_ge [of ms cdc ?c] by (simp add: length_index_bytes length_entry_bytes)
  ultimately obtain d3 where w3: "writeAll (Some ?I) ?e d2 = (Inr (), d3)" "sched d3 = []" "subdirs d3 = subdirs d2"
    using writeAll_idle_any [OF w2(2)] by blast
  have "\<not> length k > 2 ^ 32 - 1" "\<not> length v > 2 ^ 32 - 1" using f by (auto simp: fits_def)
  then show ?thesis
    using p(1) w1 w2 w3 hs by (simp add: seg_Append_def Let_def)
qed

definition no_dirs :: "directory \<Rightarrow> bool" where
  "no_dirs d \<longleftrightarrow> (\<forall>b. log_name b \<notin> set (subdirs d) \<and> index_name b \<notin> set (subdirs d))"

lemma log_Append_idle:
  assumes i: "log_inv cdc d l mss" and idle: "sched d = []" and nd: "no_dirs d"
    and room: "log_next l \<noteq> -1" and f: "fits cdc (log_compressed l) (last mss) k v"
  shows "\<exists>l' d'. log_Append cdc ts k v l d = (Inr (log_next l), l', d') \<and> sched d' = [] \<and> no_dirs d'"
proof -
  obtain ss a msf ms where s: "log_segments l = ss @ [a]" "mss = msf @ [ms]"
    and ai: "seg_inv cdc (log_compressed l) d a ms"
    using i by (auto simp: log_inv_def elim: log_core_split)
  have f': "fits cdc (seg_compressed a) ms k v" and ra: "seg_repr cdc d a ms"
    using f s ai by (auto simp: seg_inv_def)
  obtain sv a' d1 where ap: "seg_Append cdc ts k v a d = (Inr (seg_nextOffset a, sv), a', d1)"
    and d1: "sched d1 = []" "subdirs d1 = subdirs d"
    using seg_Append_idle [OF ra idle f'] by blast
  have nx: "log_next l = seg_nextOffset a" by (simp add: log_next_def s)
  let ?l = "notify_saved sv (set_active a' l)" and ?b = "seg_nextOffset a + 1"
  have "seg_nextOffset a < ?b" using room nx by (simp add: word_less_succ)
  note ok = seg_Append_ok [OF ra ap this refl]
  have lt: "seg_baseOffset a < ?b"
    using word_less_succ [OF room] nx seg_dense_bounds(1) ai by (fastforce simp: seg_inv_def)
  have "no_later d ?b" using log_inv_ready [OF i] lt s by (simp add: ready_def)
  then have nl: "no_later d1 ?b"
    using no_later_touch lt ok(4) dir_step_touches [of d d1 _ "seg_names a"] by fastforce
  have "\<exists>s2 d2. NewSegment ?b d1 = (Inr s2, d2) \<and> sched d2 = []"
    using NewSegment_idle [OF d1(1), of ?b cdc "log_compressed l" "[]"] nd nl d1(2)
    by (auto simp: no_dirs_def no_later_def)
  then obtain l' d2 where "roll ?b ?l d1 = (Inr (), l', d2) \<and> sched d2 = [] \<and> subdirs d2 = subdirs d1"
    using d1 NewSegment_frame(3) by (fastforce simp: roll_def)
  then show ?thesis
    using ap s nx nd d1 by (auto simp: log_Append_def appendLocked_def no_dirs_def)
qed

lemma NewLog_fresh_idle:
  assumes e: "files d = []" "subdirs d = []" "sched d = []" and sz: "size_args_ok sz"
  shows "\<exists>l d'. NewLog sz d = (Inr l, d') \<and> sched d' = [] \<and> subdirs d' = []"
proof -
  have "\<exists>s d'. NewSegment 0 d = (Inr s, d') \<and> sched d' = []"
    using NewSegment_idle [OF e(3), of 0 undefined False "[]"] e by (auto simp: lookup_file_def)
  then obtain s d' where n: "NewSegment 0 d = (Inr s, d')" "sched d' = []" by blast
  have "scan_entries (read_dir d) d = Inr []" using e by (simp add: read_dir_def)
  then show ?thesis
    using n e sz NewSegment_frame(3) [OF n(1)] by (auto simp: NewLog_def Let_def size_args_ok_def)
qed

end
