(* ===== verification/Broker.thy ===== *)
theory Broker
  imports Compaction ConsumerGroups RaftFSM LogProgress
begin

text \<open>
  The core of \<open>src/internal/broker/broker.go\<close>: topics and their partition logs, topic
  configuration, partition selection, and publishing through Raft. A \<open>*log.Log\<close> obtained from
  \<open>GetPartition\<close> is named by its topic and index, and its files are the directory at its path in
  \<open>b_fs\<close>, so two topics whose paths coincide share files as they do on disk.

  hashicorp/raft is not part of the sources: a call of \<open>raft.Apply\<close> is described by a record
  \<open>raft_call\<close> that says whether this node is the leader, which other committed entries are
  applied first, and how the call ends. The Prometheus counters are fields of the state.
\<close>

section \<open>Paths\<close>

text \<open>\<open>filepath.Join\<close> cleans its result: a path is whether it is rooted and its components.\<close>

type_synonym path = "bool \<times> string list"

fun split_slash :: "string \<Rightarrow> string list" where
  "split_slash [] = [[]]"
| "split_slash (c # cs) =
     (if c = CHR ''/'' then [] # split_slash cs
      else case split_slash cs of [] \<Rightarrow> [[c]] | w # ws \<Rightarrow> (c # w) # ws)"

fun clean :: "bool \<Rightarrow> string list \<Rightarrow> string list \<Rightarrow> string list" where
  "clean rooted out [] = rev out"
| "clean rooted out (c # cs) =
     (if c = '''' \<or> c = ''.'' then clean rooted out cs
      else if c = ''..'' then
        (case out of
           [] \<Rightarrow> clean rooted (if rooted then [] else [''..'']) cs
         | w # ws \<Rightarrow> if w = ''..'' then clean rooted (''..'' # out) cs else clean rooted ws cs)
      else clean rooted (c # out) cs)"

definition partition_path :: "string \<Rightarrow> string \<Rightarrow> nat \<Rightarrow> path" where
  "partition_path dataDir topic i =
     (let rooted = (dataDir \<noteq> '''' \<and> hd dataDir = CHR ''/'')
      in (rooted, clean rooted []
           (split_slash dataDir @ [''topics''] @ split_slash topic @ [''partitions'', format_uint i])))"

section \<open>State\<close>

definition defaultNumPartitions :: nat where "defaultNumPartitions = 3"

record TopicConfig =
  tc_RetentionBytes :: i64
  tc_RetentionMs :: i64
  tc_Compacted :: bool
  tc_Compressed :: bool

definition zero_config :: TopicConfig where
  "zero_config = \<lparr>tc_RetentionBytes = 0, tc_RetentionMs = 0, tc_Compacted = False, tc_Compressed = False\<rparr>"

text \<open>
  The counters and the gauge the broker sets itself. \<open>compressedBytesSavedTotal\<close> is increased by the
  observer a log calls; its value for a topic is the sum of what the topic's logs have reported
  (\<open>log_observed\<close>).
\<close>

record metrics =
  m_produced :: nat
  m_consumed :: nat
  m_produceErrors :: nat
  m_consumeErrors :: nat
  m_lag :: "string \<times> string \<times> i32 \<rightharpoonup> u64"

record 'db broker =
  b_logs :: "string \<rightharpoonup> log list"
  b_roundRobin :: "string \<Rightarrow> u64"
  b_dataDir :: string
  b_consumerGroups :: "'db ConsumerGroupStore"
  b_topicConfigs :: "string \<rightharpoonup> TopicConfig"
  b_retentionStarted :: "string \<Rightarrow> bool"
  b_retentionWorkers :: "string list"
  b_fs :: "path \<Rightarrow> directory"
  b_metrics :: metrics

text \<open>The state \<open>NewBroker\<close> starts from, with the consumer-group store it has opened.\<close>

definition broker_init :: "string \<Rightarrow> 'db ConsumerGroupStore \<Rightarrow> (path \<Rightarrow> directory) \<Rightarrow> 'db broker" where
  "broker_init dataDir groups fs =
     \<lparr>b_logs = Map.empty, b_roundRobin = (\<lambda>_. 0), b_dataDir = dataDir, b_consumerGroups = groups,
      b_topicConfigs = Map.empty, b_retentionStarted = (\<lambda>_. False), b_retentionWorkers = [],
      b_fs = fs,
      b_metrics = \<lparr>m_produced = 0, m_consumed = 0, m_produceErrors = 0, m_consumeErrors = 0,
                   m_lag = Map.empty\<rparr>\<rparr>"

section \<open>Partitions\<close>

definition topic_or_default :: "string \<Rightarrow> string" where
  "topic_or_default topic = (if topic = '''' then ''default'' else topic)"

definition broker_TopicConfig :: "string \<Rightarrow> 'db broker \<Rightarrow> TopicConfig" where
  "broker_TopicConfig topic b =
     (case b_topicConfigs b (topic_or_default topic) of None \<Rightarrow> zero_config | Some c \<Rightarrow> c)"

definition configurePartitionCompression :: "string \<Rightarrow> 'db broker \<Rightarrow> log \<Rightarrow> log" where
  "configurePartitionCompression topic b l =
     SetCompressionSavedObserver True (log_SetCompressed (tc_Compressed (broker_TopicConfig topic b)) l)"

text \<open>Closing the logs opened so far when a later one cannot be opened.\<close>

fun close_partitions ::
  "string \<Rightarrow> string \<Rightarrow> nat \<Rightarrow> log list \<Rightarrow> (path \<Rightarrow> directory) \<Rightarrow> path \<Rightarrow> directory" where
  "close_partitions dataDir topic i [] fs = fs"
| "close_partitions dataDir topic i (l # ls) fs =
     (let p = partition_path dataDir topic i
      in case log_Close l (fs p) of (_, _, d) \<Rightarrow> close_partitions dataDir topic (Suc i) ls (fs(p := d)))"

fun open_partitions ::
  "string \<Rightarrow> string \<Rightarrow> nat list \<Rightarrow> log list \<Rightarrow> (path \<Rightarrow> directory) \<Rightarrow> log list res \<times> (path \<Rightarrow> directory)"
where
  "open_partitions dataDir topic [] partitions fs = (Inr partitions, fs)"
| "open_partitions dataDir topic (i # is) partitions fs =
     (let p = partition_path dataDir topic i
      in case NewLog [] (fs p) of
           (Inl e, d) \<Rightarrow> (Inl e, close_partitions dataDir topic 0 partitions (fs(p := d)))
         | (Inr l, d) \<Rightarrow> open_partitions dataDir topic is (partitions @ [l]) (fs(p := d)))"

text \<open>Creating the topic: its partitions, and one retention worker per topic.\<close>

definition create_partitions :: "string \<Rightarrow> 'db broker \<Rightarrow> unit res \<times> 'db broker" where
  "create_partitions topic b =
     (case open_partitions (b_dataDir b) topic [0..<defaultNumPartitions] [] (b_fs b) of
        (Inl e, fs) \<Rightarrow> (Inl e, b\<lparr>b_fs := fs\<rparr>)
      | (Inr logs, fs) \<Rightarrow>
          (Inr (), b\<lparr>b_fs := fs,
             b_logs := (b_logs b)(topic \<mapsto> map (configurePartitionCompression topic b) logs),
             b_retentionStarted := (b_retentionStarted b)(topic := True),
             b_retentionWorkers := (if b_retentionStarted b topic then b_retentionWorkers b
                                    else topic # b_retentionWorkers b)\<rparr>))"

definition GetPartition :: "string \<Rightarrow> int \<Rightarrow> 'db broker \<Rightarrow> unit res \<times> 'db broker" where
  "GetPartition topic0 part b =
     (let topic = topic_or_default topic0; i = nat part
      in if part < 0 \<or> part \<ge> int defaultNumPartitions
         then (Inl (NumErr ''partition out of range'' part), b)
         else case b_logs b topic of
           None \<Rightarrow> create_partitions topic b
         | Some partitions \<Rightarrow>
             if length partitions > i
             then (Inr (), b\<lparr>b_logs := (b_logs b)(topic \<mapsto>
                     partitions[i := configurePartitionCompression topic b (partitions ! i)])\<rparr>)
             else create_partitions topic b)"


text \<open>The log behind the pointer that \<open>GetPartition\<close> returned, with its directory.\<close>

definition partition_log :: "string \<Rightarrow> int \<Rightarrow> 'db broker \<Rightarrow> log \<times> directory" where
  "partition_log topic0 part b =
     (let topic = topic_or_default topic0; i = nat part
      in (the (b_logs b topic) ! i, b_fs b (partition_path (b_dataDir b) topic i)))"

definition set_partition_log :: "string \<Rightarrow> int \<Rightarrow> log \<times> directory \<Rightarrow> 'db broker \<Rightarrow> 'db broker" where
  "set_partition_log topic0 part ld b =
     (let topic = topic_or_default topic0; i = nat part; p = partition_path (b_dataDir b) topic i
      in b\<lparr>b_logs := (b_logs b)(topic \<mapsto> (the (b_logs b topic))[i := fst ld]),
           b_fs := (b_fs b)(p := snd ld)\<rparr>)"

definition broker_provider :: "'db broker provider" where
  "broker_provider = \<lparr>prov_get = GetPartition, prov_log = partition_log, prov_set = set_partition_log\<rparr>"

definition SetTopicConfig :: "string \<Rightarrow> TopicConfig \<Rightarrow> 'db broker \<Rightarrow> unit res \<times> 'db broker" where
  "SetTopicConfig topic0 config b =
     (let topic = topic_or_default topic0
      in if sint (tc_RetentionBytes config) < 0
         then (Inl (Msg ''retention_bytes must be non-negative''), b)
         else if sint (tc_RetentionMs config) < 0
         then (Inl (Msg ''retention_ms must be non-negative''), b)
         else
           let b' = b\<lparr>b_topicConfigs := (b_topicConfigs b)(topic \<mapsto> config)\<rparr>
           in if \<not> b_retentionStarted b topic then GetPartition topic 0 b' else (Inr (), b'))"

section \<open>Background maintenance\<close>

text \<open>Retention over the partitions \<open>is\<close> of a topic; failures are printed and skipped.\<close>

fun retain_partitions :: "TopicConfig \<Rightarrow> int \<Rightarrow> string \<Rightarrow> nat list \<Rightarrow> 'db broker \<Rightarrow> 'db broker" where
  "retain_partitions config now topic [] b = b"
| "retain_partitions config now topic (i # is) b =
     (case partition_log topic (int i) b of (l, d) \<Rightarrow>
      case EnforceRetention (tc_RetentionBytes config) (tc_RetentionMs config) now l d of
        (_, l', d') \<Rightarrow>
          retain_partitions config now topic is (set_partition_log topic (int i) (l', d') b))"

definition enforceTopicRetention :: "bool \<Rightarrow> int \<Rightarrow> string \<Rightarrow> 'db broker \<Rightarrow> 'db broker" where
  "enforceTopicRetention leader now topic b =
     (if \<not> leader then b
      else
        let config = (case b_topicConfigs b topic of None \<Rightarrow> zero_config | Some c \<Rightarrow> c);
            partitions = (case b_logs b topic of None \<Rightarrow> [] | Some ls \<Rightarrow> ls)
        in if sint (tc_RetentionBytes config) \<le> 0 \<and> sint (tc_RetentionMs config) \<le> 0 then b
           else retain_partitions config now topic [0..<length partitions] b)"

fun compact_partitions :: "codec \<Rightarrow> string \<Rightarrow> nat list \<Rightarrow> 'db broker \<Rightarrow> 'db broker" where
  "compact_partitions cdc topic [] b = b"
| "compact_partitions cdc topic (i # is) b =
     (case partition_log topic (int i) b of (l, d) \<Rightarrow>
      case Compact cdc l d of
        (_, l', d') \<Rightarrow> compact_partitions cdc topic is (set_partition_log topic (int i) (l', d') b))"

definition compactable :: "'db broker \<Rightarrow> string \<Rightarrow> bool" where
  "compactable b topic \<longleftrightarrow>
     (case b_topicConfigs b topic of None \<Rightarrow> False | Some c \<Rightarrow> tc_Compacted c) \<and> b_logs b topic \<noteq> None"

text \<open>
  The topics in the order the map is ranged over, each with whether this node is still the leader
  when its turn comes.
\<close>

fun compact_topics :: "codec \<Rightarrow> (string \<times> bool) list \<Rightarrow> 'db broker \<Rightarrow> 'db broker" where
  "compact_topics cdc [] b = b"
| "compact_topics cdc ((topic, leader) # ts) b =
     (if \<not> leader then b
      else compact_topics cdc ts
             (compact_partitions cdc topic [0..<length (the (b_logs b topic))] b))"

definition compactConfiguredTopics ::
  "codec \<Rightarrow> bool \<Rightarrow> (string \<times> bool) list \<Rightarrow> 'db broker \<Rightarrow> 'db broker" where
  "compactConfiguredTopics cdc leader order b =
     (if \<not> leader then b else compact_topics cdc (filter (\<lambda>t. compactable b (fst t)) order) b)"

section \<open>Partition selection\<close>

text \<open>\<open>hash/fnv\<close>, \<open>New32a\<close>.\<close>

definition fnv32a :: "bytes \<Rightarrow> u32" where
  "fnv32a key = foldl (\<lambda>h b. xor h (ucast b) * 16777619) 2166136261 key"

definition selectPartition ::
  "string \<Rightarrow> bytes \<Rightarrow> i32 option \<Rightarrow> 'db broker \<Rightarrow> int res \<times> 'db broker" where
  "selectPartition topic key part b =
     (case part of
        Some p \<Rightarrow>
          if sint p < 0 \<or> sint p \<ge> int defaultNumPartitions
          then (Inl (NumErr ''partition out of range'' (sint p)), b)
          else (Inr (sint p), b)
      | None \<Rightarrow>
          if length key > 0 then (Inr (uint (fnv32a key mod word_of_nat defaultNumPartitions)), b)
          else
            let next = b_roundRobin b topic mod word_of_nat defaultNumPartitions
            in (Inr (uint next),
                b\<lparr>b_roundRobin := (b_roundRobin b)
                    (topic := (next + 1) mod word_of_nat defaultNumPartitions)\<rparr>))"

definition partitionValue :: "i32 option \<Rightarrow> int" where
  "partitionValue part = (case part of None \<Rightarrow> 0 | Some p \<Rightarrow> sint p)"

section \<open>Publishing\<close>

record raft_call =
  rc_leader :: bool
  rc_before :: "(i64 \<times> bytes) list"
  rc_now :: i64
  rc_error :: "error option"
  rc_applied :: bool

text \<open>
  \<open>raft.Apply(data, 5s)\<close>: entries of other callers may be applied first; without an error the
  response is what \<open>FSM.Apply\<close> returned for this entry; with an error the entry may or may not
  have been applied.
\<close>

definition raft_Apply :: "codec \<Rightarrow> raft_call \<Rightarrow> bytes \<Rightarrow> 'db broker \<Rightarrow> response res \<times> 'db broker" where
  "raft_Apply cdc rc data b =
     (let b1 = snd (apply_entries cdc broker_provider (rc_before rc) b)
      in case rc_error rc of
           None \<Rightarrow> (case Apply cdc broker_provider (rc_now rc) data b1 of (r, b2) \<Rightarrow> (Inr r, b2))
         | Some e \<Rightarrow>
             (Inl e, if rc_applied rc then snd (Apply cdc broker_provider (rc_now rc) data b1) else b1))"

definition Publish ::
  "codec \<Rightarrow> raft_call \<Rightarrow> string \<Rightarrow> bytes \<Rightarrow> bytes \<Rightarrow> i32 option \<Rightarrow> 'db broker \<Rightarrow> u64 res \<times> 'db broker"
where
  "Publish cdc rc topic0 key val part b =
     (let topic = topic_or_default topic0
      in if \<not> rc_leader rc then (Inl (Msg ''broker is not the Raft leader''), b)
         else case selectPartition topic key part b of
           (Inl e, b1) \<Rightarrow> (Inl e, b1)
         | (Inr selectedPartition, b1) \<Rightarrow>
         case GetPartition topic selectedPartition b1 of
           (Inl e, b2) \<Rightarrow> (Inl e, b2)
         | (Inr _, b2) \<Rightarrow>
         case raft_Apply cdc rc (EncodeCommand topic selectedPartition key val) b2 of
           (Inl e, b3) \<Rightarrow> (Inl e, b3)
         | (Inr (RespOffset v), b3) \<Rightarrow> (Inr v, b3)
         | (Inr (RespError e), b3) \<Rightarrow> (Inl e, b3)
         | (Inr (RespOffsets _), b3) \<Rightarrow> (Inl (Msg ''unexpected FSM response type''), b3))"

text \<open>The copy of the request records, stopping at a nil one.\<close>

fun command_records :: "nat \<Rightarrow> BatchRecord option list \<Rightarrow> BatchRecord list res" where
  "command_records i [] = Inr []"
| "command_records i (None # rs) = Inl (NumErr ''record is nil'' (int i))"
| "command_records i (Some r # rs) =
     (case command_records (Suc i) rs of Inl e \<Rightarrow> Inl e | Inr cs \<Rightarrow> Inr (r # cs))"

fun int64_offsets :: "u64 list \<Rightarrow> i64 list res" where
  "int64_offsets [] = Inr []"
| "int64_offsets (v # vs) =
     (if v > drop_bit 1 (not 0) then Inl (OffsetErr ''offset exceeds int64 range'' v)
      else case int64_offsets vs of Inl e \<Rightarrow> Inl e | Inr os \<Rightarrow> Inr (v # os))"

definition PublishBatch ::
  "codec \<Rightarrow> raft_call \<Rightarrow> string \<Rightarrow> i32 \<Rightarrow> BatchRecord option list \<Rightarrow> 'db broker
     \<Rightarrow> i64 list res \<times> 'db broker" where
  "PublishBatch cdc rc topic0 part records b =
     (let topic = topic_or_default topic0
      in if \<not> rc_leader rc then (Inl (Msg ''broker is not the Raft leader''), b)
         else if sint part < 0 \<or> sint part \<ge> int defaultNumPartitions
         then (Inl (NumErr ''partition out of range'' (sint part)), b)
         else if records = [] then (Inl (Msg ''records must not be empty''), b)
         else case GetPartition topic (sint part) b of
           (Inl e, b1) \<Rightarrow> (Inl e, b1)
         | (Inr _, b1) \<Rightarrow>
         case command_records 0 records of
           Inl e \<Rightarrow> (Inl e, b1)
         | Inr commandRecords \<Rightarrow>
         case raft_Apply cdc rc (EncodeBatchCommand topic (sint part) commandRecords) b1 of
           (Inl e, b2) \<Rightarrow> (Inl e, b2)
         | (Inr (RespOffsets vs), b2) \<Rightarrow> (int64_offsets vs, b2)
         | (Inr (RespError e), b2) \<Rightarrow> (Inl e, b2)
         | (Inr (RespOffset _), b2) \<Rightarrow> (Inl (Msg ''unexpected FSM response type''), b2))"

section \<open>Reading\<close>

definition broker_Read ::
  "codec \<Rightarrow> string \<Rightarrow> int \<Rightarrow> u64 \<Rightarrow> 'db broker \<Rightarrow> message res \<times> 'db broker" where
  "broker_Read cdc topic part offset b =
     (case GetPartition topic part b of
        (Inl e, b') \<Rightarrow> (Inl e, b')
      | (Inr _, b') \<Rightarrow>
          (case partition_log topic part b' of (l, d) \<Rightarrow> (log_Read cdc offset l d, b')))"

text \<open>The result is \<open>None\<close> if the loop of \<open>Log.ReadBatch\<close> does not end.\<close>

definition broker_ReadBatch ::
  "codec \<Rightarrow> string \<Rightarrow> int \<Rightarrow> i64 \<Rightarrow> i32 \<Rightarrow> 'db broker \<Rightarrow> message list res option \<times> 'db broker" where
  "broker_ReadBatch cdc topic part offset maxCount b =
     (if sint offset < 0 then (Some (Inl (Msg ''offset must be non-negative'')), b)
      else if sint maxCount \<le> 0 then (Some (Inl (Msg ''max_count must be greater than zero'')), b)
      else
        let maxCount' = (if sint maxCount > 1000 then 1000 else maxCount)
        in if part < 0 \<or> part \<ge> int defaultNumPartitions
           then (Some (Inl (NumErr ''partition out of range'' part)), b)
           else case GetPartition topic part b of
             (Inl e, b') \<Rightarrow> (Some (Inl e), b')
           | (Inr _, b') \<Rightarrow>
               (case partition_log topic part b' of
                  (l, d) \<Rightarrow> (log_ReadBatch cdc offset maxCount' l d, b')))"

section \<open>Consumer-group lag\<close>

definition lag_of :: "u64 \<Rightarrow> u64 \<Rightarrow> u64" where
  "lag_of latestOffset committedOffset =
     (if latestOffset \<ge> committedOffset then latestOffset - committedOffset else 0)"

definition set_lag :: "string \<times> string \<times> i32 \<Rightarrow> u64 \<Rightarrow> 'db broker \<Rightarrow> 'db broker" where
  "set_lag k lag b = b\<lparr>b_metrics := (b_metrics b)\<lparr>m_lag := (m_lag (b_metrics b))(k \<mapsto> lag)\<rparr>\<rparr>"

definition updateConsumerGroupLagFor ::
  "string \<Rightarrow> string \<Rightarrow> i32 \<Rightarrow> u64 \<Rightarrow> 'db broker \<Rightarrow> 'db broker" where
  "updateConsumerGroupLagFor groupID topic part committedOffset b =
     (case GetPartition topic (sint part) b of
        (Inl _, b') \<Rightarrow> b'
      | (Inr _, b') \<Rightarrow>
          set_lag (groupID, topic, part)
            (lag_of (LatestOffset (fst (partition_log topic (sint part) b'))) committedOffset) b')"

definition updateConsumerGroupLag :: "string list \<Rightarrow> 'db broker \<Rightarrow> 'db broker" where
  "updateConsumerGroupLag keys b =
     foldl (\<lambda>b c. updateConsumerGroupLagFor (cgo_GroupID c) (cgo_Topic c) (cgo_Partition c) (cgo_Offset c) b)
       b (cg_Snapshot keys (b_consumerGroups b))"

end
