(* ===== verification/Replication.thy ===== *)
theory Replication
  imports RaftFSM
begin

text \<open>
  The contracts around \<open>FSM.Apply\<close>. A log provider keeps, for every topic partition, a history of
  key/value pairs; \<open>Apply\<close> then implements appending to that history, and replicas that apply the
  same commands agree on every offset and every history, whatever their clocks say.
\<close>

section \<open>A log as a history\<close>

type_synonym history = "(bytes \<times> bytes) list"
type_synonym histories = "string \<Rightarrow> int \<Rightarrow> history"

definition kv :: "message \<Rightarrow> bytes \<times> bytes" where "kv m = (msg_Key m, msg_Value m)"

text \<open>
  The log holds the history from its start offset on; earlier entries have been deleted by
  retention. Offsets are positions in the history.
\<close>

definition log_history :: "codec \<Rightarrow> log \<times> directory \<Rightarrow> history \<Rightarrow> bool" where
  "log_history cdc ld hs \<longleftrightarrow> (\<exists>msgs. log_holds cdc (snd ld) (fst ld) msgs
     \<and> map kv msgs = drop (unat (log_start (fst ld))) hs \<and> unat (log_next (fst ld)) = length hs)"

lemma log_history_start:
  assumes "log_history cdc (l, d) hs" shows "unat (log_start l) \<le> length hs"
  using assms log_holds_offsets(2) [of cdc d l] by (auto simp: log_history_def word_le_nat_alt)

lemma log_history_append:
  assumes h: "log_history cdc (l, d) hs" and room: "length hs + 1 < 2 ^ 64"
    and a: "log_Append cdc ts k v l d = (Inr off, l', d')"
  shows "log_history cdc (l', d') (hs @ [(k, v)])" and "unat off = length hs"
    and "log_compressed l' = log_compressed l" and "log_start l' = log_start l"
proof -
  obtain msgs where m: "log_holds cdc d l msgs" "map kv msgs = drop (unat (log_start l)) hs"
    "unat (log_next l) = length hs"
    using h by (auto simp: log_history_def)
  have r: "log_next l \<noteq> -1" using room m(3) by (simp add: word_neq_minus_one)
  note ap = log_Append_holds [OF m(1) r a]
  have "unat (log_next l') = length hs + 1"
    using ap(2) room m(3) by (simp add: unat_word_ariths)
  then show "log_history cdc (l', d') (hs @ [(k, v)])"
    unfolding log_history_def fst_conv snd_conv
    using ap m(2) log_history_start [OF h] by (intro exI conjI) (auto simp: kv_def)
  show "unat off = length hs" "log_compressed l' = log_compressed l" "log_start l' = log_start l"
    using ap m(3) by simp_all
qed

lemma kv_number_messages:
  "map kv (number_messages off rs) = map (\<lambda>r. (rec_Key r, rec_Value r)) rs"
  by (rule nth_equalityI) (simp_all add: number_messages_nth kv_def)

lemma log_history_append_batch:
  assumes h: "log_history cdc (l, d) hs" and room: "length hs + length rs < 2 ^ 64"
    and a: "log_AppendBatch cdc rs l d = ((offs, None), l', d')"
  shows "log_history cdc (l', d') (hs @ map (\<lambda>r. (rec_Key r, rec_Value r)) rs)"
    and "map unat offs = [length hs ..< length hs + length rs]"
    and "log_compressed l' = log_compressed l" and "log_start l' = log_start l"
proof -
  obtain msgs where m: "log_holds cdc d l msgs" "map kv msgs = drop (unat (log_start l)) hs"
    "unat (log_next l) = length hs"
    using h by (auto simp: log_history_def)
  have r: "unat (log_next l) + length rs < 2 ^ 64" using room m(3) by simp
  note ap = log_AppendBatch_holds [OF m(1) r a refl]
  have "unat (log_next l') = length hs + length rs"
    using ap(2) room m(3) by (simp add: unat_word_ariths unat_of_nat)
  then show "log_history cdc (l', d') (hs @ map (\<lambda>r. (rec_Key r, rec_Value r)) rs)"
    unfolding log_history_def fst_conv snd_conv
    using ap m(2) log_history_start [OF h] by (intro exI conjI) (auto simp: kv_number_messages)
  show "map unat offs = [length hs ..< length hs + length rs]"
    unfolding ap(1) using room m(3)
    by (intro nth_equalityI) (simp_all add: number_messages_nth unat_word_ariths unat_of_nat)
  show "log_compressed l' = log_compressed l" "log_start l' = log_start l" by (rule ap(4), rule ap(3))
qed

section \<open>Commands\<close>

datatype command =
    Single string int bytes bytes
  | Batch string int "BatchRecord list"

fun encode :: "command \<Rightarrow> bytes" where
  "encode (Single t p k v) = EncodeCommand t p k v"
| "encode (Batch t p rs) = EncodeBatchCommand t p rs"

fun cmd_topic :: "command \<Rightarrow> string" where
  "cmd_topic (Single t p k v) = effective_topic t"
| "cmd_topic (Batch t p rs) = effective_topic t"

fun cmd_part :: "command \<Rightarrow> int" where
  "cmd_part (Single t p k v) = p"
| "cmd_part (Batch t p rs) = p"

fun cmd_kvs :: "command \<Rightarrow> history" where
  "cmd_kvs (Single t p k v) = [(k, v)]"
| "cmd_kvs (Batch t p rs) = map (\<lambda>r. (br_Key r, br_Value r)) rs"

fun cmd_wf :: "command \<Rightarrow> bool" where
  "cmd_wf (Single t p k v) \<longleftrightarrow> head_ok t p \<and> length k < 2 ^ 32 \<and> length v < 2 ^ 32"
| "cmd_wf (Batch t p rs) \<longleftrightarrow> head_ok t p \<and> records_ok rs"

text \<open>The specification: append to the history and answer with the positions.\<close>

fun cmd_response :: "command \<Rightarrow> nat \<Rightarrow> response" where
  "cmd_response (Single t p k v) n = RespOffset (word_of_nat n)"
| "cmd_response (Batch t p rs) n = RespOffsets (map word_of_nat [n ..< n + length rs])"

definition spec_apply :: "command \<Rightarrow> histories \<Rightarrow> response \<times> histories" where
  "spec_apply c h =
     (let t = cmd_topic c; p = cmd_part c
      in (cmd_response c (length (h t p)), h(t := (h t)(p := h t p @ cmd_kvs c))))"

definition accepted :: "response \<Rightarrow> bool" where
  "accepted r \<longleftrightarrow> (case r of RespError _ \<Rightarrow> False | _ \<Rightarrow> True)"

lemma words_of_unats: "map unat (ws :: u64 list) = ns \<Longrightarrow> ws = map word_of_nat ns"
  by (auto simp: comp_def)

section \<open>The contract of a log provider\<close>

locale log_provider =
  fixes prov :: "'st provider" and cdc :: codec
    and keeps :: "'st \<Rightarrow> histories \<Rightarrow> bool"
    and known :: "'st \<Rightarrow> string \<Rightarrow> int \<Rightarrow> bool"
    and named :: "string \<Rightarrow> bool"
  assumes get_ok: "keeps st h \<Longrightarrow> named t \<Longrightarrow> prov_get prov t p st = (Inr (), st') \<Longrightarrow>
      keeps st' h \<and> known st' t p"
    and log_ok: "keeps st h \<Longrightarrow> known st t p \<Longrightarrow> log_history cdc (prov_log prov t p st) (h t p)"
    and set_ok: "keeps st h \<Longrightarrow> known st t p \<Longrightarrow> log_history cdc ld hs \<Longrightarrow>
      log_compressed (fst ld) = log_compressed (fst (prov_log prov t p st)) \<Longrightarrow>
      keeps (prov_set prov t p ld st) (h(t := (h t)(p := hs)))"
    and set_get: "keeps st h \<Longrightarrow> known st t p \<Longrightarrow> prov_log prov t p (prov_set prov t p ld st) = ld"
    and set_known: "known st t p \<Longrightarrow> known (prov_set prov t p ld st) t p"
begin

lemma append_one_refines:
  assumes k: "keeps st h" "known st t p" and room: "length (h t p) + 1 < 2 ^ 64"
    and a: "append_one cdc prov now t p key val st = (r, st')" "accepted r"
  shows "r = RespOffset (word_of_nat (length (h t p)))"
    and "keeps st' (h(t := (h t)(p := h t p @ [(key, val)])))"
    and "unat (log_start (fst (prov_log prov t p st'))) \<le> length (h t p)"
    and "known st' t p"
proof -
  obtain l d where ld: "prov_log prov t p st = (l, d)" by fastforce
  obtain o1 l' d' where ap: "log_Append cdc now key val l d = (o1, l', d')" by (metis prod.collapse)
  then obtain off where off: "o1 = Inr off"
    using a ld by (cases o1) (auto simp: append_one_def accepted_def)
  have hs: "log_history cdc (l, d) (h t p)" using log_ok [OF k] ld by simp
  note ha = log_history_append [OF hs room ap [unfolded off]]
  have "off = word_of_nat (length (h t p))" using ha(2) [symmetric] by simp
  then show "r = RespOffset (word_of_nat (length (h t p)))"
    using a ld ap off by (simp add: append_one_def)
  show "keeps st' (h(t := (h t)(p := h t p @ [(key, val)])))"
    using set_ok [OF k ha(1)] ha(3) a(1) ld ap off by (simp add: append_one_def)
  have "prov_log prov t p st' = (l', d')"
    using set_get [OF k] a(1) ld ap off by (auto simp: append_one_def)
  then show "unat (log_start (fst (prov_log prov t p st'))) \<le> length (h t p)"
    using ha(4) log_history_start [OF hs] by simp
  show "known st' t p" using set_known [OF k(2)] a(1) ld ap off by (auto simp: append_one_def)
qed

lemma append_many_refines:
  assumes k: "keeps st h" "known st t p" and room: "length (h t p) + length rs < 2 ^ 64"
    and a: "append_many cdc prov t p rs st = (r, st')" "accepted r"
  shows "r = RespOffsets (map word_of_nat [length (h t p) ..< length (h t p) + length rs])"
    and "keeps st' (h(t := (h t)(p := h t p @ map (\<lambda>r. (rec_Key r, rec_Value r)) rs)))"
    and "unat (log_start (fst (prov_log prov t p st'))) \<le> length (h t p)"
    and "known st' t p"
proof -
  obtain l d where ld: "prov_log prov t p st = (l, d)" by fastforce
  obtain offs e l' d' where ap: "log_AppendBatch cdc rs l d = ((offs, e), l', d')" by (metis prod.collapse)
  then have e: "e = None"
    using a ld by (cases e) (auto simp: append_many_def accepted_def)
  have hs: "log_history cdc (l, d) (h t p)" using log_ok [OF k] ld by simp
  note ha = log_history_append_batch [OF hs room ap [unfolded e]]
  show "r = RespOffsets (map word_of_nat [length (h t p) ..< length (h t p) + length rs])"
    using a ld ap e words_of_unats [OF ha(2)] by (simp add: append_many_def)
  show "keeps st' (h(t := (h t)(p := h t p @ map (\<lambda>r. (rec_Key r, rec_Value r)) rs)))"
    using set_ok [OF k ha(1)] ha(3) a(1) ld ap e by (simp add: append_many_def)
  have "prov_log prov t p st' = (l', d')"
    using set_get [OF k] a(1) ld ap e by (auto simp: append_many_def)
  then show "unat (log_start (fst (prov_log prov t p st'))) \<le> length (h t p)"
    using ha(4) log_history_start [OF hs] by simp
  show "known st' t p" using set_known [OF k(2)] a(1) ld ap e by (auto simp: append_many_def)
qed

text \<open>An accepted command has the specified response and effect.\<close>

lemma Apply_refines:
  assumes k: "keeps st h" and c: "cmd_wf c" "named (cmd_topic c)"
    and room: "length (h (cmd_topic c) (cmd_part c)) + length (cmd_kvs c) < 2 ^ 64"
    and a: "Apply cdc prov now (encode c) st = (r, st')" "accepted r"
  shows "r = fst (spec_apply c h) \<and> keeps st' (snd (spec_apply c h))"
    and "unat (log_start (fst (prov_log prov (cmd_topic c) (cmd_part c) st')))
      \<le> length (h (cmd_topic c) (cmd_part c))"
    and "known st' (cmd_topic c) (cmd_part c)"
proof -
  let ?start = "unat (log_start (fst (prov_log prov (cmd_topic c) (cmd_part c) st')))
      \<le> length (h (cmd_topic c) (cmd_part c))"
  let ?known = "known st' (cmd_topic c) (cmd_part c)"
  obtain g st1 where g: "prov_get prov (cmd_topic c) (cmd_part c) st = (g, st1)" by fastforce
  have "(r = fst (spec_apply c h) \<and> keeps st' (snd (spec_apply c h))) \<and> ?start \<and> ?known"
  proof (cases c)
    case (Single t p key val)
    have ap: "Apply cdc prov now (encode c) st = (case (g, st1) of
        (Inl e, st') \<Rightarrow> (RespError (Wrap ''get partition log'' e), st')
      | (Inr _, st') \<Rightarrow> append_one cdc prov now (cmd_topic c) (cmd_part c) key val st')"
      using Apply_EncodeCommand [of t p key val "effective_topic t" cdc prov now st] c Single g by (cases g) simp_all
    have gi: "g = Inr ()" using ap a by (cases g) (auto simp: accepted_def)
    have k1: "keeps st1 h" "known st1 (cmd_topic c) (cmd_part c)"
      using get_ok [OF k c(2)] g gi by auto
    show ?thesis
      using append_one_refines [OF k1, of now key val r st'] room ap a gi Single
      by (simp add: spec_apply_def Let_def)
  next
    case (Batch t p rs)
    have ap: "Apply cdc prov now (encode c) st = (case (g, st1) of
        (Inl e, st') \<Rightarrow> (RespError (Wrap ''get partition log'' e), st')
      | (Inr _, st') \<Rightarrow> append_many cdc prov (cmd_topic c) (cmd_part c) (stamped now rs) st')"
      using Apply_EncodeBatchCommand [of t p rs "effective_topic t" cdc prov now st] c Batch g by (cases g) simp_all
    have gi: "g = Inr ()" using ap a by (cases g) (auto simp: accepted_def)
    have k1: "keeps st1 h" "known st1 (cmd_topic c) (cmd_part c)"
      using get_ok [OF k c(2)] g gi by auto
    show ?thesis
      using append_many_refines [OF k1, of "stamped now rs" r st'] room ap a gi Batch
      by (simp add: spec_apply_def Let_def stamped_def comp_def)
  qed
  then show "r = fst (spec_apply c h) \<and> keeps st' (snd (spec_apply c h))" ?start ?known by blast+
qed

end

section \<open>Replicated state machines\<close>

text \<open>
  Any machine whose accepted steps refine a specification, whatever the local environment of the
  step (here: the clock), agrees with every other replica that runs the same commands.
\<close>

fun run_steps :: "('env \<Rightarrow> 'cmd \<Rightarrow> 'st \<Rightarrow> 'resp \<times> 'st) \<Rightarrow> ('env \<times> 'cmd) list \<Rightarrow> 'st \<Rightarrow> 'resp list \<times> 'st"
where
  "run_steps step [] st = ([], st)"
| "run_steps step ((env, c) # cs) st =
     (case step env c st of (r, st1) \<Rightarrow> case run_steps step cs st1 of (rs, st2) \<Rightarrow> (r # rs, st2))"

fun spec_steps :: "('cmd \<Rightarrow> 'abs \<Rightarrow> 'resp \<times> 'abs) \<Rightarrow> 'cmd list \<Rightarrow> 'abs \<Rightarrow> 'resp list \<times> 'abs" where
  "spec_steps spec [] a = ([], a)"
| "spec_steps spec (c # cs) a =
     (case spec c a of (r, a1) \<Rightarrow> case spec_steps spec cs a1 of (rs, a2) \<Rightarrow> (r # rs, a2))"

fun able_steps ::
  "('cmd \<Rightarrow> 'abs \<Rightarrow> 'resp \<times> 'abs) \<Rightarrow> ('cmd \<Rightarrow> 'abs \<Rightarrow> bool) \<Rightarrow> 'cmd list \<Rightarrow> 'abs \<Rightarrow> bool" where
  "able_steps spec able [] a \<longleftrightarrow> True"
| "able_steps spec able (c # cs) a \<longleftrightarrow> able c a \<and> able_steps spec able cs (snd (spec c a))"

locale replicated =
  fixes step :: "'env \<Rightarrow> 'cmd \<Rightarrow> 'st \<Rightarrow> 'resp \<times> 'st"
    and rel :: "'st \<Rightarrow> 'abs \<Rightarrow> bool"
    and spec :: "'cmd \<Rightarrow> 'abs \<Rightarrow> 'resp \<times> 'abs"
    and good :: "'resp \<Rightarrow> bool"
    and able :: "'cmd \<Rightarrow> 'abs \<Rightarrow> bool"
  assumes step_refines: "rel st a \<Longrightarrow> able c a \<Longrightarrow> step env c st = (r, st') \<Longrightarrow> good r \<Longrightarrow>
      r = fst (spec c a) \<and> rel st' (snd (spec c a))"
begin

lemma run_refines:
  "rel st a \<Longrightarrow> able_steps spec able (map snd cs) a \<Longrightarrow> run_steps step cs st = (rs, st') \<Longrightarrow>
     \<forall>r \<in> set rs. good r \<Longrightarrow>
     rs = fst (spec_steps spec (map snd cs) a) \<and> rel st' (snd (spec_steps spec (map snd cs) a))"
proof (induction cs arbitrary: st a rs)
  case Nil
  then show ?case by simp
next
  case (Cons ec cs)
  obtain env c where ec: "ec = (env, c)" by fastforce
  obtain r st1 where s: "step env c st = (r, st1)" by fastforce
  obtain rs1 st2 where rn: "run_steps step cs st1 = (rs1, st2)" by fastforce
  obtain b a1 where sp: "spec c a = (b, a1)" by fastforce
  have e: "rs = r # rs1" "st' = st2" using Cons.prems(3) ec s rn by auto
  have r1: "r = b" "rel st1 a1"
    using step_refines [OF Cons.prems(1) _ s] Cons.prems(2,4) ec e sp by auto
  have "rs1 = fst (spec_steps spec (map snd cs) a1) \<and> rel st' (snd (spec_steps spec (map snd cs) a1))"
    by (rule Cons.IH [OF r1(2)]) (use rn e Cons.prems ec sp in auto)
  then show ?case using e r1 ec sp by (auto split: prod.splits)
qed

text \<open>Two replicas, two clocks, one answer.\<close>

lemma replicas_agree:
  assumes "rel st1 a" "rel st2 a" "map snd cs1 = map snd cs2" "able_steps spec able (map snd cs1) a"
    "run_steps step cs1 st1 = (rs1, st1')" "run_steps step cs2 st2 = (rs2, st2')"
    "\<forall>r \<in> set rs1. good r" "\<forall>r \<in> set rs2. good r"
  shows "rs1 = rs2 \<and> (\<exists>a'. rel st1' a' \<and> rel st2' a')"
  using run_refines [OF assms(1) assms(4) assms(5) assms(7)]
    run_refines [OF assms(2) _ assms(6) assms(8)] assms(3,4) by metis

end

end
