(* ===== verification/BrokerState.thy ===== *)
theory BrokerState
  imports Broker Replication
begin

text \<open>
  The broker as a log provider: what its partitions hold, and that \<open>GetPartition\<close> and the updates
  through its pointers keep it. \<open>keeps\<close> relates a running broker to the histories of its topic
  partitions; it interprets the contracts of \<open>Replication\<close>.
\<close>

declare split_paired_All [simp del] split_paired_Ex [simp del]

section \<open>Paths of plain topic names\<close>

definition safe_topic :: "string \<Rightarrow> bool" where
  "safe_topic t \<longleftrightarrow> t \<noteq> '''' \<and> t \<noteq> ''.'' \<and> t \<noteq> ''..'' \<and> CHR ''/'' \<notin> set t"

lemma split_slash_plain: "CHR ''/'' \<notin> set t \<Longrightarrow> split_slash t = [t]"
  by (induction t) auto

lemma clean_append: "clean r out (xs @ ys) = clean r (rev (clean r out xs)) ys"
  by (induction r out xs rule: clean.induct) (auto split: list.splits)

definition plain_comp :: "string \<Rightarrow> bool" where
  "plain_comp c \<longleftrightarrow> c \<noteq> '''' \<and> c \<noteq> ''.'' \<and> c \<noteq> ''..''"

lemma clean_plain: "\<forall>c \<in> set cs. plain_comp c \<Longrightarrow> clean r out cs = rev out @ cs"
  by (induction cs arbitrary: out) (auto simp: plain_comp_def)

lemma partition_path_safe_ex:
  "\<exists>rooted base. \<forall>u i. safe_topic u \<longrightarrow>
     partition_path dataDir u i = (rooted, base @ [''topics'', u, ''partitions'', format_uint i])"
proof -
  let ?r = "dataDir \<noteq> '''' \<and> hd dataDir = CHR ''/''"
  let ?b = "clean ?r [] (split_slash dataDir)"
  have dig: "plain_comp (format_uint i)" for i
  proof -
    have "parse_digits 0 (format_uint i) = Some i" by (rule parse_format)
    then show ?thesis by (auto simp: plain_comp_def digit_val_def)
  qed
  have "partition_path dataDir u i = (?r, ?b @ [''topics'', u, ''partitions'', format_uint i])"
    if "safe_topic u" for u i
  proof -
    have "\<forall>c \<in> set [''topics'', u, ''partitions'', format_uint i]. plain_comp c"
      using that dig by (auto simp: safe_topic_def plain_comp_def)
    then have "clean ?r (rev ?b) [''topics'', u, ''partitions'', format_uint i]
        = ?b @ [''topics'', u, ''partitions'', format_uint i]"
      by (subst clean_plain) auto
    then show ?thesis
      using that by (simp add: partition_path_def Let_def safe_topic_def split_slash_plain
          clean_append [of _ _ "split_slash dataDir"])
  qed
  then show ?thesis by blast
qed

text \<open>Different partitions of plainly named topics have different directories.\<close>

lemma partition_path_inject:
  assumes "safe_topic t" "safe_topic u"
  shows "partition_path dataDir t i = partition_path dataDir u j \<longleftrightarrow> t = u \<and> i = j"
  using partition_path_safe_ex [of dataDir] assms by (auto simp: format_uint_inject)

text \<open>Topic names are not checked: a name with path elements denotes the directories of another topic.\<close>

lemma partition_path_alias: "partition_path ''d'' ''a/../b'' i = partition_path ''d'' ''b'' i"
  by (simp add: partition_path_def)

section \<open>Configuring a log\<close>

lemma SetCompressed_same:
  assumes "log_inv cdc d l mss" shows "log_SetCompressed (log_compressed l) l = l"
proof -
  have "map (seg_SetCompressed (log_compressed l)) (log_segments l) = log_segments l"
    using assms by (intro map_idI)
      (auto simp: log_inv_def log_core_def list_all2_conv_all_nth seg_inv_def in_set_conv_nth seg_SetCompressed_def)
  then show ?thesis by (simp add: log_SetCompressed_def)
qed

lemma log_inv_observer:
  "log_inv cdc d (SetCompressionSavedObserver o1 l) mss = log_inv cdc d l mss"
  by (simp add: SetCompressionSavedObserver_def log_inv_def log_core_def)

lemma seg_inv_empty_compress:
  "seg_inv cdc c d s [] \<Longrightarrow> seg_inv cdc c' d (seg_SetCompressed c' s) []"
  by (simp add: seg_inv_def seg_repr_def seg_open_def seg_files_def msgs_ok_def seg_dense_def
      seg_SetCompressed_def log_bytes_def index_bytes_def)

lemma log_inv_empty_compress:
  assumes "log_inv cdc d l [[]]" shows "log_inv cdc d (log_SetCompressed c l) [[]]"
proof -
  obtain s where s: "log_segments l = [s]" "seg_inv cdc (log_compressed l) d s []"
    using assms by (auto simp: log_inv_def log_core_def list_all2_Cons2)
  then have "seg_inv cdc c d (seg_SetCompressed c s) []" by (rule_tac seg_inv_empty_compress)
  then show ?thesis
    using assms s by (simp add: log_inv_def log_core_def log_SetCompressed_def seg_SetCompressed_def)
qed

lemma observer_simps [simp]:
  "log_compressed (SetCompressionSavedObserver o1 l) = log_compressed l"
  "log_start (SetCompressionSavedObserver o1 l) = log_start l"
  "log_next (SetCompressionSavedObserver o1 l) = log_next l"
  by (simp_all add: SetCompressionSavedObserver_def log_start_def log_next_def)

lemma configure_history:
  assumes h: "log_history cdc (l, d) hs" and c: "log_compressed l = tc_Compressed (broker_TopicConfig t b)"
  shows "log_history cdc (configurePartitionCompression t b l, d) hs"
    and "log_compressed (configurePartitionCompression t b l) = log_compressed l"
proof -
  obtain msgs mss where m: "log_inv cdc d l mss" "concat mss = msgs"
    "map kv msgs = drop (unat (log_start l)) hs" "unat (log_next l) = length hs"
    using h by (auto simp: log_history_def log_holds_def)
  have e: "configurePartitionCompression t b l = SetCompressionSavedObserver True l"
    using SetCompressed_same [OF m(1)] c by (simp add: configurePartitionCompression_def)
  show "log_history cdc (configurePartitionCompression t b l, d) hs"
    unfolding log_history_def fst_conv snd_conv e using m by (auto simp: log_holds_def log_inv_observer)
  show "log_compressed (configurePartitionCompression t b l) = log_compressed l" by (simp add: e)
qed

section \<open>Opening a topic\<close>

lemma log_history_observer:
  "log_history cdc (SetCompressionSavedObserver o1 l, d) hs = log_history cdc (l, d) hs"
  by (simp add: log_history_def log_holds_def log_inv_observer)

text \<open>
  A directory keeps a history if it is the directory of a log that has it, or if it is empty and so
  is the history. The compression flag is not on disk.
\<close>

definition dir_keeps :: "codec \<Rightarrow> bool \<Rightarrow> directory \<Rightarrow> history \<Rightarrow> bool" where
  "dir_keeps cdc c d hs \<longleftrightarrow> lookup_file d = Map.empty \<and> hs = []
     \<or> (\<exists>l. log_history cdc (l, d) hs \<and> log_compressed l = c)"

lemma log_history_same_files:
  assumes "log_history cdc (l, d) hs" "lookup_file d' = lookup_file d" "dir_wf d'"
  shows "log_history cdc (l, d') hs"
proof -
  have "log_inv cdc d' l mss" if "log_inv cdc d l mss" for mss
    using log_inv_same_files [OF that assms(2,3) refl refl] .
  then show ?thesis using assms(1) by (auto simp: log_history_def log_holds_def)
qed

lemma dir_keeps_cong:
  assumes "lookup_file d' = lookup_file d" "dir_wf d'" "dir_keeps cdc c d hs"
  shows "dir_keeps cdc c d' hs"
proof (cases "lookup_file d = Map.empty \<and> hs = []")
  case False
  then obtain l where "log_history cdc (l, d) hs" "log_compressed l = c" using assms(3) by (auto simp: dir_keeps_def)
  then show ?thesis using log_history_same_files [OF _ assms(1,2)] by (auto simp: dir_keeps_def)
qed (use assms(1) in \<open>simp add: dir_keeps_def\<close>)

lemma log_ends_same:
  assumes "log_segments l \<noteq> []" "map seg_baseOffset (log_segments l') = map seg_baseOffset (log_segments l)"
    "map seg_nextOffset (log_segments l') = map seg_nextOffset (log_segments l)"
  shows "log_start l' = log_start l" and "log_next l' = log_next l"
proof -
  have "log_segments l' \<noteq> []" using assms(1,2) by auto
  then show "log_start l' = log_start l" "log_next l' = log_next l"
    using assms by (metis hd_map log_start_def, metis last_map log_next_def)
qed

lemma NewLog_keeps:
  assumes n: "NewLog [] d = (Inr l, d')" and k: "dir_keeps cdc c d hs" and wf: "dir_wf d"
  shows "log_history cdc (log_SetCompressed c l, d') hs" and "dir_wf d'"
proof -
  have "log_history cdc (log_SetCompressed c l, d') hs \<and> dir_wf d'"
  proof (cases "lookup_file d = Map.empty \<and> hs = []")
    case True
    have f: "log_inv cdc d' l [[]]" "log_start l = 0" using NewLog_fresh [OF n _ wf] True by simp_all
    have i: "log_inv cdc d' (log_SetCompressed c l) [[]]" by (rule log_inv_empty_compress [OF f(1)])
    have "log_segments l \<noteq> []" using f by (simp add: log_inv_def log_core_def)
    then have st: "log_start (log_SetCompressed c l) = 0"
      using f log_ends_same(1) [of l "log_SetCompressed c l"]
      by (simp add: log_SetCompressed_def comp_def seg_SetCompressed_def)
    have h: "log_holds cdc d' (log_SetCompressed c l) []" using i by (auto simp: log_holds_def)
    from log_holds_offsets(1,2) [OF h] st have "log_next (log_SetCompressed c l) = 0" by (simp add: unat_eq_zero)
    then show ?thesis using True h i by (auto simp: log_history_def log_inv_def log_core_def)
  next
    case False
    then obtain l0 where l0: "log_history cdc (l0, d) hs" "log_compressed l0 = c"
      using k by (auto simp: dir_keeps_def)
    obtain mss where i: "log_inv cdc d l0 mss" and m: "map kv (concat mss) = drop (unat (log_start l0)) hs"
      "unat (log_next l0) = length hs"
      using l0(1) by (auto simp: log_history_def log_holds_def)
    note ro = NewLog_reopen [OF i refl wf n]
    have ne: "log_segments l0 \<noteq> []" using i by (simp add: log_inv_def log_core_def)
    have i': "log_inv cdc d' (log_SetCompressed c l) mss" using ro(3) [OF refl] l0(2) by simp
    have "log_start (log_SetCompressed c l) = log_start l0" "log_next (log_SetCompressed c l) = log_next l0"
      using log_ends_same [OF ne, of "log_SetCompressed c l"] ro(2) [OF refl]
      by (simp_all add: log_SetCompressed_def comp_def seg_SetCompressed_def)
    then show ?thesis
      using i' m by (auto simp: log_history_def log_holds_def log_inv_def log_core_def)
  qed
  then show "log_history cdc (log_SetCompressed c l, d') hs" "dir_wf d'" by auto
qed

lemma open_partitions_keeps:
  assumes "open_partitions dd t is acc fs = (Inr ls, fs')" "distinct is" "safe_topic t"
    "\<And>i. i \<in> set is \<Longrightarrow> dir_keeps cdc c (fs (partition_path dd t i)) (hs i)" "\<And>p. dir_wf (fs p)"
  shows "\<exists>new. ls = acc @ new \<and> length new = length is
    \<and> (\<forall>j < length is. log_history cdc (log_SetCompressed c (new ! j), fs' (partition_path dd t (is ! j))) (hs (is ! j)))
    \<and> (\<forall>p. p \<notin> partition_path dd t ` set is \<longrightarrow> fs' p = fs p) \<and> (\<forall>p. dir_wf (fs' p))"
  using assms
proof (induction "is" arbitrary: acc fs)
  case Nil
  then show ?case by simp
next
  case (Cons i "is")
  let ?p = "partition_path dd t i"
  obtain l d where n: "NewLog [] (fs ?p) = (Inr l, d)"
    and o: "open_partitions dd t is (acc @ [l]) (fs(?p := d)) = (Inr ls, fs')"
    using Cons.prems(1) by (auto simp: Let_def split: prod.splits sum.splits)
  have nk: "log_history cdc (log_SetCompressed c l, d) (hs i)" "dir_wf d"
    using NewLog_keeps [OF n Cons.prems(4) [of i] Cons.prems(5)] by simp_all
  have np: "partition_path dd t j \<noteq> ?p" if "j \<in> set is" for j
    using that Cons.prems(2,3) partition_path_inject by fastforce
  have wf': "dir_wf ((fs(?p := d)) q)" for q using nk(2) Cons.prems(5) [of q] by simp
  have e': "dir_keeps cdc c ((fs(?p := d)) (partition_path dd t j)) (hs j)" if "j \<in> set is" for j
    using np [OF that] Cons.prems(4) [of j] that by simp
  obtain new where new: "ls = (acc @ [l]) @ new" "length new = length is"
    "\<forall>j < length is. log_history cdc (log_SetCompressed c (new ! j), fs' (partition_path dd t (is ! j))) (hs (is ! j))"
    "\<forall>p. p \<notin> partition_path dd t ` set is \<longrightarrow> fs' p = (fs(?p := d)) p" "\<forall>p. dir_wf (fs' p)"
    using Cons.IH [OF o _ Cons.prems(3) e' wf'] Cons.prems(2) by auto
  have "?p \<notin> partition_path dd t ` set is" using np by (metis imageE)
  then have "fs' ?p = d" using new(4) by simp
  then have "log_history cdc (log_SetCompressed c ((l # new) ! j), fs' (partition_path dd t ((i # is) ! j))) (hs ((i # is) ! j))"
    if "j < length (i # is)" for j
    using that nk new(3) by (cases j) auto
  moreover have "fs' p = fs p" if "p \<notin> partition_path dd t ` set (i # is)" for p
    using that new(4) by auto
  ultimately show ?case using new(1,2,5) by (intro exI [of _ "l # new"]) simp
qed

section \<open>What a broker keeps\<close>

definition partition_keeps :: "codec \<Rightarrow> 'db broker \<Rightarrow> string \<Rightarrow> nat \<Rightarrow> log \<Rightarrow> history \<Rightarrow> bool" where
  "partition_keeps cdc b t i l hs \<longleftrightarrow>
     log_history cdc (l, b_fs b (partition_path (b_dataDir b) t i)) hs
     \<and> log_compressed l = tc_Compressed (broker_TopicConfig t b)"

definition broker_keeps :: "codec \<Rightarrow> 'db broker \<Rightarrow> histories \<Rightarrow> bool" where
  "broker_keeps cdc b h \<longleftrightarrow>
     (\<forall>p. dir_wf (b_fs b p))
     \<and> (\<forall>t ls. b_logs b t = Some ls \<longrightarrow> safe_topic t \<and> length ls = defaultNumPartitions
          \<and> (\<forall>i < defaultNumPartitions. partition_keeps cdc b t i (ls ! i) (h t (int i))))
     \<and> (\<forall>t. safe_topic t \<and> b_logs b t = None \<longrightarrow>
          (\<forall>i < defaultNumPartitions.
             dir_keeps cdc (tc_Compressed (broker_TopicConfig t b))
               (b_fs b (partition_path (b_dataDir b) t i)) (h t (int i))))"

definition broker_known :: "'db broker \<Rightarrow> string \<Rightarrow> int \<Rightarrow> bool" where
  "broker_known b t p \<longleftrightarrow> safe_topic t \<and> 0 \<le> p \<and> p < int defaultNumPartitions \<and> b_logs b t \<noteq> None"

lemma safe_topic_default: "safe_topic t \<Longrightarrow> topic_or_default t = t"
  by (simp add: safe_topic_def topic_or_default_def)

lemma broker_keepsD:
  assumes "broker_keeps cdc b h" "b_logs b t = Some ls"
  shows "safe_topic t" "length ls = defaultNumPartitions"
    "i < defaultNumPartitions \<Longrightarrow> partition_keeps cdc b t i (ls ! i) (h t (int i))"
  using assms by (auto simp: broker_keeps_def)

lemma broker_keeps_disk:
  assumes "broker_keeps cdc b h" "safe_topic t" "b_logs b t = None" "i < defaultNumPartitions"
  shows "dir_keeps cdc (tc_Compressed (broker_TopicConfig t b)) (b_fs b (partition_path (b_dataDir b) t i)) (h t (int i))"
  using assms by (auto simp: broker_keeps_def)

lemma broker_keeps_wf: "broker_keeps cdc b h \<Longrightarrow> dir_wf (b_fs b p)"
  unfolding broker_keeps_def by blast

lemma create_partitions_keeps:
  assumes k: "broker_keeps cdc b h" and t: "safe_topic t" "b_logs b t = None"
    and c: "create_partitions t b = (Inr (), b')"
  shows "broker_keeps cdc b' h" and "b_logs b' t \<noteq> None"
proof -
  let ?path = "partition_path (b_dataDir b) t"
  obtain ls fs where o: "open_partitions (b_dataDir b) t [0..<defaultNumPartitions] [] (b_fs b) = (Inr ls, fs)"
    and b': "b' = b\<lparr>b_fs := fs,
             b_logs := (b_logs b)(t \<mapsto> map (configurePartitionCompression t b) ls),
             b_retentionStarted := (b_retentionStarted b)(t := True),
             b_retentionWorkers := (if b_retentionStarted b t then b_retentionWorkers b
                                    else t # b_retentionWorkers b)\<rparr>"
    using c by (auto simp: create_partitions_def split: prod.splits sum.splits)
  let ?c = "tc_Compressed (broker_TopicConfig t b)"
  have on_disk: "dir_keeps cdc ?c (b_fs b (?path i)) (h t (int i))" if "i < defaultNumPartitions" for i
    using k t that by (auto simp: broker_keeps_def)
  have wf: "dir_wf (b_fs b p)" for p using k unfolding broker_keeps_def by blast
  obtain new where new: "ls = new" "length new = defaultNumPartitions"
    "\<forall>j < defaultNumPartitions. log_history cdc (log_SetCompressed ?c (new ! j), fs (?path j)) (h t (int j))"
    "\<forall>p. p \<notin> ?path ` {0..<defaultNumPartitions} \<longrightarrow> fs p = b_fs b p" "\<forall>p. dir_wf (fs p)"
    using open_partitions_keeps [OF o _ t(1) _ wf, of cdc ?c "\<lambda>i. h t (int i)"] on_disk by auto
  have cfg: "broker_TopicConfig u b' = broker_TopicConfig u b" for u
    by (simp add: broker_TopicConfig_def b')
  have other: "fs (partition_path (b_dataDir b) u i) = b_fs b (partition_path (b_dataDir b) u i)"
    if "safe_topic u" "u \<noteq> t" for u i
  proof -
    have "partition_path (b_dataDir b) u i \<notin> ?path ` {0..<defaultNumPartitions}"
      using that partition_path_inject [OF that(1) t(1)] by blast
    then show ?thesis using new(4) by blast
  qed
  have mine: "partition_keeps cdc b' t i (map (configurePartitionCompression t b) ls ! i) (h t (int i))"
    if "i < defaultNumPartitions" for i
    using that new cfg
    by (simp add: partition_keeps_def b' configurePartitionCompression_def log_history_observer)
      (simp add: log_SetCompressed_def)
  show "b_logs b' t \<noteq> None" by (simp add: b')
  show "broker_keeps cdc b' h"
    unfolding broker_keeps_def
  proof (intro conjI allI impI)
    show "dir_wf (b_fs b' p)" for p using new(5) by (simp add: b')
  next
    fix u us assume u: "b_logs b' u = Some us"
    show "safe_topic u" "length us = defaultNumPartitions"
      using u t new(1,2) broker_keepsD(1,2) [OF k] by (auto simp: b' split: if_splits)
    fix i assume i: "i < defaultNumPartitions"
    show "partition_keeps cdc b' u i (us ! i) (h u (int i))"
    proof (cases "u = t")
      case True
      then show ?thesis using u mine [OF i] by (simp add: b')
    next
      case False
      then have "b_logs b u = Some us" using u by (simp add: b')
      then show ?thesis
        using broker_keepsD [OF k, of u us] False i other [of u i] cfg
        by (simp add: partition_keeps_def b')
    qed
  next
    fix u i assume u: "safe_topic u \<and> b_logs b' u = None" and i: "i < defaultNumPartitions"
    then have "u \<noteq> t" "b_logs b u = None" by (auto simp: b' split: if_splits)
    then show "dir_keeps cdc (tc_Compressed (broker_TopicConfig u b')) (b_fs b' (partition_path (b_dataDir b') u i)) (h u (int i))"
      using u i k other [of u i] by (auto simp: broker_keeps_def b' cfg [unfolded b'])
  qed
qed

lemma set_partition_keeps:
  assumes k: "broker_keeps cdc b h" and kn: "broker_known b t p"
    and ld: "log_history cdc ld hs" "log_compressed (fst ld) = tc_Compressed (broker_TopicConfig t b)"
  shows "broker_keeps cdc (set_partition_log t p ld b) (h(t := (h t)(p := hs)))"
proof -
  let ?b = "set_partition_log t p ld b" and ?h = "h(t := (h t)(p := hs))"
  have t: "safe_topic t" "topic_or_default t = t" and p: "0 \<le> p" "p < int defaultNumPartitions"
    using kn safe_topic_default by (auto simp: broker_known_def)
  obtain ls where ls: "b_logs b t = Some ls" using kn by (auto simp: broker_known_def)
  have len: "length ls = defaultNumPartitions" by (rule broker_keepsD(2) [OF k ls])
  let ?path = "partition_path (b_dataDir b) t (nat p)"
  have b': "b_logs ?b = (b_logs b)(t \<mapsto> ls[nat p := fst ld])" "b_fs ?b = (b_fs b)(?path := snd ld)"
    "b_dataDir ?b = b_dataDir b" "broker_TopicConfig u ?b = broker_TopicConfig u b" for u
    using t ls by (simp_all add: set_partition_log_def broker_TopicConfig_def Let_def)
  have wf: "dir_wf (snd ld)" using ld(1) by (auto simp: log_history_def log_holds_def log_inv_def log_core_def)
  have other: "b_fs ?b (partition_path (b_dataDir b) u i) = b_fs b (partition_path (b_dataDir b) u i)"
    if "safe_topic u" "(u, i) \<noteq> (t, nat p)" for u i
    using that partition_path_inject [OF that(1) t(1)] by (auto simp: b')
  show ?thesis
    unfolding broker_keeps_def
  proof (intro conjI allI impI)
    have "dir_wf (b_fs b q)" for q using k unfolding broker_keeps_def by blast
    then show "dir_wf (b_fs ?b q)" for q using wf by (simp add: b')
  next
    fix u us assume u: "b_logs ?b u = Some us"
    show su: "safe_topic u" "length us = defaultNumPartitions"
      using u t(1) len broker_keepsD(1,2) [OF k] by (auto simp: b' split: if_splits)
    fix i assume i: "i < defaultNumPartitions"
    show "partition_keeps cdc ?b u i (us ! i) (?h u (int i))"
    proof (cases "(u, i) = (t, nat p)")
      case True
      then show ?thesis
        using u ld p len i by (auto simp: partition_keeps_def b')
    next
      case False
      then have "u = t \<longrightarrow> int i \<noteq> p" by auto
      then obtain vs where v: "b_logs b u = Some vs" "us ! i = vs ! i" "?h u (int i) = h u (int i)"
        using u ls p False by (auto simp: b' split: if_splits)
      then show ?thesis
        using broker_keepsD(3) [OF k v(1) i] other [OF su(1) False] by (simp add: partition_keeps_def b')
    qed
  next
    fix u i assume u: "safe_topic u \<and> b_logs ?b u = None" and i: "i < defaultNumPartitions"
    then have n: "u \<noteq> t" "b_logs b u = None" by (auto simp: b' split: if_splits)
    then show "dir_keeps cdc (tc_Compressed (broker_TopicConfig u ?b)) (b_fs ?b (partition_path (b_dataDir ?b) u i)) (?h u (int i))"
      using u i k other [of u i] by (auto simp: broker_keeps_def b')
  qed
qed

lemma partition_log_known:
  assumes k: "broker_keeps cdc b h" and kn: "broker_known b t p"
  shows "log_history cdc (partition_log t p b) (h t p)"
    and "log_compressed (fst (partition_log t p b)) = tc_Compressed (broker_TopicConfig t b)"
proof -
  obtain ls where ls: "b_logs b t = Some ls" using kn by (auto simp: broker_known_def)
  have "partition_keeps cdc b t (nat p) (ls ! nat p) (h t (int (nat p)))"
    using broker_keepsD(3) [OF k ls, of "nat p"] kn by (auto simp: broker_known_def)
  then show "log_history cdc (partition_log t p b) (h t p)"
    "log_compressed (fst (partition_log t p b)) = tc_Compressed (broker_TopicConfig t b)"
    using kn ls by (simp_all add: partition_log_def partition_keeps_def broker_known_def safe_topic_default Let_def)
qed

lemma GetPartition_keeps:
  assumes k: "broker_keeps cdc b h" and t: "safe_topic t" and g: "GetPartition t p b = (Inr (), b')"
  shows "broker_keeps cdc b' h" and "broker_known b' t p"
proof -
  have td: "topic_or_default t = t" using t by (rule safe_topic_default)
  have p: "0 \<le> p" "p < int defaultNumPartitions"
    using g by (auto simp: GetPartition_def Let_def split: if_splits)
  have "broker_keeps cdc b' h \<and> b_logs b' t \<noteq> None"
  proof (cases "b_logs b t")
    case None
    then show ?thesis
      using create_partitions_keeps [OF k t None] g p td by (auto simp: GetPartition_def Let_def)
  next
    case (Some ls)
    then have kn: "broker_known b t p" using p t by (simp add: broker_known_def)
    let ?l = "configurePartitionCompression t b (ls ! nat p)"
    have len: "nat p < length ls" using broker_keepsD(2) [OF k Some] p by simp
    let ?d = "b_fs b (partition_path (b_dataDir b) t (nat p))"
    have pl: "partition_log t p b = (ls ! nat p, ?d)" using Some td by (simp add: partition_log_def Let_def)
    have h: "log_history cdc (?l, ?d) (h t p)" "log_compressed ?l = tc_Compressed (broker_TopicConfig t b)"
      using configure_history [of cdc "ls ! nat p" ?d "h t p" t b] partition_log_known [OF k kn] pl by simp_all
    have "b' = b\<lparr>b_logs := (b_logs b)(t \<mapsto> ls[nat p := ?l])\<rparr>"
      using g p td Some len by (auto simp: GetPartition_def Let_def)
    then have "b' = set_partition_log t p (?l, ?d) b"
      using td Some by (simp add: set_partition_log_def Let_def)
    then show ?thesis
      using set_partition_keeps [OF k kn, of "(?l, ?d)" "h t p"] h Some td
      by (simp add: set_partition_log_def Let_def)
  qed
  then show "broker_keeps cdc b' h" "broker_known b' t p" using t p by (auto simp: broker_known_def)
qed

section \<open>The broker implements the contracts\<close>

interpretation bp: log_provider broker_provider cdc "broker_keeps cdc" broker_known safe_topic
  for cdc :: codec
proof unfold_locales
  fix st :: "'a broker" and h t p st'
  assume "broker_keeps cdc st h" "safe_topic t" "prov_get broker_provider t p st = (Inr (), st')"
  then show "broker_keeps cdc st' h \<and> broker_known st' t p"
    using GetPartition_keeps by (auto simp: broker_provider_def)
next
  fix st :: "'a broker" and h t p
  assume "broker_keeps cdc st h" "broker_known st t p"
  then show "log_history cdc (prov_log broker_provider t p st) (h t p)"
    using partition_log_known(1) by (simp add: broker_provider_def)
next
  fix st :: "'a broker" and h t p ld hs
  assume "broker_keeps cdc st h" "broker_known st t p" "log_history cdc ld hs"
    "log_compressed (fst ld) = log_compressed (fst (prov_log broker_provider t p st))"
  then show "broker_keeps cdc (prov_set broker_provider t p ld st) (h(t := (h t)(p := hs)))"
    using set_partition_keeps [of cdc st h t p ld hs] partition_log_known(2) [of cdc st h t p]
    by (simp add: broker_provider_def)
next
  fix st :: "'a broker" and h t p and ld :: "log \<times> directory"
  assume k: "broker_keeps cdc st h" "broker_known st t p"
  then obtain ls where ls: "b_logs st t = Some ls" by (auto simp: broker_known_def)
  then have "nat p < length ls" using broker_keepsD(2) [OF k(1) ls] k(2) by (auto simp: broker_known_def)
  then show "prov_log broker_provider t p (prov_set broker_provider t p ld st) = ld"
    using ls k(2)
    by (simp add: broker_provider_def partition_log_def set_partition_log_def broker_known_def
        safe_topic_default Let_def)
next
  fix st :: "'a broker" and t p and ld :: "log \<times> directory"
  assume "broker_known st t p"
  then show "broker_known (prov_set broker_provider t p ld st) t p"
    by (simp add: broker_provider_def set_partition_log_def broker_known_def Let_def)
qed

definition cmd_able :: "command \<Rightarrow> histories \<Rightarrow> bool" where
  "cmd_able c h \<longleftrightarrow> cmd_wf c \<and> safe_topic (cmd_topic c)
     \<and> length (h (cmd_topic c) (cmd_part c)) + length (cmd_kvs c) < 2 ^ 64"

definition broker_step :: "codec \<Rightarrow> i64 \<Rightarrow> command \<Rightarrow> 'db broker \<Rightarrow> response \<times> 'db broker" where
  "broker_step cdc now c b = Apply cdc broker_provider now (encode c) b"

interpretation rep: replicated "broker_step cdc" "broker_keeps cdc" spec_apply accepted cmd_able
  for cdc :: codec
  by unfold_locales (unfold broker_step_def cmd_able_def, rule bp.Apply_refines(1), auto)

section \<open>A new broker\<close>

lemma broker_init_keeps:
  assumes "\<And>p. files (fs p) = [] \<and> subdirs (fs p) = []"
  shows "broker_keeps cdc (broker_init dataDir groups fs) (\<lambda>_ _. [])"
  using assms
  by (auto simp: broker_keeps_def broker_init_def dir_keeps_def lookup_file_def dir_wf_def dom_def)

end
