(* ===== verification/BrokerApi.thy ===== *)
theory BrokerApi
  imports BrokerState
begin

text \<open>
  The gRPC methods and HTTP handlers of \<open>src/internal/broker/broker.go\<close>, and the address and join
  helpers. A gRPC request is a record with the fields of the message the method reads. An HTTP
  handler gets the method, the query parameters and the result of decoding the JSON body; its
  answer is an error with a status, an empty 200, or the value that is encoded as JSON.
\<close>

section \<open>Counters\<close>

definition count_produced :: "nat \<Rightarrow> 'db broker \<Rightarrow> 'db broker" where
  "count_produced n b = b\<lparr>b_metrics := (b_metrics b)\<lparr>m_produced := m_produced (b_metrics b) + n\<rparr>\<rparr>"
definition count_consumed :: "nat \<Rightarrow> 'db broker \<Rightarrow> 'db broker" where
  "count_consumed n b = b\<lparr>b_metrics := (b_metrics b)\<lparr>m_consumed := m_consumed (b_metrics b) + n\<rparr>\<rparr>"
definition count_produce_error :: "'db broker \<Rightarrow> 'db broker" where
  "count_produce_error b = b\<lparr>b_metrics := (b_metrics b)\<lparr>m_produceErrors := m_produceErrors (b_metrics b) + 1\<rparr>\<rparr>"
definition count_consume_error :: "'db broker \<Rightarrow> 'db broker" where
  "count_consume_error b = b\<lparr>b_metrics := (b_metrics b)\<lparr>m_consumeErrors := m_consumeErrors (b_metrics b) + 1\<rparr>\<rparr>"

definition in_range :: "int \<Rightarrow> bool" where
  "in_range p \<longleftrightarrow> \<not> (p < 0 \<or> p \<ge> int defaultNumPartitions)"

section \<open>gRPC\<close>

record ProduceRequest =
  pr_Topic :: string
  pr_Key :: bytes
  pr_Value :: bytes
  pr_Partition :: "i32 option"

definition Produce :: "codec \<Rightarrow> raft_call \<Rightarrow> ProduceRequest \<Rightarrow> 'db broker \<Rightarrow> u64 res \<times> 'db broker" where
  "Produce cdc rc req b =
     (case Publish cdc rc (pr_Topic req) (pr_Key req) (pr_Value req) (pr_Partition req) b of
        (Inl e, b') \<Rightarrow> (Inl e, count_produce_error b')
      | (Inr offset, b') \<Rightarrow> (Inr offset, count_produced 1 b'))"

record ProduceBatchRequest =
  pbr_Topic :: string
  pbr_Partition :: i32
  pbr_Records :: "BatchRecord option list"

text \<open>Failures are reported in the response (\<open>Inl\<close>: its \<open>Error\<close> field), never as an RPC error.\<close>

definition ProduceBatch ::
  "codec \<Rightarrow> raft_call \<Rightarrow> ProduceBatchRequest \<Rightarrow> 'db broker \<Rightarrow> i64 list res \<times> 'db broker" where
  "ProduceBatch cdc rc req b =
     (let topic = topic_or_default (pbr_Topic req)
      in if \<not> in_range (sint (pbr_Partition req))
         then (Inl (NumErr ''partition out of range'' (sint (pbr_Partition req))), count_produce_error b)
         else if pbr_Records req = []
         then (Inl (Msg ''records must not be empty''), count_produce_error b)
         else case PublishBatch cdc rc topic (pbr_Partition req) (pbr_Records req) b of
           (Inl e, b') \<Rightarrow> (Inl e, count_produce_error b')
         | (Inr offsets, b') \<Rightarrow> (Inr offsets, count_produced (length offsets) b'))"

record ConsumeRequest =
  cr_Topic :: string
  cr_Partition :: "i32 option"
  cr_Offset :: u64

definition Consume ::
  "codec \<Rightarrow> ConsumeRequest \<Rightarrow> 'db broker \<Rightarrow> (u64 \<times> bytes \<times> bytes) res \<times> 'db broker" where
  "Consume cdc req b =
     (let part = (case cr_Partition req of None \<Rightarrow> 0 | Some p \<Rightarrow> p)
      in case broker_Read cdc (cr_Topic req) (sint part) (cr_Offset req) b of
           (Inl e, b') \<Rightarrow> (Inl e, count_consume_error b')
         | (Inr m, b') \<Rightarrow> (Inr (msg_Offset m, msg_Key m, msg_Value m), count_consumed 1 b'))"

record ConsumeBatchRequest =
  cbr_Topic :: string
  cbr_Partition :: i32
  cbr_Offset :: i64
  cbr_MaxCount :: i32

record ConsumedRecord =
  cor_Offset :: i64
  cor_Key :: bytes
  cor_Value :: bytes
  cor_Timestamp :: i64

definition consumed :: "message \<Rightarrow> ConsumedRecord" where
  "consumed m = \<lparr>cor_Offset = msg_Offset m, cor_Key = msg_Key m, cor_Value = msg_Value m,
     cor_Timestamp = msg_Timestamp m\<rparr>"

definition ConsumeBatch ::
  "codec \<Rightarrow> ConsumeBatchRequest \<Rightarrow> 'db broker \<Rightarrow> ConsumedRecord list res option \<times> 'db broker" where
  "ConsumeBatch cdc req b =
     (let topic = topic_or_default (cbr_Topic req)
      in if \<not> in_range (sint (cbr_Partition req))
         then (Some (Inl (NumErr ''partition out of range'' (sint (cbr_Partition req)))), count_consume_error b)
         else if sint (cbr_Offset req) < 0
         then (Some (Inl (Msg ''offset must be non-negative'')), count_consume_error b)
         else if sint (cbr_MaxCount req) \<le> 0
         then (Some (Inl (Msg ''max_count must be greater than zero'')), count_consume_error b)
         else
           let maxCount = (if sint (cbr_MaxCount req) > 1000 then 1000 else cbr_MaxCount req)
           in case broker_ReadBatch cdc topic (sint (cbr_Partition req)) (cbr_Offset req) maxCount b of
                (None, b') \<Rightarrow> (None, b')
              | (Some (Inl e), b') \<Rightarrow> (Some (Inl e), count_consume_error b')
              | (Some (Inr ms), b') \<Rightarrow> (Some (Inr (map consumed ms)), count_consumed (length ms) b'))"

record OffsetRequest =
  or_GroupId :: string
  or_Topic :: string
  or_Partition :: i32
  or_Offset :: u64

definition store_commit ::
  "'db bolt \<Rightarrow> string \<Rightarrow> string \<Rightarrow> i32 \<Rightarrow> u64 \<Rightarrow> 'db broker \<Rightarrow> unit res \<times> 'db broker" where
  "store_commit ops groupID topic part offset b =
     (case cg_CommitOffset ops groupID topic part offset (b_consumerGroups b) of
        (Inl e, s) \<Rightarrow> (Inl e, b\<lparr>b_consumerGroups := s\<rparr>)
      | (Inr _, s) \<Rightarrow>
          (Inr (), updateConsumerGroupLagFor groupID topic part offset (b\<lparr>b_consumerGroups := s\<rparr>)))"

definition CommitOffset :: "'db bolt \<Rightarrow> OffsetRequest \<Rightarrow> 'db broker \<Rightarrow> unit res \<times> 'db broker" where
  "CommitOffset ops req b =
     (if or_GroupId req = '''' then (Inl (Msg ''group_id is required''), b)
      else if \<not> in_range (sint (or_Partition req))
      then (Inl (NumErr ''partition out of range'' (sint (or_Partition req))), b)
      else store_commit ops (or_GroupId req) (topic_or_default (or_Topic req)) (or_Partition req)
             (or_Offset req) b)"

definition FetchOffset :: "OffsetRequest \<Rightarrow> 'db broker \<Rightarrow> u64 res" where
  "FetchOffset req b =
     (if or_GroupId req = '''' then Inl (Msg ''group_id is required'')
      else if \<not> in_range (sint (or_Partition req))
      then Inl (NumErr ''partition out of range'' (sint (or_Partition req)))
      else Inr (cg_FetchOffset (or_GroupId req) (topic_or_default (or_Topic req)) (or_Partition req)
                 (b_consumerGroups b)))"

section \<open>HTTP\<close>

datatype 'a reply = Fail nat error | Ok | Body 'a

text \<open>\<open>strconv.ParseInt(s, 10, bits)\<close>; \<open>Atoi\<close> is the case of 64 bits.\<close>

definition ParseInt :: "nat \<Rightarrow> string \<Rightarrow> int option" where
  "ParseInt bits s =
     (let neg = (s \<noteq> [] \<and> hd s = CHR ''-'');
          ds = (if s \<noteq> [] \<and> (hd s = CHR ''-'' \<or> hd s = CHR ''+'') then tl s else s)
      in if ds = [] then None
         else case parse_digits 0 ds of
           None \<Rightarrow> None
         | Some n \<Rightarrow>
             if neg then (if n \<le> 2 ^ (bits - 1) then Some (- int n) else None)
             else (if n < 2 ^ (bits - 1) then Some (int n) else None))"

definition Atoi :: "string \<Rightarrow> int option" where "Atoi s = ParseInt 64 s"

record produced_body =
  pb_Offset :: u64
  pb_Topic :: string
  pb_Partition :: int

definition handleProduce ::
  "codec \<Rightarrow> raft_call \<Rightarrow> string \<Rightarrow> ProduceRequest res \<Rightarrow> 'db broker \<Rightarrow> produced_body reply \<times> 'db broker" where
  "handleProduce cdc rc method body b =
     (if method \<noteq> ''POST'' then (Fail 405 (Msg ''method not allowed''), count_produce_error b)
      else case body of
        Inl e \<Rightarrow> (Fail 400 e, count_produce_error b)
      | Inr request \<Rightarrow>
          let topic = topic_or_default (pr_Topic request)
          in case Publish cdc rc topic (pr_Key request) (pr_Value request) (pr_Partition request) b of
               (Inl e, b') \<Rightarrow> (Fail 500 e, count_produce_error b')
             | (Inr offset, b') \<Rightarrow>
                 (Body \<lparr>pb_Offset = offset, pb_Topic = topic,
                        pb_Partition = partitionValue (pr_Partition request)\<rparr>, count_produced 1 b'))"

record consumed_body =
  cb_Offset :: u64
  cb_Topic :: string
  cb_Partition :: int
  cb_Key :: bytes
  cb_Value :: bytes

definition handleConsume ::
  "codec \<Rightarrow> string \<Rightarrow> (string \<Rightarrow> string) \<Rightarrow> 'db broker \<Rightarrow> consumed_body reply \<times> 'db broker" where
  "handleConsume cdc method query b =
     (if method \<noteq> ''GET'' then (Fail 405 (Msg ''method not allowed''), count_consume_error b)
      else
        let topic = topic_or_default (query ''topic'')
        in case (if query ''partition'' = '''' then Some 0 else Atoi (query ''partition'')) of
             None \<Rightarrow> (Fail 400 (Msg ''invalid partition''), count_consume_error b)
           | Some part \<Rightarrow>
               if query ''offset'' = '''' then (Fail 400 (Msg ''missing offset''), count_consume_error b)
               else case ParseUint (query ''offset'') of
                 None \<Rightarrow> (Fail 400 (Msg ''invalid offset''), count_consume_error b)
               | Some offset \<Rightarrow>
                   (case broker_Read cdc topic part offset b of
                      (Inl e, b') \<Rightarrow> (Fail 404 e, count_consume_error b')
                    | (Inr m, b') \<Rightarrow>
                        (Body \<lparr>cb_Offset = msg_Offset m, cb_Topic = topic, cb_Partition = part,
                               cb_Key = msg_Key m, cb_Value = msg_Value m\<rparr>, count_consumed 1 b')))"

definition handleCommitOffset ::
  "'db bolt \<Rightarrow> string \<Rightarrow> OffsetRequest res \<Rightarrow> 'db broker \<Rightarrow> unit reply \<times> 'db broker" where
  "handleCommitOffset ops method body b =
     (if method \<noteq> ''POST'' then (Fail 405 (Msg ''method not allowed''), b)
      else case body of
        Inl e \<Rightarrow> (Fail 400 e, b)
      | Inr request \<Rightarrow>
          if or_GroupId request = '''' then (Fail 400 (Msg ''group_id is required''), b)
          else if \<not> in_range (sint (or_Partition request)) then (Fail 400 (Msg ''invalid partition''), b)
          else
            let topic = topic_or_default (or_Topic request)
            in case cg_CommitOffset ops (or_GroupId request) topic (or_Partition request) (or_Offset request)
                      (b_consumerGroups b) of
                 (Inl e, s) \<Rightarrow> (Fail 500 e, b\<lparr>b_consumerGroups := s\<rparr>)
               | (Inr _, s) \<Rightarrow>
                   (Ok, updateConsumerGroupLagFor (or_GroupId request) topic (or_Partition request)
                          (or_Offset request) (b\<lparr>b_consumerGroups := s\<rparr>)))"

definition handleFetchOffset :: "string \<Rightarrow> (string \<Rightarrow> string) \<Rightarrow> 'db broker \<Rightarrow> u64 reply" where
  "handleFetchOffset method query b =
     (if method \<noteq> ''GET'' then Fail 405 (Msg ''method not allowed'')
      else if query ''group_id'' = '''' then Fail 400 (Msg ''missing group_id'')
      else
        let topic = topic_or_default (query ''topic'')
        in if query ''partition'' = '''' then Fail 400 (Msg ''missing partition'')
           else case ParseInt 32 (query ''partition'') of
             None \<Rightarrow> Fail 400 (Msg ''invalid partition'')
           | Some part \<Rightarrow>
               if \<not> in_range part then Fail 400 (Msg ''invalid partition'')
               else Body (cg_FetchOffset (query ''group_id'') topic (word_of_int part) (b_consumerGroups b)))"

section \<open>Cluster membership\<close>

record raft_server =
  rs_ID :: string
  rs_Address :: string
  rs_Voter :: bool

text \<open>
  \<open>handleJoin\<close>: \<open>config\<close> is what \<open>raft.GetConfiguration\<close> returns and \<open>addVoter\<close> the outcome of
  \<open>raft.AddVoter\<close>; the second result is the \<open>AddVoter\<close> call that was made, if any.
\<close>

definition handleJoin ::
  "string \<Rightarrow> (string \<times> string) res \<Rightarrow> raft_server list res \<Rightarrow> (string \<Rightarrow> string \<Rightarrow> unit res)
     \<Rightarrow> unit reply \<times> (string \<times> string) option" where
  "handleJoin method body config addVoter =
     (if method \<noteq> ''POST'' then (Fail 405 (Msg ''method not allowed''), None)
      else case body of
        Inl e \<Rightarrow> (Fail 400 e, None)
      | Inr (reqID, addr) \<Rightarrow>
          if reqID = '''' \<or> addr = '''' then (Fail 400 (Msg ''id and addr are required''), None)
          else case config of
            Inl e \<Rightarrow> (Fail 500 e, None)
          | Inr servers \<Rightarrow>
              if \<exists>s \<in> set servers. rs_ID s = reqID \<and> rs_Voter s then (Ok, None)
              else case addVoter reqID addr of
                Inl e \<Rightarrow> (Fail 500 e, Some (reqID, addr))
              | Inr _ \<Rightarrow> (Ok, Some (reqID, addr)))"

text \<open>
  The retry loop of \<open>joinPeer\<close>: \<open>post n\<close> is the outcome of the \<open>n\<close>-th request, an error or a
  status code; the second result is the number of requests made.
\<close>

fun join_attempts :: "(nat \<Rightarrow> nat res) \<Rightarrow> nat \<Rightarrow> nat \<Rightarrow> error \<Rightarrow> unit res \<times> nat" where
  "join_attempts post attempt 0 lastErr = (Inl (Wrap ''failed to join peer after 5 attempts'' lastErr), attempt)"
| "join_attempts post attempt (Suc n) lastErr =
     (case post attempt of
        Inr status \<Rightarrow>
          if status \<ge> 200 \<and> status < 300 then (Inr (), Suc attempt)
          else join_attempts post (Suc attempt) n (NumErr ''join request returned status'' (int status))
      | Inl e \<Rightarrow> join_attempts post (Suc attempt) n e)"

definition joinPeer :: "(nat \<Rightarrow> nat res) \<Rightarrow> unit res \<times> nat" where
  "joinPeer post = join_attempts post 0 5 (Msg ''nil'')"

section \<open>Addresses\<close>

text \<open>\<open>net.SplitHostPort\<close> and \<open>net.JoinHostPort\<close>.\<close>

fun last_index :: "char \<Rightarrow> string \<Rightarrow> nat option" where
  "last_index c [] = None"
| "last_index c (x # xs) =
     (case last_index c xs of Some i \<Rightarrow> Some (Suc i) | None \<Rightarrow> if x = c then Some 0 else None)"

fun first_index :: "char \<Rightarrow> string \<Rightarrow> nat option" where
  "first_index c [] = None"
| "first_index c (x # xs) = (if x = c then Some 0 else map_option Suc (first_index c xs))"

definition SplitHostPort :: "string \<Rightarrow> (string \<times> string) option" where
  "SplitHostPort hostport =
     (case last_index CHR '':'' hostport of
        None \<Rightarrow> None
      | Some i \<Rightarrow>
          if hd hostport = CHR ''['' then
            (case first_index CHR '']'' hostport of
               None \<Rightarrow> None
             | Some e \<Rightarrow>
                 if e + 1 \<noteq> i then None
                 else if CHR ''['' \<in> set (drop 1 hostport) \<or> CHR '']'' \<in> set (drop (e + 1) hostport) then None
                 else Some (take (e - 1) (drop 1 hostport), drop (i + 1) hostport))
          else if CHR '':'' \<in> set (take i hostport) then None
          else if CHR ''['' \<in> set hostport \<or> CHR '']'' \<in> set hostport then None
          else Some (take i hostport, drop (i + 1) hostport))"

definition JoinHostPort :: "string \<Rightarrow> string \<Rightarrow> string" where
  "JoinHostPort host port =
     (if CHR '':'' \<in> set host then ''['' @ host @ '']:'' @ port else host @ '':'' @ port)"

definition Itoa :: "int \<Rightarrow> string" where
  "Itoa i = (if i < 0 then ''-'' @ format_uint (nat (- i)) else format_uint (nat i))"

definition grpcAddress :: "string \<Rightarrow> string res" where
  "grpcAddress httpAddr =
     (case SplitHostPort httpAddr of
        None \<Rightarrow> Inl (Msg ''invalid HTTP address'')
      | Some (host, portString) \<Rightarrow>
          (case Atoi portString of
             None \<Rightarrow> Inl (Msg ''invalid HTTP port'')
           | Some port \<Rightarrow>
               if port > 65535 - 1000 then Inl (NumErr ''HTTP port is too high for gRPC port offset'' port)
               else Inr (JoinHostPort host (Itoa (port + 1000)))))"

end
