(* ===== verification/BrokerAdmin.thy ===== *)
theory BrokerAdmin
  imports BrokerApi
begin

text \<open>
  The read-only admin endpoints of \<open>src/internal/broker/broker.go\<close> and \<open>Close\<close>. Go maps are ranged
  over in an unspecified order, which is an argument here.
\<close>

section \<open>Admin endpoints\<close>

record partition_info =
  pi_ID :: nat
  pi_LatestOffset :: u64

definition topic_info :: "log list \<Rightarrow> partition_info list" where
  "topic_info partitions =
     map (\<lambda>(i, l). \<lparr>pi_ID = i, pi_LatestOffset = LatestOffset l\<rparr>) (enumerate 0 partitions)"

definition handleAdminTopics ::
  "string \<Rightarrow> string list \<Rightarrow> 'db broker \<Rightarrow> (string \<times> partition_info list) list reply" where
  "handleAdminTopics method order b =
     (if method \<noteq> ''GET'' then Fail 405 (Msg ''method not allowed'')
      else Body (map (\<lambda>t. (t, topic_info (the (b_logs b t)))) order))"

record offset_info =
  oi_Topic :: string
  oi_Partition :: i32
  oi_Committed :: u64
  oi_Lag :: u64

text \<open>The latest offset as the handler looks it up: zero when the topic is not open.\<close>

definition known_latest :: "'db broker \<Rightarrow> string \<Rightarrow> i32 \<Rightarrow> u64" where
  "known_latest b topic part =
     (case b_logs b topic of
        None \<Rightarrow> 0
      | Some partitions \<Rightarrow>
          if sint part \<ge> 0 \<and> sint part < int (length partitions)
          then LatestOffset (partitions ! nat (sint part)) else 0)"

definition group_offset :: "'db broker \<Rightarrow> ConsumerGroupOffset \<Rightarrow> offset_info" where
  "group_offset b c =
     \<lparr>oi_Topic = cgo_Topic c, oi_Partition = cgo_Partition c, oi_Committed = cgo_Offset c,
      oi_Lag = lag_of (known_latest b (cgo_Topic c) (cgo_Partition c)) (cgo_Offset c)\<rparr>"

text \<open>The loop that fills \<open>groupMap\<close>.\<close>

fun group_offsets ::
  "'db broker \<Rightarrow> ConsumerGroupOffset list \<Rightarrow> (string \<rightharpoonup> offset_info list) \<Rightarrow> string \<rightharpoonup> offset_info list" where
  "group_offsets b [] m = m"
| "group_offsets b (c # cs) m =
     group_offsets b cs
       (m(cgo_GroupID c \<mapsto>
            (case m (cgo_GroupID c) of None \<Rightarrow> [] | Some os \<Rightarrow> os) @ [group_offset b c]))"

definition handleAdminGroups ::
  "string \<Rightarrow> string list \<Rightarrow> string list \<Rightarrow> 'db broker \<Rightarrow> (string \<times> offset_info list) list reply" where
  "handleAdminGroups method keys order b =
     (if method \<noteq> ''GET'' then Fail 405 (Msg ''method not allowed'')
      else
        let groupMap = group_offsets b (cg_Snapshot keys (b_consumerGroups b)) Map.empty
        in Body (map (\<lambda>g. (g, the (groupMap g))) order))"

record cluster_info =
  ci_State :: string
  ci_Leader :: string
  ci_Peers :: "string list"

definition handleAdminCluster ::
  "string \<Rightarrow> raft_server list res \<Rightarrow> string \<Rightarrow> string \<Rightarrow> cluster_info reply" where
  "handleAdminCluster method config state leader =
     (if method \<noteq> ''GET'' then Fail 405 (Msg ''method not allowed'')
      else case config of
        Inl e \<Rightarrow> Fail 500 e
      | Inr servers \<Rightarrow>
          Body \<lparr>ci_State = state, ci_Leader = leader, ci_Peers = map rs_Address servers\<rparr>)"

text \<open>
  \<open>writeAdminJSON\<close>: \<open>marshal\<close> is \<open>json.MarshalIndent\<close>; the body ends with a newline.
\<close>

definition writeAdminJSON :: "('a \<Rightarrow> string res) \<Rightarrow> 'a \<Rightarrow> string reply" where
  "writeAdminJSON marshal v =
     (case marshal v of Inl e \<Rightarrow> Fail 500 e | Inr data \<Rightarrow> Body (data @ [CHR 0x0A]))"

section \<open>The Raft node\<close>

text \<open>
  \<open>state\<close> is what \<open>raft.State().String()\<close> says, \<open>leaderWithID\<close> the result of \<open>raft.LeaderWithID\<close>, and
  \<open>addVoter\<close> the outcome of \<open>raft.AddVoter\<close>.
\<close>

definition IsLeader :: "string \<Rightarrow> bool" where
  "IsLeader state \<longleftrightarrow> state = ''Leader''"

definition Leader :: "string \<times> string \<Rightarrow> string" where
  "Leader leaderWithID = fst leaderWithID"

definition Join :: "(string \<Rightarrow> string \<Rightarrow> unit res) \<Rightarrow> string \<Rightarrow> string \<Rightarrow> unit res" where
  "Join addVoter id' address = addVoter id' address"

section \<open>Registering the counters\<close>

datatype register_error = AlreadyRegistered | RegisterError error

text \<open>\<open>register\<close> is \<open>prometheus.Register\<close>; an error other than a repeated registration panics.\<close>

definition mustRegisterOnce ::
  "(string \<Rightarrow> 'reg \<Rightarrow> register_error option \<times> 'reg) \<Rightarrow> string \<Rightarrow> 'reg \<Rightarrow> 'reg res" where
  "mustRegisterOnce register c reg =
     (case register c reg of
        (None, reg') \<Rightarrow> Inr reg'
      | (Some AlreadyRegistered, reg') \<Rightarrow> Inr reg'
      | (Some (RegisterError e), reg') \<Rightarrow> Inl (Wrap ''panic'' e))"

fun register_all ::
  "(string \<Rightarrow> 'reg \<Rightarrow> register_error option \<times> 'reg) \<Rightarrow> string list \<Rightarrow> 'reg \<Rightarrow> 'reg res" where
  "register_all register [] reg = Inr reg"
| "register_all register (c # cs) reg =
     (case mustRegisterOnce register c reg of
        Inl e \<Rightarrow> Inl e
      | Inr reg' \<Rightarrow> register_all register cs reg')"

definition package_init :: "(string \<Rightarrow> 'reg \<Rightarrow> register_error option \<times> 'reg) \<Rightarrow> 'reg \<Rightarrow> 'reg res" where
  "package_init register reg =
     register_all register
       [''messagesProducedTotal'', ''messagesConsumedTotal'', ''produceErrorsTotal'',
        ''consumeErrorsTotal'', ''consumerGroupLag'', ''compressedBytesSavedTotal''] reg"

section \<open>Close\<close>

fun close_logs :: "string \<Rightarrow> nat list \<Rightarrow> 'db broker \<Rightarrow> error option \<times> 'db broker" where
  "close_logs topic [] b = (None, b)"
| "close_logs topic (i # is) b =
     (case partition_log topic (int i) b of (l, d) \<Rightarrow>
      case log_Close l d of (r, l', d') \<Rightarrow>
      case close_logs topic is (set_partition_log topic (int i) (l', d') b) of (e, b') \<Rightarrow>
        ((case r of Inl e1 \<Rightarrow> Some e1 | Inr _ \<Rightarrow> e), b'))"

fun close_topics :: "string list \<Rightarrow> 'db broker \<Rightarrow> error option \<times> 'db broker" where
  "close_topics [] b = (None, b)"
| "close_topics (t # ts) b =
     (case close_logs t [0..<length (the (b_logs b t))] b of (e1, b1) \<Rightarrow>
      case close_topics ts b1 of (e2, b2) \<Rightarrow> ((case e1 of Some e \<Rightarrow> Some e | None \<Rightarrow> e2), b2))"

text \<open>
  \<open>httpErr\<close> and \<open>raftErr\<close> are the outcomes of \<open>Shutdown\<close>; the background workers have stopped.
  The first error is returned, everything is closed in any case.
\<close>

definition broker_Close ::
  "'db bolt \<Rightarrow> error option \<Rightarrow> error option \<Rightarrow> string list \<Rightarrow> 'db broker \<Rightarrow> unit res \<times> 'db broker" where
  "broker_Close ops httpErr raftErr order b =
     (case close_topics order b of (logErr, b1) \<Rightarrow>
      case cg_Close ops (b_consumerGroups b1) of (r, s) \<Rightarrow>
        ((case httpErr of Some e \<Rightarrow> Inl e | None \<Rightarrow>
          case raftErr of Some e \<Rightarrow> Inl e | None \<Rightarrow>
          case logErr of Some e \<Rightarrow> Inl e | None \<Rightarrow> r),
         b1\<lparr>b_consumerGroups := s\<rparr>))"

section \<open>What the endpoints report\<close>

lemma group_offsets_spec:
  "group_offsets b cs m g =
     (if \<exists>c \<in> set cs. cgo_GroupID c = g
      then Some ((case m g of None \<Rightarrow> [] | Some os \<Rightarrow> os)
             @ map (group_offset b) (filter (\<lambda>c. cgo_GroupID c = g) cs))
      else m g)"
  by (induction cs arbitrary: m) (auto split: option.splits)

lemma enumerate_info: "topic_info ls = map (\<lambda>i. \<lparr>pi_ID = i, pi_LatestOffset = LatestOffset (ls ! i)\<rparr>) [0..<length ls]"
  by (rule nth_equalityI) (simp_all add: topic_info_def nth_enumerate_eq)

end
