(* ===== verification/BrokerPublish.thy ===== *)
theory BrokerPublish
  imports BrokerApi
begin

text \<open>
  Publishing and reading through the broker, end to end: selection, Raft, the state machine, the
  log, and back. Everything is stated over the histories that \<open>broker_keeps\<close> relates a broker to.
\<close>

section \<open>Reading a history\<close>

lemma log_history_read:
  assumes h: "log_history cdc (l, d) hs" and cdc: "codec_ok cdc"
  shows "log_start l \<le> off \<Longrightarrow> unat off < length hs \<Longrightarrow>
      \<exists>m. log_Read cdc off l d = Inr m \<and> msg_Offset m = off \<and> kv m = hs ! unat off"
    and "length hs \<le> unat off \<Longrightarrow> \<exists>e. log_Read cdc off l d = Inl e"
proof -
  obtain msgs where m: "log_holds cdc d l msgs" "map kv msgs = drop (unat (log_start l)) hs"
    "unat (log_next l) = length hs"
    using h by (auto simp: log_history_def)
  have len: "length msgs = length hs - unat (log_start l)"
    using m(2) by (metis length_drop length_map)
  show "\<exists>m. log_Read cdc off l d = Inr m \<and> msg_Offset m = off \<and> kv m = hs ! unat off"
    if lo: "log_start l \<le> off" and hi: "unat off < length hs"
  proof -
    let ?i = "unat off - unat (log_start l)"
    have i: "?i < length msgs" using lo hi len by (simp add: word_le_nat_alt)
    have "msg_Offset (msgs ! ?i) = log_start l + word_of_nat ?i" by (rule log_holds_offsets(3) [OF m(1) i])
    also have "\<dots> = off" using lo by (simp add: word_le_nat_alt of_nat_diff)
    finally have o: "msg_Offset (msgs ! ?i) = off" .
    then have "log_Read cdc off l d = Inr (msgs ! ?i)"
      using log_Read_holds [OF m(1) cdc, of off "msgs ! ?i"] i by simp
    moreover have "kv (msgs ! ?i) = hs ! unat off"
      using arg_cong [OF m(2), of "\<lambda>xs. xs ! ?i"] i len lo hi by (simp add: word_le_nat_alt)
    ultimately show ?thesis using o by blast
  qed
  show "\<exists>e. log_Read cdc off l d = Inl e" if "length hs \<le> unat off"
  proof (cases "log_Read cdc off l d")
    case (Inr x)
    then have x: "x \<in> set msgs" "msg_Offset x = off" using log_Read_holds [OF m(1) cdc] by auto
    then obtain i where i: "i < length msgs" "x = msgs ! i" by (auto simp: in_set_conv_nth)
    have "unat (log_start l) + i < length hs" using i(1) len by simp
    then have "unat (log_start l) + i < 2 ^ 64" using unat_lt_pow [of "log_next l"] m(3) by simp
    moreover have "off = log_start l + word_of_nat i"
      using log_holds_offsets(3) [OF m(1) i(1)] x(2) i(2) by simp
    ultimately have "unat off = unat (log_start l) + i" by (simp add: unat_word_ariths unat_of_nat)
    then show ?thesis using that \<open>unat (log_start l) + i < length hs\<close> by simp
  qed simp
qed

lemma GetPartition_known:
  assumes "broker_keeps cdc b h" "broker_known b t p"
  obtains b' where "GetPartition t p b = (Inr (), b')"
proof -
  obtain ls where ls: "b_logs b t = Some ls" using assms(2) by (auto simp: broker_known_def)
  have "length ls = defaultNumPartitions" by (rule broker_keepsD(2) [OF assms(1) ls])
  then have "nat p < length ls" using assms(2) by (auto simp: broker_known_def)
  then show thesis
    using that assms(2) ls
    by (auto simp: GetPartition_def broker_known_def safe_topic_default Let_def)
qed

text \<open>\<open>GetPartition\<close> on an open topic leaves the start of the log and the offsets store alone.\<close>

lemma GetPartition_open:
  assumes k: "broker_keeps cdc b h" and kn: "broker_known b t p" and g: "GetPartition t p b = (r, b')"
  shows "r = Inr ()" and "b_consumerGroups b' = b_consumerGroups b"
    and "log_start (fst (partition_log t p b')) = log_start (fst (partition_log t p b))"
proof -
  obtain ls where ls: "b_logs b t = Some ls" using kn by (auto simp: broker_known_def)
  have len: "nat p < length ls" using broker_keepsD(2) [OF k ls] kn by (auto simp: broker_known_def)
  let ?l = "configurePartitionCompression t b (ls ! nat p)"
  have e: "r = Inr ()" "b' = b\<lparr>b_logs := (b_logs b)(t \<mapsto> ls[nat p := ?l])\<rparr>"
    using g kn ls len by (auto simp: GetPartition_def broker_known_def safe_topic_default Let_def)
  have hist: "log_history cdc (partition_log t p b) (h t p)" by (rule partition_log_known(1) [OF k kn])
  have pl: "fst (partition_log t p b) = ls ! nat p"
    using ls kn by (simp add: partition_log_def broker_known_def safe_topic_default Let_def)
  have "log_segments (ls ! nat p) \<noteq> []"
    using hist pl by (auto simp: log_history_def log_holds_def log_inv_def log_core_def)
  then have "log_start ?l = log_start (ls ! nat p)"
    by (simp add: configurePartitionCompression_def log_start_def log_SetCompressed_def
        seg_SetCompressed_def hd_map SetCompressionSavedObserver_def)
  moreover have "fst (partition_log t p b') = ?l"
    using ls kn len e by (simp add: partition_log_def broker_known_def safe_topic_default Let_def)
  ultimately show "log_start (fst (partition_log t p b')) = log_start (fst (partition_log t p b))"
    using pl by simp
  show "r = Inr ()" "b_consumerGroups b' = b_consumerGroups b" using e by simp_all
qed

text \<open>\<open>Read\<close> on an open partition: the entry at that position of the history.\<close>

lemma broker_Read_history:
  assumes k: "broker_keeps cdc b h" and kn: "broker_known b t p" and cdc: "codec_ok cdc"
    and r: "broker_Read cdc t p off b = (r, b')"
  shows "broker_keeps cdc b' h" and "broker_known b' t p"
    and "log_start (fst (partition_log t p b')) \<le> off \<Longrightarrow> unat off < length (h t p) \<Longrightarrow>
      \<exists>m. r = Inr m \<and> msg_Offset m = off \<and> kv m = h t p ! unat off"
    and "length (h t p) \<le> unat off \<Longrightarrow> \<exists>e. r = Inl e"
    and "log_start (fst (partition_log t p b')) = log_start (fst (partition_log t p b))"
proof -
  obtain b1 where g: "GetPartition t p b = (Inr (), b1)" by (rule GetPartition_known [OF k kn])
  have t: "safe_topic t" using kn by (simp add: broker_known_def)
  note kb = GetPartition_keeps [OF k t g]
  obtain l d where ld: "partition_log t p b1 = (l, d)" by fastforce
  have e: "b' = b1" "r = log_Read cdc off l d" using r g ld by (auto simp: broker_Read_def)
  have hs: "log_history cdc (l, d) (h t p)" using partition_log_known(1) [OF kb] ld by simp
  show "broker_keeps cdc b' h" "broker_known b' t p" using kb e by simp_all
  show "log_start (fst (partition_log t p b')) \<le> off \<Longrightarrow> unat off < length (h t p) \<Longrightarrow>
      \<exists>m. r = Inr m \<and> msg_Offset m = off \<and> kv m = h t p ! unat off"
    "length (h t p) \<le> unat off \<Longrightarrow> \<exists>e. r = Inl e"
    using log_history_read [OF hs cdc, of off] e ld by simp_all
  show "log_start (fst (partition_log t p b')) = log_start (fst (partition_log t p b))"
    using GetPartition_open(3) [OF k kn g] e by simp
qed

section \<open>Selecting a partition\<close>

lemma selectPartition_range:
  assumes "selectPartition t key part b = (Inr p, b')" shows "in_range p"
proof -
  have m: "uint (w mod 3) < 3" for w :: u32 by (simp add: uint_mod)
  have m': "uint (w mod 3) < 3" for w :: u64 by (simp add: uint_mod)
  show ?thesis
    using assms m [of "fnv32a key"] m' [of "b_roundRobin b t"]
    by (auto simp: selectPartition_def in_range_def defaultNumPartitions_def Let_def split: option.splits if_splits)
qed

text \<open>A key determines the partition, whatever the state.\<close>

lemma selectPartition_key:
  "key \<noteq> [] \<Longrightarrow> selectPartition t key None b = (Inr (uint (fnv32a key mod 3)), b)"
  by (simp add: selectPartition_def defaultNumPartitions_def)

text \<open>Keyless messages go round the partitions.\<close>

fun select_run :: "string \<Rightarrow> nat \<Rightarrow> 'db broker \<Rightarrow> int res list" where
  "select_run t 0 b = []"
| "select_run t (Suc n) b =
     (case selectPartition t [] None b of (r, b') \<Rightarrow> r # select_run t n b')"

lemma word_mod3_step: "unat (((w :: u64) mod 3 + 1) mod 3) = (unat w + 1) mod 3"
proof -
  have "unat (w mod 3) < 3" by (simp add: unat_mod)
  then have "unat (w mod 3 + 1) = unat (w mod 3) + 1" by (simp add: unat_word_ariths)
  then show ?thesis by (simp add: unat_mod mod_simps)
qed

lemma select_run_spec:
  "select_run t n b = map (\<lambda>i. Inr (int ((unat (b_roundRobin b t) + i) mod 3))) [0..<n]"
proof (induction n arbitrary: b)
  case 0
  then show ?case by simp
next
  case (Suc n)
  let ?w = "b_roundRobin b t"
  obtain b' where s: "selectPartition t [] None b = (Inr (uint (?w mod 3)), b')"
    and rr: "b_roundRobin b' t = (?w mod 3 + 1) mod 3"
    by (simp add: selectPartition_def defaultNumPartitions_def Let_def)
  have u: "uint (?w mod 3) = int (unat ?w mod 3)"
  proof -
    have "int (unat (?w mod 3)) = int (unat ?w mod 3)" unfolding unat_mod by simp
    then show ?thesis by simp
  qed
  have "(unat (b_roundRobin b' t) + i) mod 3 = (unat ?w + Suc i) mod 3" for i
    by (simp add: rr word_mod3_step mod_simps)
  then show ?case
    using Suc.IH [of b'] s u by (simp add: upt_conv_Cons map_Suc_upt [symmetric] comp_def del: upt_Suc)
qed

section \<open>Publishing\<close>

lemma apply_entries_steps:
  "apply_entries cdc broker_provider (map (\<lambda>(now, c). (now, encode c)) es) b = run_steps (broker_step cdc) es b"
  by (induction es arbitrary: b) (auto simp: broker_step_def split: prod.splits)

text \<open>
  The other entries that Raft commits before ours are well-formed commands that are accepted.
\<close>

definition raft_quiet :: "codec \<Rightarrow> raft_call \<Rightarrow> (i64 \<times> command) list \<Rightarrow> 'db broker \<Rightarrow> histories \<Rightarrow> bool" where
  "raft_quiet cdc rc es b h \<longleftrightarrow> rc_before rc = map (\<lambda>(now, c). (now, encode c)) es
     \<and> able_steps spec_apply cmd_able (map snd es) h
     \<and> (\<forall>r \<in> set (fst (run_steps (broker_step cdc) es b)). accepted r)"

definition after_entries :: "(i64 \<times> command) list \<Rightarrow> histories \<Rightarrow> histories" where
  "after_entries es h = snd (spec_steps spec_apply (map snd es) h)"

lemma raft_quiet_keeps:
  assumes "raft_quiet cdc rc es b h" "broker_keeps cdc b h"
  shows "broker_keeps cdc (snd (apply_entries cdc broker_provider (rc_before rc) b)) (after_entries es h)"
proof -
  obtain rs b' where r: "run_steps (broker_step cdc) es b = (rs, b')" by fastforce
  have "broker_keeps cdc b' (after_entries es h)"
    using rep.run_refines [OF assms(2) _ r] assms(1) r by (simp add: raft_quiet_def after_entries_def)
  then show ?thesis using assms(1) r by (simp add: raft_quiet_def apply_entries_steps)
qed

lemma raft_Apply_keeps:
  assumes q: "raft_quiet cdc rc es b h" and k: "broker_keeps cdc b h"
    and c: "cmd_able c (after_entries es h)"
    and a: "raft_Apply cdc rc (encode c) b = (Inr resp, b')" "accepted resp"
  shows "resp = cmd_response c (length (after_entries es h (cmd_topic c) (cmd_part c)))"
    and "broker_keeps cdc b' (snd (spec_apply c (after_entries es h)))"
    and "unat (log_start (fst (partition_log (cmd_topic c) (cmd_part c) b')))
      \<le> length (after_entries es h (cmd_topic c) (cmd_part c))"
    and "broker_known b' (cmd_topic c) (cmd_part c)"
proof -
  let ?b = "snd (apply_entries cdc broker_provider (rc_before rc) b)"
  have "broker_step cdc (rc_now rc) c ?b = (resp, b')"
    using a(1) by (auto simp: raft_Apply_def Let_def broker_step_def split: option.splits prod.splits)
  from rep.step_refines [OF raft_quiet_keeps [OF q k] c this a(2)]
  show "resp = cmd_response c (length (after_entries es h (cmd_topic c) (cmd_part c)))"
    "broker_keeps cdc b' (snd (spec_apply c (after_entries es h)))"
    by (simp_all add: spec_apply_def Let_def)
  have "Apply cdc broker_provider (rc_now rc) (encode c) ?b = (resp, b')"
    using \<open>broker_step cdc (rc_now rc) c ?b = (resp, b')\<close> by (simp add: broker_step_def)
  from bp.Apply_refines(2,3) [OF raft_quiet_keeps [OF q k] _ _ _ this a(2)]
  show "unat (log_start (fst (partition_log (cmd_topic c) (cmd_part c) b')))
      \<le> length (after_entries es h (cmd_topic c) (cmd_part c))"
    "broker_known b' (cmd_topic c) (cmd_part c)"
    using c by (simp_all add: cmd_able_def broker_provider_def)
qed

lemma selectPartition_keeps:
  assumes "selectPartition t key part b = (r, b')" "broker_keeps cdc b h"
  shows "broker_keeps cdc b' h"
proof -
  have "b_logs b' = b_logs b" "b_fs b' = b_fs b" "b_dataDir b' = b_dataDir b" "b_topicConfigs b' = b_topicConfigs b"
    using assms(1) by (auto simp: selectPartition_def Let_def split: option.splits if_splits)
  then show ?thesis
    using assms(2) by (simp add: broker_keeps_def partition_keeps_def broker_TopicConfig_def)
qed

text \<open>
  A successful \<open>Publish\<close>: the message is the next entry of the selected partition's history, and
  the offset is its position there.
\<close>

definition publishable :: "string \<Rightarrow> bytes \<Rightarrow> bytes \<Rightarrow> bool" where
  "publishable t key val \<longleftrightarrow> safe_topic t \<and> length t < 2 ^ 16 \<and> length key < 2 ^ 32 \<and> length val < 2 ^ 32"

lemma Publish_spec:
  assumes k: "broker_keeps cdc b h" and ok: "publishable t key val"
    and pub: "Publish cdc rc t key val part b = (Inr off, b')"
    and sel: "selectPartition t key part b = (sp, b1)" and get: "GetPartition t p b1 = (g, b2)"
    and p: "sp = Inr p" and q: "raft_quiet cdc rc es b2 h"
    and room: "length (after_entries es h t p) + 1 < 2 ^ 64"
  shows "rc_leader rc" and "in_range p" and "unat off = length (after_entries es h t p)"
    and "broker_keeps cdc b' (snd (spec_apply (Single t p key val) (after_entries es h)))"
    and "broker_known b' t p" and "log_start (fst (partition_log t p b')) \<le> off"
proof -
  have t: "safe_topic t" "topic_or_default t = t" "effective_topic t = t"
    using ok by (auto simp: publishable_def safe_topic_default effective_topic_def safe_topic_def)
  show "rc_leader rc" using pub by (auto simp: Publish_def Let_def split: if_splits)
  then obtain resp where g: "g = Inr ()"
    and ra: "raft_Apply cdc rc (EncodeCommand t p key val) b2 = (Inr resp, b')" and resp: "resp = RespOffset off"
    using pub sel get p t
    by (auto simp: Publish_def Let_def split: sum.splits prod.splits response.splits)
  show pr: "in_range p" using selectPartition_range sel p by blast
  let ?c = "Single t p key val" and ?h = "after_entries es h"
  have k2: "broker_keeps cdc b2 h" "broker_known b2 t p"
    using GetPartition_keeps [OF selectPartition_keeps [OF sel k] t(1) get [unfolded g]] by auto
  have able: "cmd_able ?c ?h"
    using ok room t pr by (simp add: cmd_able_def publishable_def head_ok_def in_range_def defaultNumPartitions_def)
  have ra': "raft_Apply cdc rc (encode ?c) b2 = (Inr resp, b')" using ra by simp
  have acc: "accepted resp" by (simp add: resp accepted_def)
  note fin = raft_Apply_keeps [OF q k2(1) able ra' acc]
  then have "off = word_of_nat (length (?h t p))" using resp t by simp
  then show off: "unat off = length (?h t p)" using room by (simp add: unat_of_nat)
  show "log_start (fst (partition_log t p b')) \<le> off"
    using fin(3) off t by (simp add: word_le_nat_alt)
  show kb: "broker_keeps cdc b' (snd (spec_apply ?c ?h))" by (rule fin(2))
  show "broker_known b' t p" using fin(4) t by simp
qed

lemma Publish_read:
  assumes k: "broker_keeps cdc b h" and cdc: "codec_ok cdc" and ok: "publishable t key val"
    and pub: "Publish cdc rc t key val part b = (Inr off, b')"
    and p: "fst (selectPartition t key part b) = Inr p"
    and q: "raft_quiet cdc rc es (snd (GetPartition t p (snd (selectPartition t key part b)))) h"
    and room: "length (after_entries es h t p) + 1 < 2 ^ 64"
  shows "unat off = length (after_entries es h t p)"
    and "broker_keeps cdc b' (snd (spec_apply (Single t p key val) (after_entries es h)))"
    and "\<exists>m. fst (broker_Read cdc t p off b') = Inr m \<and> msg_Offset m = off
      \<and> msg_Key m = key \<and> msg_Value m = val"
proof -
  let ?h = "after_entries es h" and ?h' = "snd (spec_apply (Single t p key val) (after_entries es h))"
  have sel: "selectPartition t key part b = (Inr p, snd (selectPartition t key part b))"
    using p by (metis prod.collapse)
  obtain g b2 where get: "GetPartition t p (snd (selectPartition t key part b)) = (g, b2)" by fastforce
  note ps = Publish_spec [OF k ok pub sel get refl _ room]
  have q2: "raft_quiet cdc rc es b2 h" using q get by simp
  show off: "unat off = length (?h t p)" and kb: "broker_keeps cdc b' ?h'" using ps(3,4) [OF q2] .
  obtain r b3 where rd: "broker_Read cdc t p off b' = (r, b3)" by fastforce
  note br = broker_Read_history [OF kb ps(5) [OF q2] cdc rd]
  have t: "effective_topic t = t" using ok by (simp add: publishable_def safe_topic_def effective_topic_def)
  then have "?h' t p = ?h t p @ [(key, val)]" by (simp add: spec_apply_def Let_def)
  then have "unat off < length (?h' t p)" "?h' t p ! unat off = (key, val)" using off by simp_all
  then show "\<exists>m. fst (broker_Read cdc t p off b') = Inr m \<and> msg_Offset m = off
      \<and> msg_Key m = key \<and> msg_Value m = val"
    using br(3) br(5) ps(6) [OF q2] rd by (fastforce simp: kv_def)
qed

section \<open>Replaying the Raft log\<close>

text \<open>What a list of commands adds to one partition.\<close>

definition added :: "command list \<Rightarrow> string \<Rightarrow> int \<Rightarrow> history" where
  "added cs t p = concat (map (\<lambda>c. if cmd_topic c = t \<and> cmd_part c = p then cmd_kvs c else []) cs)"

lemma spec_steps_added: "snd (spec_steps spec_apply cs h) t p = h t p @ added cs t p"
proof (induction cs arbitrary: h)
  case Nil
  then show ?case by (simp add: added_def)
next
  case (Cons c cs)
  have "snd (spec_steps spec_apply (c # cs) h) = snd (spec_steps spec_apply cs (snd (spec_apply c h)))"
    by (simp split: prod.splits)
  moreover have "snd (spec_apply c h) t p
      = h t p @ (if cmd_topic c = t \<and> cmd_part c = p then cmd_kvs c else [])"
    by (simp add: spec_apply_def Let_def)
  ultimately show ?case using Cons.IH [of "snd (spec_apply c h)"] by (simp add: added_def)
qed

lemma able_steps_append:
  "able_steps spec able (xs @ ys) a \<longleftrightarrow> able_steps spec able xs a \<and> able_steps spec able ys (snd (spec_steps spec xs a))"
  by (induction xs arbitrary: a) (auto split: prod.splits)

text \<open>A run of accepted entries adds their records; what is left can still be applied.\<close>

lemma replay_adds:
  assumes k: "broker_keeps cdc b h" and a: "able_steps spec_apply cmd_able (map snd es @ cs) h"
    and r: "run_steps (broker_step cdc) es b = (rs, b')" and acc: "\<forall>r \<in> set rs. accepted r"
  obtains h' where "broker_keeps cdc b' h'" "able_steps spec_apply cmd_able cs h'"
    "\<And>t p. h' t p = h t p @ added (map snd es) t p"
  using rep.run_refines [OF k _ r acc] a spec_steps_added unfolding able_steps_append by blast


section \<open>Batches\<close>

lemma command_records_ok:
  "command_records i rs = Inr rs' \<Longrightarrow> rs = map Some rs'"
  by (induction i rs arbitrary: rs' rule: command_records.induct) (auto split: sum.splits)

lemma int64_offsets_ok: "int64_offsets vs = Inr os \<Longrightarrow> os = vs"
  by (induction vs arbitrary: os) (auto split: if_splits sum.splits)

text \<open>A successful \<open>PublishBatch\<close>: the records follow the partition's history, at consecutive offsets.\<close>

lemma PublishBatch_spec:
  assumes k: "broker_keeps cdc b h" and t0: "safe_topic t" "length t < 2 ^ 16" and ok: "records_ok rs"
    and pub: "PublishBatch cdc rc t part (map Some rs) b = (Inr offs, b')"
    and q: "raft_quiet cdc rc es (snd (GetPartition t (sint part) b)) h"
    and room: "length (after_entries es h t (sint part)) + length rs < 2 ^ 64"
  shows "rc_leader rc" and "in_range (sint part)"
    and "map unat offs = [length (after_entries es h t (sint part)) ..<
           length (after_entries es h t (sint part)) + length rs]"
    and "broker_keeps cdc b' (snd (spec_apply (Batch t (sint part) rs) (after_entries es h)))"
proof -
  have t: "topic_or_default t = t" "effective_topic t = t"
    using t0 by (auto simp: safe_topic_default effective_topic_def safe_topic_def)
  show lead: "rc_leader rc" and pr: "in_range (sint part)"
    using pub by (auto simp: PublishBatch_def Let_def in_range_def split: if_splits)
  obtain g b1 where get: "GetPartition t (sint part) b = (g, b1)" by fastforce
  obtain rs' where cr: "command_records 0 (map Some rs) = Inr rs'"
    using pub by (auto simp: PublishBatch_def Let_def split: if_splits sum.splits prod.splits)
  have "map Some rs = map Some rs'" by (rule command_records_ok [OF cr])
  then have rs': "rs' = rs" by (simp add: inj_map_eq_map)
  obtain vs where g: "g = Inr ()"
    and ra: "raft_Apply cdc rc (EncodeBatchCommand t (sint part) rs) b1 = (Inr (RespOffsets vs), b')"
    and io: "int64_offsets vs = Inr offs"
    using pub lead pr get cr rs' t
    by (auto simp: PublishBatch_def Let_def in_range_def split: if_splits sum.splits prod.splits response.splits)
  let ?c = "Batch t (sint part) rs" and ?h = "after_entries es h"
  have k1: "broker_keeps cdc b1 h" by (rule GetPartition_keeps(1) [OF k t0(1) get [unfolded g]])
  have able: "cmd_able ?c ?h"
    using t0 ok room t pr by (simp add: cmd_able_def head_ok_def in_range_def defaultNumPartitions_def)
  have ra': "raft_Apply cdc rc (encode ?c) b1 = (Inr (RespOffsets vs), b')" using ra by simp
  note fin = raft_Apply_keeps [OF _ k1 able ra']
  have q1: "raft_quiet cdc rc es b1 h" using q get by simp
  have acc: "accepted (RespOffsets vs)" by (simp add: accepted_def)
  show "broker_keeps cdc b' (snd (spec_apply ?c ?h))" by (rule fin(2) [OF q1 acc])
  have "vs = map word_of_nat [length (?h t (sint part)) ..< length (?h t (sint part)) + length rs]"
    using fin(1) [OF q1 acc] t by simp
  then show "map unat offs = [length (?h t (sint part)) ..< length (?h t (sint part)) + length rs]"
    using int64_offsets_ok [OF io] room by (auto simp: unat_of_nat intro!: map_idI)
qed

text \<open>A batch read of an open partition: the slice of the history from the offset on.\<close>

lemma broker_ReadBatch_history:
  assumes k: "broker_keeps cdc b h" and kn: "broker_known b t p" and cdc: "codec_ok cdc"
    and st: "log_start (fst (partition_log t p b)) \<le> off" and off: "0 \<le> sint off" and n: "0 < sint n"
    and r: "broker_ReadBatch cdc t p off n b = (r, b')"
  shows "broker_keeps cdc b' h"
    and "\<exists>ms. r = Some (Inr ms) \<and> map kv ms = take (nat (min 1000 (sint n))) (drop (unat off) (h t p))"
proof -
  obtain b1 where g: "GetPartition t p b = (Inr (), b1)" by (rule GetPartition_known [OF k kn])
  have t: "safe_topic t" using kn by (simp add: broker_known_def)
  note kb = GetPartition_keeps [OF k t g]
  obtain l d where ld: "partition_log t p b1 = (l, d)" by fastforce
  define n' where "n' = (if sint n > 1000 then 1000 else n)"
  have n': "sint n' = min 1000 (sint n)" by (simp add: n'_def)
  have e: "b' = b1" "r = log_ReadBatch cdc off n' l d"
    using r g ld off n kn by (auto simp: broker_ReadBatch_def broker_known_def Let_def n'_def)
  show "broker_keeps cdc b' h" using kb(1) e by simp
  obtain msgs where m: "log_holds cdc d l msgs" "map kv msgs = drop (unat (log_start l)) (h t p)"
    using partition_log_known(1) [OF kb] ld by (auto simp: log_history_def)
  have st': "log_start l \<le> off" using st GetPartition_open(3) [OF k kn g] ld by simp
  have "r = Some (Inr (take (nat (sint n')) (drop (unat off - unat (log_start l)) msgs)))"
    unfolding e(2) by (rule log_ReadBatch_holds [OF m(1) cdc st']) (use n n' in simp)
  moreover have "map kv (drop (unat off - unat (log_start l)) msgs) = drop (unat off) (h t p)"
    using st' m(2) by (simp add: drop_map [symmetric] word_le_nat_alt)
  ultimately show "\<exists>ms. r = Some (Inr ms)
      \<and> map kv ms = take (nat (min 1000 (sint n))) (drop (unat off) (h t p))"
    by (simp add: take_map [symmetric] n')
qed

end
