(* ===== verification/BrokerFrame.thy ===== *)
theory BrokerFrame
  imports BrokerAdmin BrokerPublish
begin

text \<open>
  What the operations on partition logs leave alone. The locale \<open>log_frame\<close> collects the basic ways
  in which those operations change a broker; whatever relation is kept by them is kept by
  publishing, reading, the state machine and the background workers, for every schedule of I/O
  failures and every topic name.
\<close>

section \<open>Frames\<close>

lemma GetPartition_opens: "GetPartition t p b = (Inr (), b') \<Longrightarrow> b_logs b' (topic_or_default t) \<noteq> None"
  by (auto simp: GetPartition_def create_partitions_def Let_def split: if_splits option.splits prod.splits sum.splits)

lemma set_partition_log_open: "b_logs (set_partition_log t p ld b) u = None \<longleftrightarrow> b_logs b u = None \<and> u \<noteq> topic_or_default t"
  by (simp add: set_partition_log_def Let_def)

locale log_frame =
  fixes R :: "'db broker \<Rightarrow> 'db broker \<Rightarrow> bool"
  assumes same: "R b b" and comp: "R a b \<Longrightarrow> R b c \<Longrightarrow> R a c"
    and get: "GetPartition t p b = (r, b') \<Longrightarrow> R b b'"
    and set_log: "b_logs b (topic_or_default t) \<noteq> None \<Longrightarrow> R b (set_partition_log t p ld b)"
    and select: "selectPartition t key part b = (sp, b') \<Longrightarrow> R b b'"
    and measure: "R b (b\<lparr>b_metrics := m\<rparr>)"
begin

lemma append_one_frame: "b_logs b (topic_or_default t) \<noteq> None \<Longrightarrow> R b (snd (append_one cdc broker_provider now t p k v b))"
  by (auto simp: append_one_def broker_provider_def intro!: set_log split: prod.splits sum.splits)

lemma append_many_frame: "b_logs b (topic_or_default t) \<noteq> None \<Longrightarrow> R b (snd (append_many cdc broker_provider t p rs b))"
  by (auto simp: append_many_def broker_provider_def intro!: set_log split: prod.splits option.splits)

lemma apply_single_frame:
  "b_logs b (topic_or_default t) \<noteq> None \<Longrightarrow> R b (snd (apply_single cdc broker_provider now t p data off b))"
  by (auto simp: apply_single_def same intro!: append_one_frame split: sum.split prod.split)

lemma apply_batch_frame:
  "b_logs b (topic_or_default t) \<noteq> None \<Longrightarrow> R b (snd (apply_batch cdc broker_provider now t p data off b))"
  by (auto simp: apply_batch_def same intro!: append_many_frame split: sum.split)

lemma entry_frame: "R b (snd (Apply cdc broker_provider now data b))"
proof (cases "length data < 7 \<or> length data < 3 + unat (Uint16 (drop 1 data)) + 4")
  case True
  then show ?thesis by (auto simp: Apply_def Let_def same)
next
  case False
  define n where "n = unat (Uint16 (drop 1 data))"
  define t where "t = (let t0 = string_of_bytes (take n (drop 3 data)) in if t0 = [] then ''default'' else t0)"
  let ?p = "uint (Uint32 (drop (3 + n) data))"
  obtain g b1 where g: "GetPartition t ?p b = (g, b1)" by fastforce
  have b1: "R b b1" by (rule get [OF g])
  show ?thesis
  proof (cases g)
    case (Inl e)
    then show ?thesis using False g b1 by (simp add: Apply_def Let_def n_def t_def broker_provider_def)
  next
    case (Inr u)
    then have o: "b_logs b1 (topic_or_default t) \<noteq> None" using GetPartition_opens g by simp
    have "R b (snd (apply_single cdc broker_provider now t ?p data off b1))"
      "R b (snd (apply_batch cdc broker_provider now t ?p data off b1))" for off
      using comp [OF b1] apply_single_frame [OF o] apply_batch_frame [OF o] by blast+
    moreover have "prov_get broker_provider t ?p b = (Inr (), b1)" using g Inr by (simp add: broker_provider_def)
    ultimately show ?thesis using False b1 by (simp add: Apply_def Let_def n_def t_def)
  qed
qed

lemma apply_entries_frame: "R b (snd (apply_entries cdc broker_provider es b))"
proof (induction es arbitrary: b)
  case (Cons e es)
  obtain now data where e: "e = (now, data)" by fastforce
  from comp [OF entry_frame Cons.IH] show ?case
    by (simp add: e split_beta)
qed (simp add: same)

lemma raft_Apply_frame: "R b (snd (raft_Apply cdc rc data b))"
  using comp [OF apply_entries_frame entry_frame] apply_entries_frame
  by (simp add: raft_Apply_def Let_def split_beta split: option.split)

lemma Publish_frame: "R b (snd (Publish cdc rc t key val part b))"
proof (cases "rc_leader rc")
  case True
  obtain sp b1 where s: "selectPartition (topic_or_default t) key part b = (sp, b1)" by fastforce
  show ?thesis
  proof (cases sp)
    case (Inr p)
    obtain g b2 where g: "GetPartition (topic_or_default t) p b1 = (g, b2)" by fastforce
    have b2: "R b b2" by (rule comp [OF select [OF s] get [OF g]])
    obtain r b3 where ra: "raft_Apply cdc rc (EncodeCommand (topic_or_default t) p key val) b2 = (r, b3)" by fastforce
    then have "R b b3" using comp [OF b2 raft_Apply_frame] by (metis snd_conv)
    then show ?thesis
      using True s g ra b2 Inr by (simp add: Publish_def Let_def split: sum.split response.split)
  qed (use True s select [OF s] in \<open>simp add: Publish_def Let_def\<close>)
qed (simp add: Publish_def same)

lemma PublishBatch_frame: "R b (snd (PublishBatch cdc rc t part rs b))"
proof -
  obtain g b1 where g: "GetPartition (topic_or_default t) (sint part) b = (g, b1)" by fastforce
  have b1: "R b b1" by (rule get [OF g])
  have "R b b2" if "raft_Apply cdc rc data b1 = (r, b2)" for data r b2
    using comp [OF b1 raft_Apply_frame] that by (metis snd_conv)
  then show ?thesis
    using g b1 same by (auto simp: PublishBatch_def Let_def split: sum.split prod.split response.split)
qed

lemma counters_frame: "R b b' \<Longrightarrow> R b (count_produced n b')" "R b b' \<Longrightarrow> R b (count_consumed n b')"
  "R b b' \<Longrightarrow> R b (count_produce_error b')" "R b b' \<Longrightarrow> R b (count_consume_error b')" "R b b' \<Longrightarrow> R b (set_lag k x b')"
  using comp [OF _ measure]
  by (auto simp: count_produced_def count_consumed_def count_produce_error_def count_consume_error_def set_lag_def)

lemma Produce_frame: "Produce cdc rc req b = (r, b') \<Longrightarrow> R b b'"
  using Publish_frame [of b cdc rc "pr_Topic req" "pr_Key req" "pr_Value req" "pr_Partition req"]
  by (auto simp: Produce_def intro: counters_frame split: prod.splits sum.splits)

lemma ProduceBatch_frame: "ProduceBatch cdc rc req b = (r, b') \<Longrightarrow> R b b'"
  using PublishBatch_frame [of b cdc rc "topic_or_default (pbr_Topic req)" "pbr_Partition req" "pbr_Records req"] same
  by (auto simp: ProduceBatch_def Let_def intro: counters_frame split: prod.splits sum.splits if_splits)

lemma Consume_frame: "Consume cdc req b = (r, b') \<Longrightarrow> R b b'"
  using get by (fastforce simp: Consume_def broker_Read_def Let_def intro: counters_frame split: prod.splits sum.splits)

lemma ConsumeBatch_frame: "ConsumeBatch cdc req b = (r, b') \<Longrightarrow> R b b'"
proof -
  assume c: "ConsumeBatch cdc req b = (r, b')"
  have "R b (snd (broker_ReadBatch cdc t p off n b))" for t p off n
    using get same by (auto simp: broker_ReadBatch_def Let_def split: prod.split sum.split)
  then have "broker_ReadBatch cdc t p off n b = (x, b1) \<Longrightarrow> R b b1" for t p off n x b1 by (metis snd_conv)
  then show ?thesis
    using c same by (auto simp: ConsumeBatch_def Let_def intro: counters_frame split: prod.splits sum.splits option.splits if_splits)
qed

lemma lag_for_frame: "R b (updateConsumerGroupLagFor g t p off b)"
  using get by (auto simp: updateConsumerGroupLagFor_def intro: counters_frame split: prod.split sum.split)

lemma lag_frame: "R b (updateConsumerGroupLag keys b)"
proof -
  have "R b (foldl (\<lambda>b c. updateConsumerGroupLagFor (cgo_GroupID c) (cgo_Topic c) (cgo_Partition c) (cgo_Offset c) b) b cs)" for cs
    by (induction cs arbitrary: b) (auto simp: same intro: comp [OF lag_for_frame])
  then show ?thesis by (simp add: updateConsumerGroupLag_def)
qed

lemma retain_frame: "b_logs b (topic_or_default t) \<noteq> None \<Longrightarrow> R b (retain_partitions config now t is b)"
proof (induction "is" arbitrary: b)
  case (Cons i "is")
  obtain l d where pl: "partition_log t (int i) b = (l, d)" by fastforce
  obtain r l' d' where e: "EnforceRetention (tc_RetentionBytes config) (tc_RetentionMs config) now l d = (r, l', d')"
    by (metis prod.collapse)
  have "b_logs (set_partition_log t (int i) (l', d') b) (topic_or_default t) \<noteq> None"
    using set_partition_log_open by blast
  from comp [OF set_log [OF Cons.prems] Cons.IH [OF this]] show ?case using pl e by simp
qed (simp add: same)

lemma compact_frame: "b_logs b (topic_or_default t) \<noteq> None \<Longrightarrow> R b (compact_partitions cdc t is b)"
proof (induction "is" arbitrary: b)
  case (Cons i "is")
  obtain l d where pl: "partition_log t (int i) b = (l, d)" by fastforce
  obtain r l' d' where e: "Compact cdc l d = (r, l', d')" by (metis prod.collapse)
  have "b_logs (set_partition_log t (int i) (l', d') b) (topic_or_default t) \<noteq> None"
    using set_partition_log_open by blast
  from comp [OF set_log [OF Cons.prems] Cons.IH [OF this]] show ?case using pl e by simp
qed (simp add: same)

end

section \<open>Offsets and configuration\<close>

definition same_admin :: "'db broker \<Rightarrow> 'db broker \<Rightarrow> bool" where
  "same_admin b b' \<longleftrightarrow> b_consumerGroups b' = b_consumerGroups b \<and> b_topicConfigs b' = b_topicConfigs b"

lemma same_admin_refl [simp]: "same_admin b b"
  by (simp add: same_admin_def)

lemma set_partition_log_admin [simp]: "same_admin b (set_partition_log t p ld b)"
  by (simp add: set_partition_log_def same_admin_def Let_def)

lemma create_partitions_admin: "create_partitions t b = (r, b') \<Longrightarrow> same_admin b b'"
  by (auto simp: create_partitions_def same_admin_def split: prod.splits sum.splits)

lemma GetPartition_admin: "GetPartition t p b = (r, b') \<Longrightarrow> same_admin b b'"
  using create_partitions_admin
  by (auto simp: GetPartition_def same_admin_def Let_def split: if_splits option.splits)

lemma selectPartition_admin: "selectPartition t key part b = (r, b') \<Longrightarrow> same_admin b b'"
  by (auto simp: selectPartition_def same_admin_def Let_def split: option.splits if_splits)

interpretation adm: log_frame same_admin
  by unfold_locales (auto simp: GetPartition_admin selectPartition_admin, simp_all add: same_admin_def)

lemma run_steps_groups: "b_consumerGroups (snd (run_steps (broker_step cdc) es b)) = b_consumerGroups b"
  using adm.apply_entries_frame [of b cdc "map (\<lambda>(now, c). (now, encode c)) es"]
  by (simp add: apply_entries_steps same_admin_def)

section \<open>Open topics stay open\<close>

definition still_open :: "'db broker \<Rightarrow> 'db broker \<Rightarrow> bool" where
  "still_open b b' \<longleftrightarrow> dom (b_logs b) \<subseteq> dom (b_logs b')"

lemma GetPartition_still: "GetPartition t p b = (r, b') \<Longrightarrow> still_open b b'"
  by (auto simp: GetPartition_def create_partitions_def still_open_def Let_def
      split: if_splits option.splits prod.splits sum.splits)

lemma selectPartition_still: "selectPartition t key part b = (r, b') \<Longrightarrow> still_open b b'"
  by (auto simp: selectPartition_def still_open_def Let_def split: option.splits if_splits)

lemma set_partition_log_still: "still_open b (set_partition_log t p ld b)"
  by (auto simp: still_open_def set_partition_log_def Let_def)

interpretation opn: log_frame still_open
  by unfold_locales
    (auto simp: GetPartition_still selectPartition_still set_partition_log_still, auto simp: still_open_def)

section \<open>The shape of a broker\<close>

text \<open>
  Every open topic has a name, three logs and exactly one retention worker; no other topic has one;
  the round-robin counters name partitions.
\<close>

definition broker_shape :: "'db broker \<Rightarrow> bool" where
  "broker_shape b \<longleftrightarrow>
     b_logs b '''' = None \<and> (\<forall>t ls. b_logs b t = Some ls \<longrightarrow> length ls = defaultNumPartitions)
     \<and> (\<forall>t. b_retentionStarted b t \<longleftrightarrow> b_logs b t \<noteq> None)
     \<and> distinct (b_retentionWorkers b) \<and> set (b_retentionWorkers b) = dom (b_logs b)
     \<and> (\<forall>t. b_roundRobin b t < word_of_nat defaultNumPartitions)"

lemma open_partitions_length:
  "open_partitions dd t is acc fs = (Inr ls, fs') \<Longrightarrow> length ls = length acc + length is"
  by (induction "is" arbitrary: acc fs) (auto simp: Let_def split: prod.splits sum.splits)

lemma topic_or_default_named: "topic_or_default t \<noteq> ''''"
  by (simp add: topic_or_default_def)

lemma create_partitions_shape:
  assumes s: "broker_shape b" and t: "t \<noteq> ''''" "b_logs b t = None" and c: "create_partitions t b = (r, b')"
  shows "broker_shape b'"
proof -
  obtain o' fs where o: "open_partitions (b_dataDir b) t [0..<defaultNumPartitions] [] (b_fs b) = (o', fs)" by fastforce
  show ?thesis
  proof (cases o')
    case (Inl e)
    then show ?thesis using c s o by (auto simp: create_partitions_def broker_shape_def)
  next
    case (Inr ls)
    have "length ls = defaultNumPartitions" using open_partitions_length o Inr by fastforce
    moreover have "\<not> b_retentionStarted b t" "t \<notin> set (b_retentionWorkers b)"
      using s t(2) by (auto simp: broker_shape_def)
    ultimately show ?thesis using c s o Inr t by (auto simp: create_partitions_def broker_shape_def split: if_splits)
  qed
qed

lemma GetPartition_shape:
  assumes s: "broker_shape b" and g: "GetPartition t p b = (r, b')" shows "broker_shape b'"
proof (cases "b_logs b (topic_or_default t)")
  case None
  then show ?thesis
    using create_partitions_shape [OF s topic_or_default_named None] g s
    by (auto simp: GetPartition_def Let_def split: if_splits)
next
  case (Some ls)
  then have "length ls = defaultNumPartitions" using s by (auto simp: broker_shape_def)
  then show ?thesis
    using g s Some topic_or_default_named [of t] by (auto simp: GetPartition_def broker_shape_def Let_def split: if_splits)
qed

lemma set_partition_log_shape:
  assumes "broker_shape b" "b_logs b (topic_or_default t) \<noteq> None" shows "broker_shape (set_partition_log t p ld b)"
proof -
  obtain ls where "b_logs b (topic_or_default t) = Some ls" using assms(2) by blast
  then show ?thesis using assms(1) topic_or_default_named [of t] by (auto simp: set_partition_log_def broker_shape_def Let_def)
qed

lemma selectPartition_shape:
  assumes "broker_shape b" "selectPartition t key part b = (r, b')" shows "broker_shape b'"
proof -
  have "(w :: u64) mod 3 < 3" for w by (simp add: word_less_nat_alt unat_mod)
  then show ?thesis
    using assms by (auto simp: selectPartition_def broker_shape_def defaultNumPartitions_def Let_def
        split: option.splits if_splits)
qed

lemma broker_shape_metrics: "broker_shape b \<Longrightarrow> broker_shape (b\<lparr>b_metrics := m\<rparr>)"
  by (simp add: broker_shape_def)

interpretation shp: log_frame "\<lambda>b b'. broker_shape b \<longrightarrow> broker_shape b'"
  by unfold_locales
    (use GetPartition_shape set_partition_log_shape selectPartition_shape broker_shape_metrics in blast)+

end
