(* ===== verification/Restart.thy ===== *)
theory Restart
  imports BrokerFrame
begin

text \<open>
  A broker that is closed, or killed, and started again on its data directory. \<open>Close\<close> flushes and
  closes the partition logs and the offset store; \<open>NewBroker\<close> opens the offset store and starts with
  no topic in memory; a topic's logs are opened again when \<open>GetPartition\<close> first asks for them.
\<close>

text \<open>\<open>NewBroker\<close> on what an earlier broker has left on its disk.\<close>

definition start_on :: "'db bolt \<Rightarrow> 'db broker \<Rightarrow> 'db broker res" where
  "start_on ops b =
     (case NewConsumerGroupStore ops (cg_db (b_consumerGroups b)) of
        (Inl e, _) \<Rightarrow> Inl e
      | (Inr groups, _) \<Rightarrow> Inr (broker_init (b_dataDir b) groups (b_fs b)))"

definition restart ::
  "'db bolt \<Rightarrow> error option \<Rightarrow> error option \<Rightarrow> string list \<Rightarrow> 'db broker \<Rightarrow> 'db broker res" where
  "restart ops httpErr raftErr order b = start_on ops (snd (broker_Close ops httpErr raftErr order b))"

text \<open>
  A process that is killed between two requests: nothing is closed, and the written bytes are with
  the operating system.
\<close>

definition crash_restart :: "'db bolt \<Rightarrow> 'db broker \<Rightarrow> 'db broker res" where
  "crash_restart ops b = start_on ops b"

lemma start_onD:
  "start_on ops b = Inr b' \<Longrightarrow> b' = broker_init (b_dataDir b) (b_consumerGroups b') (b_fs b)"
  by (auto simp: start_on_def broker_init_def split: prod.splits sum.splits)

section \<open>Closing leaves the files alone\<close>

text \<open>\<open>same_files fs fs'\<close>: every directory has the files it had.\<close>

definition same_files :: "(path \<Rightarrow> directory) \<Rightarrow> (path \<Rightarrow> directory) \<Rightarrow> bool" where
  "same_files fs fs' \<longleftrightarrow> (\<forall>p. dir_step (fs p) (fs' p) (lookup_file (fs p)))"

lemma same_files_refl: "same_files fs fs"
  by (simp add: same_files_def)

lemma same_files_trans: "same_files a b \<Longrightarrow> same_files b c \<Longrightarrow> same_files a c"
  by (simp add: same_files_def dir_step_def)

text \<open>What closing keeps of a broker besides.\<close>

definition only_closed :: "'db broker \<Rightarrow> 'db broker \<Rightarrow> bool" where
  "only_closed b b' \<longleftrightarrow> same_files (b_fs b) (b_fs b') \<and> b_dataDir b' = b_dataDir b
     \<and> b_topicConfigs b' = b_topicConfigs b \<and> b_consumerGroups b' = b_consumerGroups b"

lemma only_closed_trans: "only_closed a b \<Longrightarrow> only_closed b c \<Longrightarrow> only_closed a c"
  using same_files_trans by (fastforce simp: only_closed_def)

lemma close_log_step:
  assumes "partition_log t p b = (l, d)" "log_Close l d = (r, l', d')"
  shows "only_closed b (set_partition_log t p (l', d') b)"
  using assms(1) log_Close_step(1) [OF assms(2)]
  by (auto simp: only_closed_def same_files_def partition_log_def set_partition_log_def Let_def)

lemma close_logs_step: "only_closed b (snd (close_logs t is b))"
proof (induction "is" arbitrary: b)
  case Nil
  then show ?case by (simp add: only_closed_def same_files_refl)
next
  case (Cons i "is")
  obtain l d where pl: "partition_log t (int i) b = (l, d)" by fastforce
  obtain r l' d' where c: "log_Close l d = (r, l', d')" by (metis prod.collapse)
  show ?case
    using only_closed_trans [OF close_log_step [OF pl c] Cons.IH] pl c by (simp add: split_beta)
qed

lemma close_topics_step: "only_closed b (snd (close_topics ts b))"
proof (induction ts arbitrary: b)
  case Nil
  then show ?case by (simp add: only_closed_def same_files_refl)
next
  case (Cons t ts)
  show ?case
    using only_closed_trans [OF close_logs_step Cons.IH] by (simp add: split_beta)
qed

section \<open>Starting again\<close>

lemma broker_init_same_files:
  assumes k: "broker_keeps cdc b h" and fs: "same_files (b_fs b) fs"
    and plain: "\<And>t. \<not> tc_Compressed (broker_TopicConfig t b)"
  shows "broker_keeps cdc (broker_init (b_dataDir b) groups fs) h"
proof -
  let ?path = "partition_path (b_dataDir b)"
  have f: "lookup_file (fs p) = lookup_file (b_fs b p)" "dir_wf (fs p)" for p
    using fs broker_keeps_wf [OF k, of p] by (auto simp: same_files_def dir_step_def)
  have "dir_keeps cdc False (fs (?path t i)) (h t (int i))" if t: "safe_topic t" and i: "i < defaultNumPartitions" for t i
  proof (rule dir_keeps_cong [OF f])
    show "dir_keeps cdc False (b_fs b (?path t i)) (h t (int i))"
    proof (cases "b_logs b t")
      case None
      then show ?thesis using broker_keeps_disk [OF k t None i] plain [of t] by simp
    next
      case (Some ls)
      then show ?thesis
        using broker_keepsD(3) [OF k Some i] plain [of t] by (auto simp: partition_keeps_def dir_keeps_def)
    qed
  qed
  then show ?thesis
    using f(2) by (simp add: broker_keeps_def broker_init_def broker_TopicConfig_def zero_config_def)
qed

lemma start_on_keeps:
  assumes r: "start_on ops b1 = Inr b'" and k: "broker_keeps cdc b h"
    and fs: "same_files (b_fs b) (b_fs b1)" "b_dataDir b1 = b_dataDir b"
    and plain: "\<And>t. \<not> tc_Compressed (broker_TopicConfig t b)"
  shows "broker_keeps cdc b' h" and "b_logs b' = Map.empty" and "b_dataDir b' = b_dataDir b"
    and "b_topicConfigs b' = Map.empty" and "b_fs b' = b_fs b1"
proof -
  note b' = start_onD [OF r]
  show "broker_keeps cdc b' h"
    using broker_init_same_files [OF k fs(1) plain, of "b_consumerGroups b'"] b' fs(2) by simp
  show "b_logs b' = Map.empty" "b_dataDir b' = b_dataDir b" "b_topicConfigs b' = Map.empty" "b_fs b' = b_fs b1"
    by (subst b', simp add: broker_init_def fs(2))+
qed

lemma broker_Close_files:
  "only_closed b (snd (broker_Close ops he re order b)\<lparr>b_consumerGroups := b_consumerGroups b\<rparr>)"
  using close_topics_step [of b order]
  by (auto simp: broker_Close_def only_closed_def split: prod.splits)

lemma restart_keeps:
  assumes r: "restart ops he re order b = Inr b'" and k: "broker_keeps cdc b h"
    and plain: "\<And>t. \<not> tc_Compressed (broker_TopicConfig t b)"
  shows "broker_keeps cdc b' h" and "b_logs b' = Map.empty" and "b_dataDir b' = b_dataDir b"
    and "b_topicConfigs b' = Map.empty"
  using start_on_keeps [OF r [unfolded restart_def] k _ _ plain] broker_Close_files [of b ops he re order]
  by (auto simp: only_closed_def)

text \<open>The offset store comes back with every committed offset.\<close>

lemma start_on_offsets:
  assumes r: "start_on ops b1 = Inr b'" and ok: "bolt_ok ops" and i: "cg_inv ops (b_consumerGroups b)"
    and m: "map_of (bolt_each ops (cg_db (b_consumerGroups b1))) = map_of (bolt_each ops (cg_db (b_consumerGroups b)))"
  shows "cg_offsets (b_consumerGroups b') = cg_offsets (b_consumerGroups b)" and "cg_inv ops (b_consumerGroups b')"
proof -
  let ?db = "cg_db (b_consumerGroups b1)"
  obtain db' where n: "NewConsumerGroupStore ops ?db = (Inr (b_consumerGroups b'), db')"
    using r by (auto simp: start_on_def broker_init_def split: prod.splits sum.splits)
  have di: "distinct (map fst (bolt_each ops d))" for d using ok by (auto simp: bolt_ok_def)
  then have "set (bolt_each ops ?db) = set (bolt_each ops (cg_db (b_consumerGroups b)))"
    using m map_of_inject_set by metis
  then have "\<forall>e \<in> set (bolt_each ops ?db). entry_ok e" using i by (simp add: cg_inv_def)
  note inv = NewConsumerGroupStore_inv [OF ok n this]
  show "cg_inv ops (b_consumerGroups b')" by (rule inv(1))
  then show "cg_offsets (b_consumerGroups b') = cg_offsets (b_consumerGroups b)"
    using inv(2) m i by (simp add: cg_inv_def persisted_def fun_eq_iff)
qed

lemma broker_Close_offsets:
  assumes "bolt_ok ops"
  shows "map_of (bolt_each ops (cg_db (b_consumerGroups (snd (broker_Close ops he re order b)))))
    = map_of (bolt_each ops (cg_db (b_consumerGroups b)))"
proof -
  have "b_consumerGroups (snd (close_topics order b)) = b_consumerGroups b"
    using close_topics_step [of b order] by (simp add: only_closed_def)
  then have "cg_db (b_consumerGroups (snd (broker_Close ops he re order b))) = snd (bolt_close ops (cg_db (b_consumerGroups b)))"
    by (auto simp: broker_Close_def cg_Close_def split: prod.splits option.splits)
  then show ?thesis using assms by (simp add: bolt_ok_def)
qed

lemma restart_offsets:
  assumes r: "restart ops he re order b = Inr b'" and ok: "bolt_ok ops" and i: "cg_inv ops (b_consumerGroups b)"
  shows "cg_offsets (b_consumerGroups b') = cg_offsets (b_consumerGroups b)" and "cg_inv ops (b_consumerGroups b')"
  using start_on_offsets [OF r [unfolded restart_def] ok i broker_Close_offsets [OF ok]] .

text \<open>A killed broker loses nothing either.\<close>

lemma crash_restart_keeps:
  assumes r: "crash_restart ops b = Inr b'" and k: "broker_keeps cdc b h"
    and plain: "\<And>t. \<not> tc_Compressed (broker_TopicConfig t b)"
  shows "broker_keeps cdc b' h" and "b_logs b' = Map.empty" and "b_dataDir b' = b_dataDir b"
    and "b_topicConfigs b' = Map.empty" and "b_fs b' = b_fs b"
  using start_on_keeps [OF r [unfolded crash_restart_def] k same_files_refl refl plain] by simp_all

lemma crash_restart_offsets:
  assumes r: "crash_restart ops b = Inr b'" and ok: "bolt_ok ops" and i: "cg_inv ops (b_consumerGroups b)"
  shows "cg_offsets (b_consumerGroups b') = cg_offsets (b_consumerGroups b)" and "cg_inv ops (b_consumerGroups b')"
  using start_on_offsets [OF r [unfolded crash_restart_def] ok i refl] .

section \<open>Raft's log after a restart\<close>

text \<open>Both ways to restart.\<close>

definition restarts_to ::
  "'db bolt \<Rightarrow> error option \<Rightarrow> error option \<Rightarrow> string list \<Rightarrow> 'db broker \<Rightarrow> 'db broker \<Rightarrow> bool" where
  "restarts_to ops he re order b b' \<longleftrightarrow> restart ops he re order b = Inr b' \<or> crash_restart ops b = Inr b'"

lemma restarts_to_keeps:
  assumes "restarts_to ops he re order b b'" "broker_keeps cdc b h"
    "\<And>t. \<not> tc_Compressed (broker_TopicConfig t b)"
  shows "broker_keeps cdc b' h"
  using assms restart_keeps(1) crash_restart_keeps(1) unfolding restarts_to_def by blast

lemma run_steps_config:
  "run_steps (broker_step cdc) es b = (rs, b') \<Longrightarrow> broker_TopicConfig t b' = broker_TopicConfig t b"
  using adm.apply_entries_frame [of b cdc "map (\<lambda>(now, c). (now, encode c)) es"]
  by (simp add: apply_entries_steps same_admin_def broker_TopicConfig_def)

text \<open>
  A node applies the entries \<open>es1\<close>, takes a snapshot, applies \<open>es2\<close> and stops. After the restart Raft
  restores the snapshot and applies the entries behind it again, at other times.
\<close>

lemma restored_replays:
  assumes k: "broker_keeps cdc b h" and plain: "\<And>t. \<not> tc_Compressed (broker_TopicConfig t b)"
    and a: "able_steps spec_apply cmd_able (map snd (es1 @ es2 @ es2')) h" and same: "map snd es2' = map snd es2"
    and r1: "run_steps (broker_step cdc) es1 b = (rs1, b1)" and acc1: "\<forall>r \<in> set rs1. accepted r"
    and r2: "run_steps (broker_step cdc) es2 b1 = (rs2, b2)" and acc2: "\<forall>r \<in> set rs2. accepted r"
    and up: "restarts_to ops he re order b2 b3" and rest: "Restore data b3 = (Inr (), b4)"
    and r3: "run_steps (broker_step cdc) es2' b4 = (rs3, b5)" and acc3: "\<forall>r \<in> set rs3. accepted r"
  shows "\<exists>h'. broker_keeps cdc b5 h'
    \<and> (\<forall>t p. h' t p = h t p @ added (map snd es1) t p @ added (map snd es2) t p @ added (map snd es2) t p)"
proof -
  have a1: "able_steps spec_apply cmd_able (map snd es1 @ map snd es2 @ map snd es2' @ []) h" using a by simp
  obtain h1 where h1: "broker_keeps cdc b1 h1" "able_steps spec_apply cmd_able (map snd es2 @ map snd es2' @ []) h1"
    "\<And>t p. h1 t p = h t p @ added (map snd es1) t p"
    using replay_adds [OF k a1 r1 acc1] by blast
  obtain h2 where h2: "broker_keeps cdc b2 h2" "able_steps spec_apply cmd_able (map snd es2' @ []) h2"
    "\<And>t p. h2 t p = h1 t p @ added (map snd es2) t p"
    using replay_adds [OF h1(1,2) r2 acc2] by blast
  have "\<not> tc_Compressed (broker_TopicConfig t b2)" for t
    using plain run_steps_config [OF r1] run_steps_config [OF r2] by simp
  from restarts_to_keeps [OF up h2(1) this] have "broker_keeps cdc b4 h2"
    using rest by (simp add: Restore_def)
  from replay_adds [OF this h2(2) r3 acc3] show ?thesis
    using h1(3) h2(3) same by (metis append.assoc)
qed

end
