(* ===== verification/ApiLaws.thy ===== *)
theory ApiLaws
  imports BrokerFrame
begin

text \<open>Properties of the helpers and handlers of the broker's network interface.\<close>

section \<open>Addresses\<close>

lemma last_index_append: "c \<notin> set ys \<Longrightarrow> last_index c (xs @ c # ys) = Some (length xs)"
proof (induction xs)
  case Nil
  then have "last_index c ys = None" by (induction ys) auto
  then show ?case by simp
qed simp

lemma last_index_SomeD:
  "last_index c s = Some i \<Longrightarrow> i < length s \<and> s ! i = c \<and> s = take i s @ c # drop (Suc i) s \<and> c \<notin> set (drop (Suc i) s)"
proof (induction s arbitrary: i)
  case (Cons x s)
  then show ?case
  proof (cases "last_index c s")
    case None
    then have "c \<notin> set s" by (induction s) (auto split: option.splits if_splits)
    then show ?thesis using Cons.prems None by (auto split: if_splits)
  next
    case (Some j)
    then show ?thesis using Cons.prems Cons.IH [OF Some] by auto
  qed
qed simp

lemma first_index_append: "c \<notin> set xs \<Longrightarrow> first_index c (xs @ c # ys) = Some (length xs)"
  by (induction xs) auto

lemma first_index_SomeD: "first_index c s = Some i \<Longrightarrow> i < length s \<and> s ! i = c \<and> c \<notin> set (take i s)"
  by (induction s arbitrary: i) (auto split: if_splits)

definition host_ok :: "string \<Rightarrow> bool" where
  "host_ok h \<longleftrightarrow> CHR ''['' \<notin> set h \<and> CHR '']'' \<notin> set h"

definition port_ok :: "string \<Rightarrow> bool" where
  "port_ok s \<longleftrightarrow> CHR '':'' \<notin> set s \<and> CHR ''['' \<notin> set s \<and> CHR '']'' \<notin> set s"

lemma SplitHostPort_host:
  assumes "SplitHostPort s = Some (h, ps)" shows "host_ok h"
proof -
  obtain i where i: "last_index CHR '':'' s = Some i" using assms by (auto simp: SplitHostPort_def split: option.splits)
  show ?thesis
  proof (cases "hd s = CHR ''[''")
    case True
    then obtain e where e: "first_index CHR '']'' s = Some e" "h = take (e - 1) (drop 1 s)" "CHR ''['' \<notin> set (drop 1 s)"
      using assms i by (auto simp: SplitHostPort_def split: option.splits if_splits)
    have "set (take (e - 1) (drop 1 s)) \<subseteq> set (take e s)"
      by (cases s; cases e) (auto dest: in_set_takeD)
    moreover have "CHR '']'' \<notin> set (take e s)" using first_index_SomeD [OF e(1)] by blast
    ultimately show ?thesis using e(2,3) by (auto simp: host_ok_def dest: in_set_takeD)
  next
    case False
    then show ?thesis
      using assms i by (auto simp: SplitHostPort_def host_ok_def dest: in_set_takeD split: if_splits)
  qed
qed

text \<open>Splitting undoes joining.\<close>

lemma SplitHostPort_Join:
  assumes "host_ok h" "port_ok ps" shows "SplitHostPort (JoinHostPort h ps) = Some (h, ps)"
proof (cases "CHR '':'' \<in> set h")
  case True
  let ?s = "CHR ''['' # h @ CHR '']'' # CHR '':'' # ps"
  have "last_index CHR '':'' ((CHR ''['' # h @ [CHR '']'']) @ CHR '':'' # ps) = Some (length h + 2)"
    using assms by (subst last_index_append) (auto simp: port_ok_def)
  then have l: "last_index CHR '':'' ?s = Some (length h + 2)" by simp
  have "first_index CHR '']'' ((CHR ''['' # h) @ CHR '']'' # CHR '':'' # ps) = Some (length h + 1)"
    using assms by (subst first_index_append) (auto simp: host_ok_def)
  then have f: "first_index CHR '']'' ?s = Some (length h + 1)" by simp
  have "JoinHostPort h ps = ?s" using True by (simp add: JoinHostPort_def)
  then show ?thesis using l f assms by (auto simp: SplitHostPort_def host_ok_def port_ok_def)
next
  case False
  have l: "last_index CHR '':'' (h @ CHR '':'' # ps) = Some (length h)"
    using assms by (intro last_index_append) (simp add: port_ok_def)
  have "hd (h @ CHR '':'' # ps) \<noteq> CHR ''[''"
    using assms by (cases h) (auto simp: host_ok_def)
  then show ?thesis
    using l False assms by (auto simp: JoinHostPort_def SplitHostPort_def host_ok_def port_ok_def)
qed

lemma format_uint_chars: "c \<in> set (format_uint n) \<Longrightarrow> digit_val c \<noteq> None"
proof -
  have "parse_digits a s = Some n \<Longrightarrow> c \<in> set s \<Longrightarrow> digit_val c \<noteq> None" for a s
    by (induction a s rule: parse_digits.induct) (auto split: option.splits)
  then show "c \<in> set (format_uint n) \<Longrightarrow> digit_val c \<noteq> None" using parse_format by blast
qed

lemma port_ok_Itoa: "port_ok (Itoa i)"
proof -
  have "digit_val CHR '':'' = None" "digit_val CHR ''['' = None" "digit_val CHR '']'' = None"
    by (simp_all add: digit_val_def)
  then show ?thesis using format_uint_chars by (fastforce simp: port_ok_def Itoa_def)
qed

lemma grpcAddress_spec:
  assumes "grpcAddress a = Inr g"
  shows "\<exists>host ps port. SplitHostPort a = Some (host, ps) \<and> Atoi ps = Some port
    \<and> port + 1000 \<le> 65535 \<and> SplitHostPort g = Some (host, Itoa (port + 1000))"
proof -
  obtain host ps port where s: "SplitHostPort a = Some (host, ps)" "Atoi ps = Some port" "port \<le> 64535"
    and g: "g = JoinHostPort host (Itoa (port + 1000))"
    using assms by (auto simp: grpcAddress_def split: option.splits if_splits)
  have "SplitHostPort g = Some (host, Itoa (port + 1000))"
    unfolding g using SplitHostPort_host [OF s(1)] port_ok_Itoa by (rule SplitHostPort_Join)
  then show ?thesis using s by auto
qed

section \<open>Joining a cluster\<close>

definition success :: "nat res \<Rightarrow> bool" where
  "success r \<longleftrightarrow> (case r of Inr status \<Rightarrow> 200 \<le> status \<and> status < 300 | Inl _ \<Rightarrow> False)"

lemma join_attempts_step:
  "join_attempts post a (Suc n) e = (if success (post a) then (Inr (), Suc a)
     else join_attempts post (Suc a) n
       (case post a of Inl e' \<Rightarrow> e' | Inr s \<Rightarrow> NumErr ''join request returned status'' (int s)))"
  by (auto simp: success_def split: sum.splits)

lemma join_attempts_spec:
  "join_attempts post a n e = (r, made) \<Longrightarrow>
     made \<le> a + n \<and> (r = Inr () \<longleftrightarrow> (\<exists>k. a \<le> k \<and> k < a + n \<and> success (post k)))
     \<and> (r = Inr () \<longrightarrow> a < made \<and> success (post (made - 1)) \<and> (\<forall>k. a \<le> k \<and> k < made - 1 \<longrightarrow> \<not> success (post k)))"
proof (induction n arbitrary: a e)
  case 0
  then show ?case by auto
next
  case (Suc n)
  note res = Suc.prems [unfolded join_attempts_step]
  show ?case
  proof (cases "success (post a)")
    case True
    then show ?thesis using res by auto
  next
    case False
    then obtain e' where j: "join_attempts post (Suc a) n e' = (r, made)" using res by auto
    have IH: "made \<le> Suc a + n" "r = Inr () \<longleftrightarrow> (\<exists>k. Suc a \<le> k \<and> k < Suc a + n \<and> success (post k))"
      "r = Inr () \<Longrightarrow> Suc a < made \<and> success (post (made - 1)) \<and> (\<forall>k. Suc a \<le> k \<and> k < made - 1 \<longrightarrow> \<not> success (post k))"
      using Suc.IH [OF j] by blast+
    have shift: "(\<exists>k. Suc a \<le> k \<and> k < Suc a + n \<and> success (post k)) \<longleftrightarrow> (\<exists>k. a \<le> k \<and> k < a + Suc n \<and> success (post k))"
      using False by (metis Suc_le_eq add_Suc_shift le_eq_less_or_eq)
    have before: "\<not> success (post k)" if "a \<le> k" "k < made - 1" "r = Inr ()" for k
      using IH(3) [OF that(3)] that False by (cases "k = a") auto
    show ?thesis
    proof (intro conjI impI)
      show "made \<le> a + Suc n" using IH(1) by simp
      show "r = Inr () \<longleftrightarrow> (\<exists>k. a \<le> k \<and> k < a + Suc n \<and> success (post k))"
        using IH(2) shift by (rule trans)
      assume r: "r = Inr ()"
      show "a < made" "success (post (made - 1))" using IH(3) [OF r] by simp_all
      show "\<forall>k. a \<le> k \<and> k < made - 1 \<longrightarrow> \<not> success (post k)" using before [OF _ _ r] by blast
    qed
  qed
qed

section \<open>What HTTP clients are told\<close>

text \<open>
  When no partition is given, the answer of \<open>handleProduce\<close> names partition 0, wherever the message
  went.
\<close>

lemma handleProduce_auto:
  assumes "handleProduce cdc rc m body b = (Body x, b')" "body = Inr req" "pr_Partition req = None"
  shows "pb_Partition x = 0"
  using assms by (auto simp: handleProduce_def partitionValue_def Let_def split: if_splits sum.splits prod.splits)


section \<open>Topic configuration\<close>

lemma SetTopicConfig_result:
  assumes "SetTopicConfig t c b = (r, b')"
  shows "sint (tc_RetentionBytes c) < 0 \<or> sint (tc_RetentionMs c) < 0 \<Longrightarrow> (\<exists>e. r = Inl e) \<and> b' = b"
    and "0 \<le> sint (tc_RetentionBytes c) \<Longrightarrow> 0 \<le> sint (tc_RetentionMs c) \<Longrightarrow>
      b_topicConfigs b' = (b_topicConfigs b)(topic_or_default t \<mapsto> c)"
  using assms by (auto simp: SetTopicConfig_def Let_def not_less same_admin_def split: if_splits dest!: GetPartition_admin)

section \<open>Lag\<close>

text \<open>
  A group that has committed \<open>c\<close>, the offset it will read next, still has the records of the history
  from \<open>c\<close> on to read; the gauge shows one less, or 0 when there is none or nothing is stored.
\<close>

lemma LatestOffset_history:
  assumes "log_history cdc (l, d) hs"
  shows "unat (LatestOffset l) = (if unat (log_start l) < length hs then length hs - 1 else 0)"
proof -
  obtain msgs where h: "log_holds cdc d l msgs" and n: "unat (log_next l) = length hs"
    using assms by (auto simp: log_history_def)
  note o = log_holds_offsets [OF h]
  have len: "length msgs = length hs - unat (log_start l)" using o(1) n by simp
  show ?thesis
  proof (cases "msgs = []")
    case True
    then show ?thesis using LatestOffset_holds [OF h] len by simp
  next
    case False
    let ?i = "length msgs - 1"
    have i: "?i < length msgs" "unat (log_start l) + ?i = length hs - 1"
      using False len by (simp_all flip: length_greater_0_conv)
    have "unat (log_start l) + ?i < 2 ^ 64" using i n unat_lt_pow [of "log_next l"] by simp
    then have "unat (msg_Offset (msgs ! ?i)) = length hs - 1"
      using o(3) [OF i(1)] i(2) by (simp add: unat_word_ariths unat_of_nat)
    moreover have "unat (log_start l) < length hs" using i(1) len by linarith
    ultimately show ?thesis using LatestOffset_holds [OF h] False by (simp add: last_conv_nth)
  qed
qed

lemma unat_lag_of: "unat (lag_of latest c) = unat latest - unat c"
  by (auto simp: lag_of_def unat_sub word_le_nat_alt)

lemma GetPartition_metrics: "GetPartition t p b = (r, b') \<Longrightarrow> b_metrics b' = b_metrics b"
  by (auto simp: GetPartition_def create_partitions_def Let_def split: if_splits option.splits prod.splits sum.splits)

lemma lag_gauge:
  assumes k: "broker_keeps cdc b h" and t: "safe_topic t" and g: "GetPartition t (sint p) b = (Inr u, b1)"
  shows "\<exists>lag. m_lag (b_metrics (updateConsumerGroupLagFor grp t p c b)) = (m_lag (b_metrics b))((grp, t, p) \<mapsto> lag)
    \<and> unat lag = (if unat (log_start (fst (partition_log t (sint p) b1))) < length (h t (sint p))
                  then length (drop (unat c) (h t (sint p))) - 1 else 0)"
proof -
  have g': "GetPartition t (sint p) b = (Inr (), b1)" using g by simp
  note b1 = GetPartition_keeps [OF k t g']
  obtain l d where pl: "partition_log t (sint p) b1 = (l, d)" by fastforce
  have "log_history cdc (l, d) (h t (sint p))" using partition_log_known(1) [OF b1] pl by simp
  from LatestOffset_history [OF this] show ?thesis
    using g' pl GetPartition_metrics [OF g']
    by (intro exI [of _ "lag_of (LatestOffset l) c"])
      (simp add: updateConsumerGroupLagFor_def set_lag_def unat_lag_of)
qed

section \<open>Batch reads through the API\<close>

lemma ConsumeBatch_history:
  assumes k: "broker_keeps cdc b h" and kn: "broker_known b t p" and cdc: "codec_ok cdc"
    and st: "log_start (fst (partition_log t p b)) \<le> cbr_Offset req" and off: "0 \<le> sint (cbr_Offset req)"
    and n: "0 < sint (cbr_MaxCount req)" and t: "cbr_Topic req = t" and p: "sint (cbr_Partition req) = p"
    and c: "ConsumeBatch cdc req b = (r, b')"
  shows "\<exists>rs. r = Some (Inr rs) \<and> map (\<lambda>r. (cor_Key r, cor_Value r)) rs =
    take (nat (min 1000 (sint (cbr_MaxCount req)))) (drop (unat (cbr_Offset req)) (h t p))"
proof -
  define n' where "n' = (if sint (cbr_MaxCount req) > 1000 then 1000 else cbr_MaxCount req)"
  have n': "sint n' = min 1000 (sint (cbr_MaxCount req))" by (simp add: n'_def)
  obtain r1 b1 where rb: "broker_ReadBatch cdc t p (cbr_Offset req) n' b = (r1, b1)" by fastforce
  obtain ms where ms: "r1 = Some (Inr ms)"
    "map kv ms = take (nat (min 1000 (sint n'))) (drop (unat (cbr_Offset req)) (h t p))"
    using broker_ReadBatch_history(2) [OF k kn cdc st off _ rb] n n' by auto
  have "safe_topic t" "in_range p" using kn by (simp_all add: broker_known_def in_range_def)
  then have "r = Some (Inr (map consumed ms))"
    using c rb ms(1) off n t p by (simp add: ConsumeBatch_def Let_def safe_topic_default n'_def)
  moreover have "map (\<lambda>r. (cor_Key r, cor_Value r)) (map consumed ms) = map kv ms"
    by (simp add: consumed_def kv_def)
  ultimately show ?thesis using ms(2) n' by simp
qed

section \<open>Two front ends\<close>

text \<open>The HTTP handlers do what the gRPC methods do.\<close>

lemma topic_or_default_idem [simp]: "topic_or_default (topic_or_default t) = topic_or_default t"
  by (simp add: topic_or_default_def)

lemma broker_Read_default: "broker_Read cdc (topic_or_default t) p off b = broker_Read cdc t p off b"
proof -
  have "GetPartition (topic_or_default t) p b = GetPartition t p b"
    "partition_log (topic_or_default t) p b' = partition_log t p b'" for b' :: "'a broker"
    by (simp_all add: GetPartition_def partition_log_def)
  then show ?thesis by (simp only: broker_Read_def)
qed

lemma handleProduce_Produce:
  "handleProduce cdc rc ''POST'' (Inr req) b =
     (case Produce cdc rc req b of
        (Inl e, b') \<Rightarrow> (Fail 500 e, b')
      | (Inr off, b') \<Rightarrow> (Body \<lparr>pb_Offset = off, pb_Topic = topic_or_default (pr_Topic req),
          pb_Partition = partitionValue (pr_Partition req)\<rparr>, b'))"
proof -
  have "Publish cdc rc (topic_or_default t) k v p b = Publish cdc rc t k v p b" for t k v p
    by (simp add: Publish_def)
  then show ?thesis
    by (simp add: handleProduce_def Produce_def Let_def split: prod.split sum.split)
qed

lemma handleConsume_Consume:
  assumes "(if query ''partition'' = '''' then Some 0 else Atoi (query ''partition'')) = Some (sint p)"
    "query ''offset'' \<noteq> ''''" "ParseUint (query ''offset'') = Some off"
  shows "handleConsume cdc ''GET'' query b =
    (case Consume cdc \<lparr>cr_Topic = query ''topic'', cr_Partition = Some p, cr_Offset = off\<rparr> b of
       (Inl e, b') \<Rightarrow> (Fail 404 e, b')
     | (Inr (o', k, v), b') \<Rightarrow> (Body \<lparr>cb_Offset = o', cb_Topic = topic_or_default (query ''topic''),
         cb_Partition = sint p, cb_Key = k, cb_Value = v\<rparr>, b'))"
  using assms
  by (simp add: handleConsume_def Consume_def broker_Read_default Let_def split: prod.split sum.split)

lemma handleCommitOffset_CommitOffset:
  "snd (handleCommitOffset ops ''POST'' (Inr req) b) = snd (CommitOffset ops req b)"
  "fst (handleCommitOffset ops ''POST'' (Inr req) b) = Ok \<longleftrightarrow> fst (CommitOffset ops req b) = Inr ()"
  by (simp_all add: handleCommitOffset_def CommitOffset_def store_commit_def Let_def split: prod.split sum.split)

lemma handleFetchOffset_FetchOffset:
  assumes "query ''partition'' \<noteq> ''''" "ParseInt 32 (query ''partition'') = Some (sint p)"
  shows "handleFetchOffset ''GET'' query b = Body off \<longleftrightarrow>
    FetchOffset \<lparr>or_GroupId = query ''group_id'', or_Topic = query ''topic'', or_Partition = p, or_Offset = any\<rparr> b = Inr off"
  using assms by (auto simp: handleFetchOffset_def FetchOffset_def Let_def)


end
