(* ===== verification/LogLive.thy ===== *)
theory LogLive
  imports LogProgress Retention
begin

text \<open>
  Logs of the broker's size limit over directories that report no failure: appending, batches,
  opening and retention succeed, and keep the directory in that condition. The limits are
  those of the file format and of a segment: below the limit of a segment there is room for any
  record or batch of the sizes below.
\<close>

section \<open>Directories without failures\<close>

text \<open>
  \<open>dir_slim\<close>: the newest log file has not reached the limit at which the log rolls over, which holds
  whenever the last roll-over that was due took place.
\<close>

definition dir_slim :: "directory \<Rightarrow> bool" where
  "dir_slim d \<longleftrightarrow> (\<forall>b bs. lookup_file d (log_name b) = Some bs
     \<and> (\<forall>b'. b < b' \<longrightarrow> lookup_file d (log_name b') = None) \<longrightarrow> length bs < 2 ^ 30)"

definition dir_fine :: "directory \<Rightarrow> bool" where
  "dir_fine d \<longleftrightarrow> sched d = [] \<and> subdirs d = [] \<and> dir_slim d"

lemma dir_fine_empty: "sched d = [] \<Longrightarrow> subdirs d = [] \<Longrightarrow> lookup_file d = Map.empty \<Longrightarrow> dir_fine d"
  by (simp add: dir_fine_def dir_slim_def)

lemma dir_fine_same_files:
  "dir_fine d \<Longrightarrow> dir_step d d' (lookup_file d) \<Longrightarrow> sched d' = [] \<Longrightarrow> dir_fine d'"
  by (simp add: dir_fine_def dir_slim_def dir_step_def)

lemma active_last:
  assumes "log_inv cdc d l mss" "lookup_file d (log_name b) = Some bs"
  shows "b \<le> seg_baseOffset (last (log_segments l))"
proof -
  have "b \<in> bases (log_segments l)"
    using assms segmentBaseOffset_log_name [of b] by (auto simp: log_inv_def dir_exact_def)
  then show ?thesis using assms(1) by (auto simp: log_inv_def log_core_def intro: chained_last_max)
qed

lemma active_file:
  assumes "log_inv cdc d l mss"
  shows "lookup_file d (log_name (seg_baseOffset (last (log_segments l))))
      = Some (log_bytes cdc (log_compressed l) (last mss))"
    and "seg_Size (last (log_segments l)) = int (length (log_bytes cdc (log_compressed l) (last mss)))"
    and "length (log_bytes cdc (log_compressed l) (last mss)) \<le> max_file_size"
proof -
  obtain ss a msf ms where s: "log_segments l = ss @ [a]" "mss = msf @ [ms]"
    and ai: "seg_inv cdc (log_compressed l) d a ms" and wf: "dir_wf d"
    using assms by (auto simp: log_inv_def elim: log_core_split)
  show f: "lookup_file d (log_name (seg_baseOffset (last (log_segments l))))
      = Some (log_bytes cdc (log_compressed l) (last mss))"
    "seg_Size (last (log_segments l)) = int (length (log_bytes cdc (log_compressed l) (last mss)))"
    using s ai by (auto simp: seg_inv_def seg_repr_def seg_files_def seg_Size_def)
  show "length (log_bytes cdc (log_compressed l) (last mss)) \<le> max_file_size"
    by (rule dir_wf_size [OF wf f(1)])
qed

lemma dir_slim_iff:
  assumes "log_inv cdc d l mss"
  shows "dir_slim d \<longleftrightarrow> length (log_bytes cdc (log_compressed l) (last mss)) < 2 ^ 30"
proof -
  let ?a = "seg_baseOffset (last (log_segments l))"
  have iff: "lookup_file d (log_name b) = Some bs \<and> (\<forall>b'. b < b' \<longrightarrow> lookup_file d (log_name b') = None)
      \<longleftrightarrow> b = ?a \<and> bs = log_bytes cdc (log_compressed l) (last mss)" for b bs
    using active_last [OF assms] active_file(1) [OF assms]
    by (metis antisym_conv1 linorder_not_less not_Some_eq option.distinct(1) option.inject)
  show ?thesis unfolding dir_slim_def iff by blast
qed

text \<open>
  \<open>starts_by d n\<close>: a log in this directory begins at offset \<open>n\<close> or before. Only the deletion of
  segments moves the beginning.
\<close>

definition starts_by :: "directory \<Rightarrow> nat \<Rightarrow> bool" where
  "starts_by d n \<longleftrightarrow> lookup_file d = Map.empty \<or> (\<exists>b. lookup_file d (log_name b) \<noteq> None \<and> unat b \<le> n)"

lemma starts_by_iff:
  assumes "log_inv cdc d l mss" shows "starts_by d n \<longleftrightarrow> unat (log_start l) \<le> n"
proof -
  have ne: "log_segments l \<noteq> []" and ch: "chained (log_segments l)" and ex: "dir_exact d (bases (log_segments l))"
    and l2: "list_all2 (seg_inv cdc (log_compressed l) d) (log_segments l) mss"
    using assms by (auto simp: log_inv_def log_core_def)
  have first: "lookup_file d (log_name (log_start l)) \<noteq> None"
    using ne l2 by (cases "log_segments l"; cases mss)
      (auto simp: log_start_def seg_inv_def seg_repr_def seg_files_def)
  have "log_start l \<le> b" if "lookup_file d (log_name b) \<noteq> None" for b
  proof -
    have "b \<in> bases (log_segments l)" using ex that segmentBaseOffset_log_name [of b] by (auto simp: dir_exact_def)
    then show ?thesis
      using chained_head_less [of "hd (log_segments l)" "tl (log_segments l)"] ne ch
      by (cases "log_segments l") (auto simp: log_start_def less_imp_le)
  qed
  then show ?thesis using first by (auto simp: starts_by_def word_le_nat_alt intro: order_trans)
qed

lemma starts_by_mono: "starts_by d n \<Longrightarrow> n \<le> n' \<Longrightarrow> starts_by d n'"
  by (auto simp: starts_by_def intro: order_trans)

section \<open>Rolling over\<close>

lemma uint64_less:
  assumes "n \<le> max_file_size"
  shows "uint64 (int n) < DefaultMaxSegmentSize \<longleftrightarrow> n < 2 ^ 30"
proof -
  have "n < 2 ^ 64" using assms by (simp add: max_file_size_def)
  then have "unat (uint64 (int n)) = n" by (simp add: uint64_def unat_of_nat)
  then show ?thesis by (simp add: word_less_nat_alt DefaultMaxSegmentSize_def)
qed

lemma roll_live:
  assumes "sched d = []" "subdirs d = []" "no_later d base" "log_maxSegmentSize l \<noteq> 0" "log_segments l \<noteq> []"
  shows "\<exists>l' d'. roll base l d = (Inr (), l', d') \<and> sched d' = [] \<and> subdirs d' = []
    \<and> uint64 (seg_Size (last (log_segments l'))) < log_maxSegmentSize l
    \<and> log_maxSegmentSize l' = log_maxSegmentSize l"
proof -
  obtain d' where n: "NewSegment base d = (Inr (opened undefined False base []), d')" "sched d' = []"
    using NewSegment_idle [OF assms(1), of base undefined False "[]"] assms(2,3) by (auto simp: no_later_def)
  have "uint64 0 < log_maxSegmentSize l" using assms(4) by (simp add: uint64_def word_gt_0)
  then show ?thesis
    using n assms NewSegment_frame(3) [OF n(1)]
    by (auto simp: roll_def not_le seg_SetCompressed_def opened_def seg_Size_def log_bytes_def)
qed

section \<open>Records of bounded size\<close>

definition codec_live :: "codec \<Rightarrow> bool" where
  "codec_live cdc \<longleftrightarrow> codec_ok cdc \<and> (\<forall>p. 32 + length p + length p div 6 < 2 ^ 32 \<longrightarrow> Encode cdc p \<noteq> None)"

definition kv_small :: "bytes \<Rightarrow> bytes \<Rightarrow> bool" where
  "kv_small k v \<longleftrightarrow> length k + length v < 2 ^ 31"

lemma stored_small:
  assumes "codec_live cdc" "kv_small k v"
  shows "\<exists>p. stored cdc c k v = Some p \<and> 24 + length p < 2 ^ 32"
proof (cases c)
  case True
  have n: "length (k @ v) < 2 ^ 31" using assms(2) by (simp add: kv_small_def)
  then have "32 + length (k @ v) + length (k @ v) div 6 < 2 ^ 32" by simp
  then obtain q where q: "Encode cdc (k @ v) = Some q" using assms(1) by (metis codec_live_def not_None_eq)
  then have "length q \<le> 32 + length (k @ v) + length (k @ v) div 6"
    using assms(1) unfolding codec_live_def codec_ok_def by blast
  then show ?thesis using q n True by (simp add: stored_def)
qed (use assms(2) in \<open>simp add: stored_def kv_small_def\<close>)

lemma fits_small:
  assumes "codec_live cdc" "kv_small k v" "length (log_bytes cdc c ms) < 2 ^ 30"
  shows "fits cdc c ms k v"
  using stored_small [OF assms(1,2), of c] assms(2,3) by (auto simp: fits_def kv_small_def max_file_size_def)

text \<open>A log and its directory in the condition of the broker's logs.\<close>

definition log_ready :: "log \<times> directory \<Rightarrow> bool" where
  "log_ready ld \<longleftrightarrow> dir_fine (snd ld) \<and> log_maxSegmentSize (fst ld) = DefaultMaxSegmentSize"

lemma log_ready_after:
  assumes "log_inv cdc d l mss" "sched d = []" "subdirs d = []"
    "log_maxSegmentSize l = DefaultMaxSegmentSize"
    "uint64 (seg_Size (last (log_segments l))) < DefaultMaxSegmentSize"
  shows "log_ready (l, d)"
  using assms active_file(2,3) [OF assms(1)] dir_slim_iff [OF assms(1)] uint64_less
  by (simp add: log_ready_def dir_fine_def)

lemma log_Append_live:
  assumes h: "log_holds cdc d l msgs" and rd: "log_ready (l, d)" and cdc: "codec_live cdc"
    and kv: "kv_small k v" and room: "log_next l \<noteq> -1"
  shows "\<exists>l' d'. log_Append cdc ts k v l d = (Inr (log_next l), l', d') \<and> log_ready (l', d')"
proof -
  obtain mss where i: "log_inv cdc d l mss" using h by (auto simp: log_holds_def)
  have fine: "sched d = []" "subdirs d = []" and mx: "log_maxSegmentSize l = DefaultMaxSegmentSize"
    and "dir_slim d" using rd by (auto simp: log_ready_def dir_fine_def)
  then have f: "fits cdc (log_compressed l) (last mss) k v"
    using fits_small [OF cdc kv] dir_slim_iff [OF i] by simp
  obtain ss a msf ms where s: "log_segments l = ss @ [a]" "mss = msf @ [ms]"
    and ai: "seg_inv cdc (log_compressed l) d a ms"
    using i by (auto simp: log_inv_def elim: log_core_split)
  have f': "fits cdc (seg_compressed a) ms k v" and ra: "seg_repr cdc d a ms"
    using f s ai by (auto simp: seg_inv_def)
  obtain sv a' d1 where ap: "seg_Append cdc ts k v a d = (Inr (seg_nextOffset a, sv), a', d1)"
    and d1: "sched d1 = []" "subdirs d1 = subdirs d"
    using seg_Append_idle [OF ra fine(1) f'] by blast
  have nx: "log_next l = seg_nextOffset a" by (simp add: log_next_def s)
  let ?l = "notify_saved sv (set_active a' l)" and ?b = "seg_nextOffset a + 1"
  have "seg_nextOffset a < ?b" using room nx by (simp add: word_less_succ)
  note ok = seg_Append_ok [OF ra ap this refl]
  have lt: "seg_baseOffset a < ?b"
    using word_less_succ [OF room] nx seg_dense_bounds(1) ai by (fastforce simp: seg_inv_def)
  have "no_later d ?b" using log_inv_ready [OF i] lt s by (simp add: ready_def)
  then have nl: "no_later d1 ?b"
    using no_later_touch lt ok(4) dir_step_touches [of d d1 _ "seg_names a"] by fastforce
  obtain l' d' where rl: "roll ?b ?l d1 = (Inr (), l', d')" "sched d' = []" "subdirs d' = []"
    "uint64 (seg_Size (last (log_segments l'))) < DefaultMaxSegmentSize"
    "log_maxSegmentSize l' = DefaultMaxSegmentSize"
    using roll_live [OF d1(1) _ nl, of ?l] d1(2) fine mx s by (auto simp: DefaultMaxSegmentSize_def)
  have a: "log_Append cdc ts k v l d = (Inr (log_next l), l', d')"
    using ap s nx rl(1) by (simp add: log_Append_def appendLocked_def)
  obtain mss' where "log_inv cdc d' l' mss'"
    using log_Append_holds(5) [OF h room a] by (auto simp: log_holds_def)
  then show ?thesis using a log_ready_after rl by blast
qed


section \<open>Batches\<close>

text \<open>At most \<open>2 ^ 16\<close> records of less than two gigabytes each.\<close>

definition batch_small :: "log_record list \<Rightarrow> bool" where
  "batch_small rs \<longleftrightarrow> length rs \<le> 2 ^ 16 \<and> (\<forall>r \<in> set rs. kv_small (rec_Key r) (rec_Value r))"

lemma prepare_batch_small:
  assumes "codec_live cdc" "\<forall>r \<in> set rs. kv_small (rec_Key r) (rec_Value r)"
  shows "\<exists>ps. prepare_batch cdc c rs = Inr ps"
  using assms(2)
proof (induction rs)
  case (Cons r rs)
  have "kv_small (rec_Key r) (rec_Value r)" using Cons.prems by simp
  from stored_small [OF assms(1) this, of c] obtain p where p: "stored cdc c (rec_Key r) (rec_Value r) = Some p"
    by blast
  have "length (rec_Key r) < 2 ^ 32" "length (rec_Value r) < 2 ^ 32"
    using \<open>kv_small (rec_Key r) (rec_Value r)\<close> by (simp_all add: kv_small_def)
  then show ?case using Cons p by (auto simp: Let_def)
qed simp

lemma log_bytes_small:
  assumes "codec_live cdc" "\<forall>r \<in> set rs. kv_small (rec_Key r) (rec_Value r)"
  shows "length (log_bytes cdc c (number_messages off rs)) \<le> length rs * 2 ^ 32"
  using assms(2)
proof (induction rs arbitrary: off)
  case (Cons r rs)
  have "kv_small (rec_Key r) (rec_Value r)" using Cons.prems by simp
  from stored_small [OF assms(1) this, of c] obtain p where
    p: "stored cdc c (rec_Key r) (rec_Value r) = Some p" "24 + length p < 2 ^ 32" by blast
  have "length (log_bytes cdc c (number_messages (off + 1) rs)) \<le> length rs * 2 ^ 32"
    using Cons by simp
  then show ?case using p by (simp add: log_bytes_def rec_bytes_def header_decode)
qed (simp add: log_bytes_def)

lemma seg_AppendBatch_live:
  assumes r: "seg_repr cdc d s ms" and idle: "sched d = []" and cdc: "codec_live cdc" and b: "batch_small rs"
    and slim: "length (log_bytes cdc (seg_compressed s) ms) < 2 ^ 30"
  shows "\<exists>offs saved s' d'. seg_AppendBatch cdc rs s d = (Inr (offs, saved), s', d')
    \<and> sched d' = [] \<and> subdirs d' = subdirs d"
proof (cases "rs = []")
  case True
  then show ?thesis using idle by (simp add: seg_AppendBatch_def)
next
  case False
  let ?c = "seg_compressed s" and ?L = "log_name (seg_baseOffset s)" and ?I = "index_name (seg_baseOffset s)"
  let ?new = "number_messages (seg_nextOffset s) rs"
  let ?pos = "length (log_bytes cdc ?c ms)"
  have sm: "\<forall>r \<in> set rs. kv_small (rec_Key r) (rec_Value r)" "length rs \<le> 2 ^ 16"
    using b by (auto simp: batch_small_def)
  obtain ps where ps: "prepare_batch cdc ?c rs = Inr ps" using prepare_batch_small [OF cdc sm(1)] by blast
  have sz: "uint64 (seg_size s) = word_of_nat ?pos" using r by (simp add: seg_repr_def uint64_def)
  note bb = prepare_batch_spec [OF ps, of ?pos "seg_nextOffset s"]
  have files: "lookup_file d ?L = Some (log_bytes cdc ?c ms)"
    "lookup_file d ?I = Some (index_bytes (index_from cdc ?c 0 ms))"
    and hs: "seg_logFile s = Some ?L" "seg_indexWrite s = Some ?I"
    using r by (auto simp: seg_repr_def seg_files_def seg_open_def)
  have "length (log_bytes cdc ?c ?new) \<le> 2 ^ 16 * 2 ^ 32"
    using log_bytes_small [OF cdc sm(1), of ?c "seg_nextOffset s"] sm(2) by (simp add: mult_le_mono1)
  then have "length (log_bytes cdc ?c ms) + length (log_bytes cdc ?c ?new) \<le> max_file_size"
    using slim by (simp add: max_file_size_def)
  then obtain d1 where w1: "writeAll (Some ?L) (log_bytes cdc ?c ?new) d = (Inr (), d1)" "sched d1 = []"
    "subdirs d1 = subdirs d" "lookup_file d1 = (lookup_file d)(?L \<mapsto> log_bytes cdc ?c ms @ log_bytes cdc ?c ?new)"
    using writeAll_idle_any [OF idle files(1)] by blast
  let ?ib = "index_bytes (index_from cdc ?c ?pos ?new)"
  have "lookup_file d1 ?I = Some (index_bytes (index_from cdc ?c 0 ms))" using w1(4) files by simp
  moreover have "24 * length ms < 2 ^ 30" using length_log_bytes_ge [of ms cdc ?c] slim by simp
  then have "length (index_bytes (index_from cdc ?c 0 ms)) + length ?ib \<le> max_file_size"
    using sm(2) by (simp add: length_index_bytes max_file_size_def)
  ultimately obtain d2 where w2: "writeAll (Some ?I) ?ib d1 = (Inr (), d2)" "sched d2 = []" "subdirs d2 = subdirs d1"
    using writeAll_idle_any [OF w1(2)] by blast
  show ?thesis
    using False ps bb sz w1 w2 hs by (simp add: seg_AppendBatch_def Let_def)
qed

lemma log_AppendBatch_live:
  assumes h: "log_holds cdc d l msgs" and rd: "log_ready (l, d)" and cdc: "codec_live cdc"
    and b: "batch_small rs" and room: "unat (log_next l) + length rs < 2 ^ 64"
  shows "\<exists>offs l' d'. log_AppendBatch cdc rs l d = ((offs, None), l', d') \<and> log_ready (l', d')"
proof (cases "rs = []")
  case True
  then show ?thesis using rd by (simp add: log_AppendBatch_def)
next
  case False
  obtain mss where i: "log_inv cdc d l mss" using h by (auto simp: log_holds_def)
  have fine: "sched d = []" "subdirs d = []" and mx: "log_maxSegmentSize l = DefaultMaxSegmentSize"
    and "dir_slim d" using rd by (auto simp: log_ready_def dir_fine_def)
  obtain ss a msf ms where s: "log_segments l = ss @ [a]" "mss = msf @ [ms]"
    and ai: "seg_inv cdc (log_compressed l) d a ms"
    using i by (auto simp: log_inv_def elim: log_core_split)
  have ra: "seg_repr cdc d a ms" and slim: "length (log_bytes cdc (seg_compressed a) ms) < 2 ^ 30"
    using dir_slim_iff [OF i] \<open>dir_slim d\<close> s ai by (auto simp: seg_inv_def)
  obtain offs sv a' d1 where ap: "seg_AppendBatch cdc rs a d = (Inr (offs, sv), a', d1)"
    and d1: "sched d1 = []" "subdirs d1 = subdirs d"
    using seg_AppendBatch_live [OF ra fine(1) cdc b slim] by blast
  have nx: "log_next l = seg_nextOffset a" by (simp add: log_next_def s)
  let ?l = "notify_saved sv (set_active a' l)" and ?b = "seg_nextOffset a + word_of_nat (length rs)"
  note ok = seg_AppendBatch_ok [OF ra ap room [unfolded nx] False refl]
  have "number_messages (seg_nextOffset a) rs \<noteq> []" using False by (cases rs) auto
  then have lo: "last offs + 1 = ?b" using ok(1) last_number_messages [OF False] by (simp add: last_map)
  have "seg_baseOffset a \<le> seg_nextOffset a" using seg_dense_bounds(1) ai by (fastforce simp: seg_inv_def)
  moreover have "seg_nextOffset a < ?b"
    using room nx False by (simp add: word_less_nat_alt unat_word_ariths unat_of_nat)
  ultimately have lt: "seg_baseOffset a < ?b" by simp
  have "no_later d ?b" using log_inv_ready [OF i] lt s by (simp add: ready_def)
  then have nl: "no_later d1 ?b"
    using no_later_touch lt ok(4) dir_step_touches [of d d1 _ "seg_names a"] by fastforce
  obtain l' d' where rl: "roll ?b ?l d1 = (Inr (), l', d')" "sched d' = []" "subdirs d' = []"
    "uint64 (seg_Size (last (log_segments l'))) < DefaultMaxSegmentSize"
    "log_maxSegmentSize l' = DefaultMaxSegmentSize"
    using roll_live [OF d1(1) _ nl, of ?l] d1(2) fine mx s by (auto simp: DefaultMaxSegmentSize_def)
  have a: "log_AppendBatch cdc rs l d = ((offs, None), l', d')"
    using ap s rl(1) False lo by (simp add: log_AppendBatch_def)
  obtain mss' where "log_inv cdc d' l' mss'"
    using log_AppendBatch_holds(5) [OF h room a refl] by (auto simp: log_holds_def)
  then show ?thesis using a log_ready_after rl by blast
qed

section \<open>Opening and retention\<close>

lemma NewLog_max: "NewLog [] d = (Inr l, d') \<Longrightarrow> log_maxSegmentSize l = DefaultMaxSegmentSize"
  by (auto simp: NewLog_def Let_def split: if_splits sum.splits prod.splits)

lemma NewLog_live_fresh:
  assumes "dir_fine d" "lookup_file d = Map.empty" "dir_wf d"
  shows "\<exists>l d'. NewLog [] d = (Inr l, d') \<and> log_ready (l, d')"
proof -
  have f: "files d = []" using assms(2) by (metis dom_empty dom_lookup_file map_is_Nil_conv set_empty)
  obtain l d' where n: "NewLog [] d = (Inr l, d')" "sched d' = []" "subdirs d' = []"
    using NewLog_fresh_idle [OF f, of "[]"] assms(1) by (auto simp: dir_fine_def size_args_ok_def)
  have "log_inv undefined d' l [[]]" using NewLog_fresh(1) [OF n(1) assms(2,3)] .
  then have "dir_slim d'" using dir_slim_iff by (fastforce simp: log_bytes_def)
  then show ?thesis using n NewLog_max [OF n(1)] by (auto simp: log_ready_def dir_fine_def)
qed

lemma NewLog_live_reopen:
  assumes i: "log_inv cdc d l0 mss" and f: "dir_fine d"
  shows "\<exists>l d'. NewLog [] d = (Inr l, d') \<and> log_ready (l, d')"
proof -
  have wf: "dir_wf d" using i by (simp add: log_inv_def log_core_def)
  obtain l d' where n: "NewLog [] d = (Inr l, d')" "sched d' = []"
    using NewLog_reopen_idle [OF i refl wf, of "[]"] f by (auto simp: dir_fine_def size_args_ok_def)
  then show ?thesis
    using dir_fine_same_files [OF f NewLog_reopen(1) [OF i refl wf n(1)]] NewLog_max [OF n(1)]
    by (simp add: log_ready_def)
qed

lemma EnforceRetention_live:
  assumes i: "log_inv cdc d l mss" and rd: "log_ready (l, d)"
  shows "\<exists>l' d' k. EnforceRetention rb rms now l d = (Inr (), l', d') \<and> log_ready (l', d')
    \<and> k < length mss \<and> l' = l\<lparr>log_segments := drop k (log_segments l)\<rparr> \<and> log_inv cdc d' l' (drop k mss)"
proof -
  obtain l' d' where e: "EnforceRetention rb rms now l d = (Inr (), l', d')" "sched d' = []" "subdirs d' = subdirs d"
    using EnforceRetention_idle [OF i, of rb rms now] rd by (auto simp: log_ready_def dir_fine_def)
  note sp = EnforceRetention_spec [OF i e(1) refl]
  have "last (drop (retention_rule cdc rb rms now (log_compressed l) mss) mss) = last mss" using sp(1) by simp
  then have "dir_slim d'"
    using dir_slim_iff [OF sp(3)] dir_slim_iff [OF i] rd sp(2) by (simp add: log_ready_def dir_fine_def)
  then have "log_ready (l', d')" using rd e sp(2) by (simp add: log_ready_def dir_fine_def)
  then show ?thesis using e(1) sp by blast
qed

lemma log_Close_idle: "sched d = [] \<Longrightarrow> \<exists>l'. log_Close l d = (Inr (), l', d)"
proof -
  assume i: "sched d = []"
  have "close_segments ss d = (Inr (), map seg_nil_handles ss, d)" for ss
    by (induction ss) (simp_all add: seg_Close_idle [OF i])
  then show ?thesis by (simp add: log_Close_def)
qed

end
