(* ===== verification/Liveness.thy ===== *)
theory Liveness
  imports BrokerState BrokerApi LogLive
begin

text \<open>
  A broker whose file system reports no failure: every partition can be opened, every
  well-formed command of bounded size is applied, and the broker stays in that condition. The
  locale \<open>live_provider\<close> extends the contract of a log provider by what progress needs of it.
\<close>

declare split_paired_All [simp del] split_paired_Ex [simp del]

section \<open>Live providers\<close>

definition cmd_small :: "command \<Rightarrow> bool" where
  "cmd_small c \<longleftrightarrow> length (cmd_kvs c) \<le> 2 ^ 16 \<and> (\<forall>(k, v) \<in> set (cmd_kvs c). kv_small k v)"

locale live_provider = log_provider prov cdc keeps known named
  for prov :: "'st provider" and cdc :: codec and keeps known named +
  fixes fine :: "'st \<Rightarrow> bool" and valid :: "int \<Rightarrow> bool"
  assumes get_live: "keeps st h \<Longrightarrow> fine st \<Longrightarrow> named t \<Longrightarrow> valid p \<Longrightarrow>
      \<exists>st'. prov_get prov t p st = (Inr (), st') \<and> fine st'"
    and log_live: "keeps st h \<Longrightarrow> fine st \<Longrightarrow> known st t p \<Longrightarrow> log_ready (prov_log prov t p st)"
    and set_live: "keeps st h \<Longrightarrow> fine st \<Longrightarrow> known st t p \<Longrightarrow> log_ready ld \<Longrightarrow> log_history cdc ld hs \<Longrightarrow>
      log_start (fst ld) = log_start (fst (prov_log prov t p st)) \<Longrightarrow> fine (prov_set prov t p ld st)"
begin

lemma append_one_live:
  assumes k: "keeps st h" "fine st" "known st t p" and cdc: "codec_live cdc" and kv: "kv_small key val"
    and room: "length (h t p) + 1 < 2 ^ 64"
  shows "\<exists>r st'. append_one cdc prov now t p key val st = (r, st') \<and> accepted r \<and> fine st'"
proof -
  obtain l d where ld: "prov_log prov t p st = (l, d)" by fastforce
  have hs: "log_history cdc (l, d) (h t p)" using log_ok [OF k(1,3)] ld by simp
  then obtain msgs where m: "log_holds cdc d l msgs" "unat (log_next l) = length (h t p)"
    by (auto simp: log_history_def)
  have n: "log_next l \<noteq> -1" using room m(2) by (simp add: word_neq_minus_one)
  have rd: "log_ready (l, d)" using log_live [OF k] ld by simp
  obtain l' d' where a: "log_Append cdc now key val l d = (Inr (log_next l), l', d')" "log_ready (l', d')"
    using log_Append_live [OF m(1) rd cdc kv n] by blast
  then show ?thesis
    using ld set_live [OF k a(2)] log_history_append(1,4) [OF hs room a(1)] by (simp add: append_one_def accepted_def)
qed

lemma append_many_live:
  assumes k: "keeps st h" "fine st" "known st t p" and cdc: "codec_live cdc" and b: "batch_small rs"
    and room: "length (h t p) + length rs < 2 ^ 64"
  shows "\<exists>r st'. append_many cdc prov t p rs st = (r, st') \<and> accepted r \<and> fine st'"
proof -
  obtain l d where ld: "prov_log prov t p st = (l, d)" by fastforce
  have hs: "log_history cdc (l, d) (h t p)" using log_ok [OF k(1,3)] ld by simp
  then obtain msgs where m: "log_holds cdc d l msgs" "unat (log_next l) = length (h t p)"
    by (auto simp: log_history_def)
  have n: "unat (log_next l) + length rs < 2 ^ 64" using room m(2) by simp
  have rd: "log_ready (l, d)" using log_live [OF k] ld by simp
  obtain offs l' d' where a: "log_AppendBatch cdc rs l d = ((offs, None), l', d')" "log_ready (l', d')"
    using log_AppendBatch_live [OF m(1) rd cdc b n] by blast
  then show ?thesis
    using ld set_live [OF k a(2)] log_history_append_batch(1,4) [OF hs room a(1)]
    by (simp add: append_many_def accepted_def)
qed

text \<open>A well-formed command of bounded size is applied as specified.\<close>

lemma Apply_live:
  assumes k: "keeps st h" "fine st" and cdc: "codec_live cdc"
    and c: "cmd_wf c" "named (cmd_topic c)" "valid (cmd_part c)" "cmd_small c"
    and room: "length (h (cmd_topic c) (cmd_part c)) + length (cmd_kvs c) < 2 ^ 64"
  shows "\<exists>st'. Apply cdc prov now (encode c) st = (fst (spec_apply c h), st')
    \<and> keeps st' (snd (spec_apply c h)) \<and> fine st' \<and> known st' (cmd_topic c) (cmd_part c)
    \<and> unat (log_start (fst (prov_log prov (cmd_topic c) (cmd_part c) st'))) \<le> length (h (cmd_topic c) (cmd_part c))"
proof -
  obtain st1 where g: "prov_get prov (cmd_topic c) (cmd_part c) st = (Inr (), st1)" "fine st1"
    using get_live [OF k c(2,3)] by blast
  have k1: "keeps st1 h" "fine st1" "known st1 (cmd_topic c) (cmd_part c)"
    using get_ok [OF k(1) c(2) g(1)] g(2) by auto
  have "\<exists>r st'. Apply cdc prov now (encode c) st = (r, st') \<and> accepted r \<and> fine st'"
  proof (cases c)
    case (Single t p key val)
    have "kv_small key val" using c(4) Single by (simp add: cmd_small_def)
    then show ?thesis
      using Apply_EncodeCommand [of t p key val "effective_topic t" cdc prov now st] c(1) Single g(1)
        append_one_live [OF k1 cdc, of key val now] room by simp
  next
    case (Batch t p rs)
    have "batch_small (stamped now rs)"
      using c(4) Batch by (auto simp: cmd_small_def batch_small_def stamped_def)
    then show ?thesis
      using Apply_EncodeBatchCommand [of t p rs "effective_topic t" cdc prov now st] c(1) Batch g(1)
        append_many_live [OF k1 cdc, of "stamped now rs"] room by (simp add: stamped_def)
  qed
  then obtain r st' where a: "Apply cdc prov now (encode c) st = (r, st')" "accepted r" "fine st'" by blast
  show ?thesis using Apply_refines [OF k(1) c(1,2) room a(1,2)] a by auto
qed

end

section \<open>The broker is live\<close>

text \<open>\<open>starts t p\<close> bounds the first offset that is still stored of partition \<open>p\<close> of topic \<open>t\<close>.\<close>

definition broker_starts :: "(string \<Rightarrow> int \<Rightarrow> nat) \<Rightarrow> 'db broker \<Rightarrow> bool" where
  "broker_starts starts b \<longleftrightarrow> (\<forall>t i. safe_topic t \<and> i < defaultNumPartitions \<longrightarrow>
     starts_by (b_fs b (partition_path (b_dataDir b) t i)) (starts t (int i)))"

definition broker_fine :: "(string \<Rightarrow> int \<Rightarrow> nat) \<Rightarrow> 'db broker \<Rightarrow> bool" where
  "broker_fine starts b \<longleftrightarrow> (\<forall>p. dir_fine (b_fs b p)) \<and> broker_starts starts b
     \<and> (\<forall>t ls l. b_logs b t = Some ls \<and> l \<in> set ls \<longrightarrow> log_maxSegmentSize l = DefaultMaxSegmentSize)"

lemma NewLog_live:
  assumes "dir_keeps cdc c d hs" "dir_fine d" "dir_wf d" "starts_by d n"
  shows "\<exists>l d'. NewLog [] d = (Inr l, d') \<and> log_ready (l, d') \<and> starts_by d' n"
proof (cases "lookup_file d = Map.empty")
  case True
  obtain l d' where nl: "NewLog [] d = (Inr l, d')" "log_ready (l, d')"
    using NewLog_live_fresh [OF assms(2) True assms(3)] by blast
  note f = NewLog_fresh [OF nl(1) True assms(3)]
  have "starts_by d' n" using starts_by_iff [OF f(1)] f(2) by simp
  then show ?thesis using nl by blast
next
  case False
  then obtain l0 mss where i: "log_inv cdc d l0 mss"
    using assms(1) by (auto simp: dir_keeps_def log_history_def log_holds_def)
  obtain l d' where nl: "NewLog [] d = (Inr l, d')" "log_ready (l, d')"
    using NewLog_live_reopen [OF i assms(2)] by blast
  then show ?thesis
    using NewLog_reopen(1) [OF i refl assms(3) nl(1)] assms(4) by (auto simp: dir_step_def starts_by_def)
qed

lemma open_partitions_live:
  assumes "distinct is" "safe_topic t" "\<And>p. dir_wf (fs p)" "\<And>p. dir_fine (fs p)"
    "\<And>i. i \<in> set is \<Longrightarrow> dir_keeps cdc c (fs (partition_path dd t i)) (hs i)"
    "\<And>i. i \<in> set is \<Longrightarrow> starts_by (fs (partition_path dd t i)) (n i)"
    "\<forall>l \<in> set acc. log_maxSegmentSize l = DefaultMaxSegmentSize"
  shows "\<exists>ls fs'. open_partitions dd t is acc fs = (Inr ls, fs')
    \<and> (\<forall>l \<in> set ls. log_maxSegmentSize l = DefaultMaxSegmentSize) \<and> (\<forall>p. dir_fine (fs' p))
    \<and> (\<forall>i \<in> set is. starts_by (fs' (partition_path dd t i)) (n i))
    \<and> (\<forall>p. p \<notin> partition_path dd t ` set is \<longrightarrow> fs' p = fs p)"
  using assms
proof (induction "is" arbitrary: acc fs)
  case Nil
  then show ?case by simp
next
  case (Cons i "is")
  let ?p = "partition_path dd t i"
  obtain l d where n: "NewLog [] (fs ?p) = (Inr l, d)" "log_ready (l, d)" "starts_by d (n i)"
    using NewLog_live [OF Cons.prems(5) [of i] Cons.prems(4,3) Cons.prems(6) [of i]] by auto
  have wf: "dir_wf d" using NewLog_keeps(2) [OF n(1) Cons.prems(5) [of i] Cons.prems(3)] by simp
  have np: "partition_path dd t j \<noteq> ?p" if "j \<in> set is" for j
    using that Cons.prems(1,2) partition_path_inject by fastforce
  have 1: "dir_wf ((fs(?p := d)) q)" "dir_fine ((fs(?p := d)) q)" for q
    using wf n(2) Cons.prems(3,4) [of q] by (auto simp: log_ready_def)
  have 2: "dir_keeps cdc c ((fs(?p := d)) (partition_path dd t j)) (hs j)" if "j \<in> set is" for j
    using np [OF that] Cons.prems(5) [of j] that by simp
  have 3: "\<forall>l' \<in> set (acc @ [l]). log_maxSegmentSize l' = DefaultMaxSegmentSize"
    using Cons.prems(7) n(2) by (auto simp: log_ready_def)
  have 4: "starts_by ((fs(?p := d)) (partition_path dd t j)) (n j)" if "j \<in> set is" for j
    using np [OF that] Cons.prems(6) [of j] that by simp
  have "\<exists>ls fs'. open_partitions dd t is (acc @ [l]) (fs(?p := d)) = (Inr ls, fs')
      \<and> (\<forall>l \<in> set ls. log_maxSegmentSize l = DefaultMaxSegmentSize) \<and> (\<forall>p. dir_fine (fs' p))
      \<and> (\<forall>i \<in> set is. starts_by (fs' (partition_path dd t i)) (n i))
      \<and> (\<forall>p. p \<notin> partition_path dd t ` set is \<longrightarrow> fs' p = (fs(?p := d)) p)"
    by (rule Cons.IH [OF _ Cons.prems(2) 1 2 4 3]) (use Cons.prems(1) in simp_all)
  then obtain ls fs' where o: "open_partitions dd t is (acc @ [l]) (fs(?p := d)) = (Inr ls, fs')"
      "\<forall>l \<in> set ls. log_maxSegmentSize l = DefaultMaxSegmentSize" "\<forall>p. dir_fine (fs' p)"
      "\<forall>i \<in> set is. starts_by (fs' (partition_path dd t i)) (n i)"
      "\<forall>p. p \<notin> partition_path dd t ` set is \<longrightarrow> fs' p = (fs(?p := d)) p" by blast
  have "?p \<notin> partition_path dd t ` set is" using np by (metis imageE)
  then have "fs' ?p = d" using o(5) by simp
  then show ?case using n(1,3) o by (intro exI [of _ ls] exI [of _ fs']) (simp add: Let_def)
qed

lemma configure_max [simp]:
  "log_maxSegmentSize (configurePartitionCompression t b l) = log_maxSegmentSize l"
  by (simp add: configurePartitionCompression_def SetCompressionSavedObserver_def log_SetCompressed_def)

lemma GetPartition_live:
  assumes k: "broker_keeps cdc b h" and f: "broker_fine starts b" and t: "safe_topic t" and p: "in_range p"
  shows "\<exists>b'. GetPartition t p b = (Inr (), b') \<and> broker_fine starts b'"
proof -
  have td: "topic_or_default t = t" using t by (rule safe_topic_default)
  show ?thesis
  proof (cases "b_logs b t")
    case None
    let ?c = "tc_Compressed (broker_TopicConfig t b)" and ?path = "partition_path (b_dataDir b)"
    obtain ls fs' where o: "open_partitions (b_dataDir b) t [0..<defaultNumPartitions] [] (b_fs b) = (Inr ls, fs')"
      "\<forall>l \<in> set ls. log_maxSegmentSize l = DefaultMaxSegmentSize" "\<forall>p. dir_fine (fs' p)"
      "\<forall>i < defaultNumPartitions. starts_by (fs' (?path t i)) (starts t (int i))"
      "\<forall>p. p \<notin> ?path t ` {0..<defaultNumPartitions} \<longrightarrow> fs' p = b_fs b p"
      using open_partitions_live [of "[0..<defaultNumPartitions]" t "b_fs b" cdc ?c "b_dataDir b" "\<lambda>i. h t (int i)"
          "\<lambda>i. starts t (int i)" "[]"]
        broker_keeps_wf [OF k] broker_keeps_disk [OF k t None] f t
      by (auto simp: broker_fine_def broker_starts_def)
    have "starts_by (fs' (?path u i)) (starts u (int i))" if "safe_topic u" "i < defaultNumPartitions" for u i
    proof (cases "u = t")
      case False
      then have "?path u i \<notin> ?path t ` {0..<defaultNumPartitions}"
        using partition_path_inject [OF that(1) t] by blast
      then show ?thesis using o(5) f that by (simp add: broker_fine_def broker_starts_def)
    qed (use o(4) that in simp)
    then have "create_partitions t b = (Inr (), snd (create_partitions t b))" "broker_fine starts (snd (create_partitions t b))"
      using f o(1-3) by (auto simp: create_partitions_def broker_fine_def broker_starts_def split: if_splits)
    then show ?thesis using None p td by (auto simp: GetPartition_def in_range_def Let_def)
  next
    case (Some ls)
    let ?l = "configurePartitionCompression t b (ls ! nat p)"
    have n: "nat p < length ls" using broker_keepsD(2) [OF k Some] p by (auto simp: in_range_def)
    have g: "GetPartition t p b = (Inr (), b\<lparr>b_logs := (b_logs b)(t \<mapsto> ls[nat p := ?l])\<rparr>)"
      using Some p td n by (auto simp: GetPartition_def in_range_def Let_def)
    have "log_maxSegmentSize l = DefaultMaxSegmentSize" if "l \<in> set (ls[nat p := ?l])" for l
    proof -
      have "l = ?l \<or> l \<in> set ls" using that set_update_subset_insert by fastforce
      then show ?thesis using f Some n unfolding broker_fine_def by (metis configure_max nth_mem)
    qed
    then show ?thesis using g f by (auto simp: broker_fine_def broker_starts_def split: if_splits)
  qed
qed

lemma partition_log_starts:
  assumes k: "broker_keeps cdc b h" and f: "broker_fine starts b" and kn: "broker_known b t p"
  shows "unat (log_start (fst (partition_log t p b))) \<le> starts t p"
proof -
  obtain l d where ld: "partition_log t p b = (l, d)" by fastforce
  then have d: "d = b_fs b (partition_path (b_dataDir b) t (nat p))"
    using kn by (auto simp: partition_log_def broker_known_def safe_topic_default Let_def)
  obtain mss where "log_inv cdc d l mss"
    using partition_log_known(1) [OF k kn] ld by (auto simp: log_history_def log_holds_def)
  moreover have p: "safe_topic t" "nat p < defaultNumPartitions" "int (nat p) = p"
    using kn by (auto simp: broker_known_def in_range_def)
  moreover have "starts_by d (starts t (int (nat p)))"
    using f p(1,2) unfolding d broker_fine_def broker_starts_def by blast
  ultimately show ?thesis using starts_by_iff ld by (metis fst_conv)
qed

lemma set_partition_fine:
  assumes f: "broker_fine starts b" and kn: "broker_known b t p" and ld: "log_ready ld" "log_history cdc ld hs"
    and st: "unat (log_start (fst ld)) \<le> n"
  shows "broker_fine (starts(t := (starts t)(p := n))) (set_partition_log t p ld b)"
proof -
  obtain ls where ls: "b_logs b t = Some ls" "topic_or_default t = t"
    using kn by (auto simp: broker_known_def safe_topic_default)
  let ?b = "set_partition_log t p ld b" and ?path = "partition_path (b_dataDir b)"
  have t: "safe_topic t" and p: "0 \<le> p" using kn by (auto simp: broker_known_def)
  have b': "b_logs ?b = (b_logs b)(t \<mapsto> ls[nat p := fst ld])" "b_fs ?b = (b_fs b)(?path t (nat p) := snd ld)"
    "b_dataDir ?b = b_dataDir b"
    using ls by (simp_all add: set_partition_log_def Let_def)
  have sub: "set (ls[nat p := fst ld]) \<subseteq> insert (fst ld) (set ls)" by (rule set_update_subset_insert)
  obtain mss where "log_inv cdc (snd ld) (fst ld) mss" using ld(2) by (auto simp: log_history_def log_holds_def)
  then have sd: "starts_by (snd ld) n" using st starts_by_iff by blast
  have "starts_by (b_fs ?b (?path u i)) ((starts(t := (starts t)(p := n))) u (int i))"
    if "safe_topic u" "i < defaultNumPartitions" for u i
    using that sd f p partition_path_inject [OF that(1) t, of "b_dataDir b" i "nat p"]
    by (auto simp: b' broker_fine_def broker_starts_def)
  then show ?thesis
    using f ld(1) ls(1) sub by (auto simp: broker_fine_def broker_starts_def log_ready_def b' split: if_splits)
qed

interpretation bl: live_provider broker_provider cdc "broker_keeps cdc" broker_known safe_topic
    "broker_fine starts" in_range
  for cdc :: codec and starts
proof unfold_locales
  fix st :: "'a broker" and h t p
  assume "broker_keeps cdc st h" "broker_fine starts st" "safe_topic t" "in_range p"
  then show "\<exists>st'. prov_get broker_provider t p st = (Inr (), st') \<and> broker_fine starts st'"
    using GetPartition_live by (simp add: broker_provider_def)
next
  fix st :: "'a broker" and h t p
  assume k: "broker_keeps cdc st h" "broker_fine starts st" "broker_known st t p"
  obtain ls where ls: "b_logs st t = Some ls" using k(3) by (auto simp: broker_known_def)
  then have "ls ! nat p \<in> set ls" using broker_keepsD(2) [OF k(1) ls] k(3) by (auto simp: broker_known_def)
  then show "log_ready (prov_log broker_provider t p st)"
    using ls k(2,3) by (auto simp: broker_provider_def partition_log_def log_ready_def broker_fine_def
        broker_known_def safe_topic_default Let_def)
next
  fix st :: "'a broker" and h t p hs and ld :: "log \<times> directory"
  assume k: "broker_keeps cdc st h" and f: "broker_fine starts st" and kn: "broker_known st t p"
    and ld: "log_ready ld" "log_history cdc ld hs"
    and st: "log_start (fst ld) = log_start (fst (prov_log broker_provider t p st))"
  then have "unat (log_start (fst ld)) \<le> starts t p"
    using partition_log_starts [OF k f kn] by (simp add: broker_provider_def)
  from set_partition_fine [OF f kn ld this] show "broker_fine starts (prov_set broker_provider t p ld st)"
    by (simp add: broker_provider_def fun_upd_idem)
qed

end
