(* ===== verification/Service.thy ===== *)
theory Service
  imports Restart ApiLaws Liveness
begin

text \<open>
  The broker as a service: everything that clients, Raft, the background workers and an operator
  who restarts the process do to it, as one step relation over the operations of
  \<open>src/internal/broker/broker.go\<close>, and the specification of that service. The specification knows
  nothing of segments, files or frames: per partition it has the history of all records ever
  appended and a bound on the first one that is still stored, and per consumer group the offset
  committed last.
\<close>

section \<open>Events\<close>

text \<open>
  How a call of \<open>raft.Apply\<close> goes: whether this node leads, the commands of other callers that are
  committed before ours, the clock, and an error that leaves open whether ours was applied.
\<close>

record scenario =
  sc_leader :: bool
  sc_before :: "(i64 \<times> command) list"
  sc_now :: i64
  sc_error :: "error option"
  sc_applied :: bool

definition call_of :: "scenario \<Rightarrow> raft_call" where
  "call_of sc = \<lparr>rc_leader = sc_leader sc, rc_before = map (\<lambda>(now, c). (now, encode c)) (sc_before sc),
     rc_now = sc_now sc, rc_error = sc_error sc, rc_applied = sc_applied sc\<rparr>"

datatype action =
    DoProduce scenario ProduceRequest
  | DoProduceBatch scenario ProduceBatchRequest
  | DoConsume ConsumeRequest
  | DoConsumeBatch ConsumeBatchRequest
  | DoCommit OffsetRequest
  | DoFetch OffsetRequest
  | DoReplicate i64 command
  | DoConfigure string TopicConfig
  | TickRetention bool int string
  | TickCompaction bool "(string \<times> bool) list"
  | TickLag "string list"
  | DoRestart "error option" "error option" "string list"
  | DoCrash

datatype outcome =
    Produced "u64 res"
  | ProducedBatch "i64 list res"
  | Consumed "(u64 \<times> bytes \<times> bytes) res"
  | ConsumedBatch "ConsumedRecord list res option"
  | Committed "unit res"
  | Fetched "u64 res"
  | Configured "unit res"
  | Silent

text \<open>
  One event at a time. A restart, after a \<open>Close\<close> or after the process was killed, is a step only if
  the offset store opens again: otherwise the process ends.
\<close>

inductive service_step :: "codec \<Rightarrow> 'db bolt \<Rightarrow> 'db broker \<Rightarrow> action \<times> outcome \<Rightarrow> 'db broker \<Rightarrow> bool"
  for cdc :: codec and ops :: "'db bolt" where
  produce: "Produce cdc (call_of sc) req b = (r, b') \<Longrightarrow> service_step cdc ops b (DoProduce sc req, Produced r) b'"
| produce_batch: "ProduceBatch cdc (call_of sc) breq b = (rs, b') \<Longrightarrow>
    service_step cdc ops b (DoProduceBatch sc breq, ProducedBatch rs) b'"
| consume: "Consume cdc creq b = (cr, b') \<Longrightarrow> service_step cdc ops b (DoConsume creq, Consumed cr) b'"
| consume_batch: "ConsumeBatch cdc cbreq b = (crs, b') \<Longrightarrow>
    service_step cdc ops b (DoConsumeBatch cbreq, ConsumedBatch crs) b'"
| commit: "CommitOffset ops oreq b = (u, b') \<Longrightarrow> service_step cdc ops b (DoCommit oreq, Committed u) b'"
| fetch: "service_step cdc ops b (DoFetch oreq, Fetched (FetchOffset oreq b)) b"
| replicate_entry: "broker_step cdc now c b = (resp, b') \<Longrightarrow> service_step cdc ops b (DoReplicate now c, Silent) b'"
| configure: "SetTopicConfig t config b = (u, b') \<Longrightarrow> service_step cdc ops b (DoConfigure t config, Configured u) b'"
| retention: "service_step cdc ops b (TickRetention leader time t, Silent) (enforceTopicRetention leader time t b)"
| compaction: "service_step cdc ops b (TickCompaction leader order, Silent) (compactConfiguredTopics cdc leader order b)"
| lag: "service_step cdc ops b (TickLag keys, Silent) (updateConsumerGroupLag keys b)"
| restarted: "restart ops httpErr raftErr topics b = Inr b' \<Longrightarrow>
    service_step cdc ops b (DoRestart httpErr raftErr topics, Silent) b'"
| crashed: "crash_restart ops b = Inr b' \<Longrightarrow> service_step cdc ops b (DoCrash, Silent) b'"

inductive_cases produce_stepE: "service_step cdc ops b (DoProduce sc req, out) b'"
inductive_cases consume_stepE: "service_step cdc ops b (DoConsume req, out) b'"

section \<open>The specification\<close>

record view =
  v_hist :: histories
  v_starts :: "string \<Rightarrow> int \<Rightarrow> nat"
  v_offs :: "string \<times> string \<times> i32 \<Rightarrow> u64"

text \<open>The partitions a producer's record may go to.\<close>

definition chosen :: "bytes \<Rightarrow> i32 option \<Rightarrow> int \<Rightarrow> bool" where
  "chosen key part p \<longleftrightarrow> in_range p \<and>
     (case part of Some q \<Rightarrow> p = sint q | None \<Rightarrow> key \<noteq> [] \<longrightarrow> p = uint (fnv32a key mod 3))"

definition adds :: "command \<Rightarrow> histories \<Rightarrow> histories" where
  "adds c h = snd (spec_apply c h)"

text \<open>The histories after our command went through Raft.\<close>

definition raft_hist :: "scenario \<Rightarrow> command \<Rightarrow> histories \<Rightarrow> histories" where
  "raft_hist sc c h =
     (if sc_error sc = None \<or> sc_applied sc then adds c (after_entries (sc_before sc) h)
      else after_entries (sc_before sc) h)"

text \<open>The records with their offsets, from offset \<open>off\<close> on, at most \<open>n\<close> of them.\<close>

definition slice :: "history \<Rightarrow> nat \<Rightarrow> nat \<Rightarrow> (nat \<times> bytes \<times> bytes) list" where
  "slice hs off n = take n (drop off (enumerate 0 hs))"

definition record_of :: "ConsumedRecord \<Rightarrow> nat \<times> bytes \<times> bytes" where
  "record_of r = (unat (cor_Offset r), cor_Key r, cor_Value r)"

definition batch_valid :: "ProduceBatchRequest \<Rightarrow> bool" where
  "batch_valid req \<longleftrightarrow> in_range (sint (pbr_Partition req)) \<and> pbr_Records req \<noteq> [] \<and> None \<notin> set (pbr_Records req)"

definition slice_valid :: "ConsumeBatchRequest \<Rightarrow> bool" where
  "slice_valid req \<longleftrightarrow> in_range (sint (cbr_Partition req)) \<and> 0 \<le> sint (cbr_Offset req) \<and> 0 < sint (cbr_MaxCount req)"

definition part_of :: "ConsumeRequest \<Rightarrow> int" where
  "part_of req = sint (case cr_Partition req of None \<Rightarrow> 0 | Some p \<Rightarrow> p)"

definition offset_valid :: "OffsetRequest \<Rightarrow> bool" where
  "offset_valid req \<longleftrightarrow> or_GroupId req \<noteq> '''' \<and> in_range (sint (or_Partition req))"

definition offset_slot :: "OffsetRequest \<Rightarrow> string \<times> string \<times> i32" where
  "offset_slot req = (or_GroupId req, topic_or_default (or_Topic req), or_Partition req)"

inductive allowed :: "view \<Rightarrow> action \<times> outcome \<Rightarrow> view \<Rightarrow> bool" where
  produce_refused: "\<not> sc_leader sc \<or> (\<exists>q. pr_Partition req = Some q \<and> \<not> in_range (sint q)) \<Longrightarrow>
    allowed v (DoProduce sc req, Produced (Inl e)) v"
| produced: "sc_leader sc \<Longrightarrow> chosen (pr_Key req) (pr_Partition req) p \<Longrightarrow> sc_error sc = None \<Longrightarrow>
    unat off = length (after_entries (sc_before sc) (v_hist v) (pr_Topic req) p) \<Longrightarrow>
    v' = v\<lparr>v_hist := raft_hist sc (Single (pr_Topic req) p (pr_Key req) (pr_Value req)) (v_hist v)\<rparr> \<Longrightarrow>
    allowed v (DoProduce sc req, Produced (Inr off)) v'"
| produce_lost: "sc_leader sc \<Longrightarrow> chosen (pr_Key req) (pr_Partition req) p \<Longrightarrow> sc_error sc = Some e \<Longrightarrow>
    v' = v\<lparr>v_hist := raft_hist sc (Single (pr_Topic req) p (pr_Key req) (pr_Value req)) (v_hist v)\<rparr> \<Longrightarrow>
    allowed v (DoProduce sc req, Produced (Inl e)) v'"
| batch_refused: "\<not> sc_leader sc \<or> \<not> batch_valid breq \<Longrightarrow>
    allowed v (DoProduceBatch sc breq, ProducedBatch (Inl e)) v"
| batch_produced: "sc_leader sc \<Longrightarrow> batch_valid breq \<Longrightarrow> sc_error sc = None \<Longrightarrow>
    pbr_Records breq = map Some rs \<Longrightarrow>
    n = length (after_entries (sc_before sc) (v_hist v) (pbr_Topic breq) (sint (pbr_Partition breq))) \<Longrightarrow>
    map unat offs = [n ..< n + length rs] \<Longrightarrow>
    v' = v\<lparr>v_hist := raft_hist sc (Batch (pbr_Topic breq) (sint (pbr_Partition breq)) rs) (v_hist v)\<rparr> \<Longrightarrow>
    allowed v (DoProduceBatch sc breq, ProducedBatch (Inr offs)) v'"
| batch_lost: "sc_leader sc \<Longrightarrow> batch_valid breq \<Longrightarrow> sc_error sc = Some e \<Longrightarrow>
    pbr_Records breq = map Some rs \<Longrightarrow>
    v' = v\<lparr>v_hist := raft_hist sc (Batch (pbr_Topic breq) (sint (pbr_Partition breq)) rs) (v_hist v)\<rparr> \<Longrightarrow>
    allowed v (DoProduceBatch sc breq, ProducedBatch (Inl e)) v'"
| consumed_one: "in_range (part_of creq) \<Longrightarrow> unat (cr_Offset creq) < length (v_hist v (cr_Topic creq) (part_of creq)) \<Longrightarrow>
    v_hist v (cr_Topic creq) (part_of creq) ! unat (cr_Offset creq) = (k, x) \<Longrightarrow>
    allowed v (DoConsume creq, Consumed (Inr (cr_Offset creq, k, x))) v"
| consume_failed: "in_range (part_of creq) \<longrightarrow>
      unat (cr_Offset creq) < v_starts v (cr_Topic creq) (part_of creq)
      \<or> length (v_hist v (cr_Topic creq) (part_of creq)) \<le> unat (cr_Offset creq) \<Longrightarrow>
    allowed v (DoConsume creq, Consumed (Inl e)) v"
| consumed_slice: "slice_valid cbreq \<Longrightarrow>
    map record_of crs = slice (v_hist v (cbr_Topic cbreq) (sint (cbr_Partition cbreq)))
      (unat (cbr_Offset cbreq)) (nat (min 1000 (sint (cbr_MaxCount cbreq)))) \<Longrightarrow>
    allowed v (DoConsumeBatch cbreq, ConsumedBatch (Some (Inr crs))) v"
| slice_failed: "slice_valid cbreq \<longrightarrow>
      unat (cbr_Offset cbreq) < v_starts v (cbr_Topic cbreq) (sint (cbr_Partition cbreq)) \<Longrightarrow>
    allowed v (DoConsumeBatch cbreq, ConsumedBatch (Some (Inl e))) v"
| committed: "offset_valid oreq \<Longrightarrow> v' = v\<lparr>v_offs := (v_offs v)(offset_slot oreq := or_Offset oreq)\<rparr> \<Longrightarrow>
    allowed v (DoCommit oreq, Committed (Inr ())) v'"
| commit_failed: "allowed v (DoCommit oreq, Committed (Inl e)) v"
| fetched: "offset_valid oreq \<Longrightarrow> allowed v (DoFetch oreq, Fetched (Inr (v_offs v (offset_slot oreq)))) v"
| fetch_refused: "\<not> offset_valid oreq \<Longrightarrow> allowed v (DoFetch oreq, Fetched (Inl e)) v"
| entry_applied: "v' = v\<lparr>v_hist := adds c (v_hist v)\<rparr> \<Longrightarrow> allowed v (DoReplicate now c, Silent) v'"
| configured: "0 \<le> sint (tc_RetentionBytes config) \<Longrightarrow> 0 \<le> sint (tc_RetentionMs config) \<Longrightarrow>
    allowed v (DoConfigure t config, Configured (Inr ())) v"
| configure_refused: "sint (tc_RetentionBytes config) < 0 \<or> sint (tc_RetentionMs config) < 0 \<Longrightarrow>
    allowed v (DoConfigure t config, Configured (Inl e)) v"
| retained: "(\<And>p. v_starts v t p \<le> s p \<and> s p \<le> length (v_hist v t p)) \<Longrightarrow> leader \<or> s = v_starts v t \<Longrightarrow>
    v' = v\<lparr>v_starts := (v_starts v)(t := s)\<rparr> \<Longrightarrow>
    allowed v (TickRetention leader time t, Silent) v'"
| compaction_idle: "allowed v (TickCompaction leader order, Silent) v"
| lag_measured: "allowed v (TickLag keys, Silent) v"
| came_back: "allowed v (DoRestart httpErr raftErr topics, Silent) v"
| recovered: "allowed v (DoCrash, Silent) v"

section \<open>What the environment may do\<close>

definition cmd_fit :: "command \<Rightarrow> bool" where
  "cmd_fit c \<longleftrightarrow> cmd_wf c \<and> safe_topic (cmd_topic c) \<and> in_range (cmd_part c) \<and> cmd_small c"

definition topic_fit :: "string \<Rightarrow> bool" where
  "topic_fit t \<longleftrightarrow> safe_topic t \<and> length t < 2 ^ 16"

text \<open>
  Topics are plain names; commands and records have bounded size; topics are neither compacted nor
  compressed.
\<close>

fun admitted :: "action \<Rightarrow> bool" where
  "admitted (DoProduce sc req) \<longleftrightarrow> (\<forall>e \<in> set (sc_before sc). cmd_fit (snd e))
     \<and> topic_fit (pr_Topic req) \<and> kv_small (pr_Key req) (pr_Value req)"
| "admitted (DoProduceBatch sc breq) \<longleftrightarrow> (\<forall>e \<in> set (sc_before sc). cmd_fit (snd e))
     \<and> topic_fit (pbr_Topic breq) \<and> length (pbr_Records breq) \<le> 2 ^ 16
     \<and> (\<forall>r. Some r \<in> set (pbr_Records breq) \<longrightarrow> kv_small (br_Key r) (br_Value r))"
| "admitted (DoConsume creq) \<longleftrightarrow> safe_topic (cr_Topic creq)"
| "admitted (DoConsumeBatch cbreq) \<longleftrightarrow> safe_topic (cbr_Topic cbreq)"
| "admitted (DoCommit oreq) \<longleftrightarrow> safe_topic (topic_or_default (or_Topic oreq))"
| "admitted (DoFetch oreq) \<longleftrightarrow> plain (or_GroupId oreq) \<and> plain (or_Topic oreq)"
| "admitted (DoReplicate now c) \<longleftrightarrow> cmd_fit c"
| "admitted (DoConfigure t config) \<longleftrightarrow> safe_topic t \<and> \<not> tc_Compacted config \<and> \<not> tc_Compressed config"
| "admitted _ \<longleftrightarrow> True"

definition entries_weight :: "(i64 \<times> command) list \<Rightarrow> nat" where
  "entries_weight es = sum_list (map (\<lambda>e. length (cmd_kvs (snd e))) es)"

text \<open>How many records an action may append to one partition.\<close>

fun weight :: "action \<Rightarrow> nat" where
  "weight (DoProduce sc req) = entries_weight (sc_before sc) + 1"
| "weight (DoProduceBatch sc breq) = entries_weight (sc_before sc) + length (pbr_Records breq)"
| "weight (DoReplicate now c) = length (cmd_kvs c)"
| "weight _ = 0"

section \<open>The relation between broker and specification\<close>

definition groups_safe :: "'db ConsumerGroupStore \<Rightarrow> bool" where
  "groups_safe s \<longleftrightarrow> (\<forall>k g t p. split_key k = Some (g, t, p) \<and> cg_offsets s k \<noteq> None \<longrightarrow> safe_topic t)"

definition groups_show :: "'db bolt \<Rightarrow> 'db ConsumerGroupStore \<Rightarrow> view \<Rightarrow> bool" where
  "groups_show ops s v \<longleftrightarrow> cg_inv ops s \<and> groups_safe s
     \<and> (\<forall>g t p. plain g \<and> plain t \<longrightarrow> cg_FetchOffset g t p s = v_offs v (g, t, p))"

definition plain_configs :: "'db broker \<Rightarrow> bool" where
  "plain_configs b \<longleftrightarrow> (\<forall>t c. b_topicConfigs b t = Some c \<longrightarrow> \<not> tc_Compacted c \<and> \<not> tc_Compressed c)"

definition logs_show :: "codec \<Rightarrow> 'db broker \<Rightarrow> view \<Rightarrow> bool" where
  "logs_show cdc b v \<longleftrightarrow> broker_keeps cdc b (v_hist v) \<and> broker_fine (v_starts v) b
     \<and> (\<forall>t p. v_starts v t p \<le> length (v_hist v t p))"

definition serves :: "codec \<Rightarrow> 'db bolt \<Rightarrow> 'db broker \<Rightarrow> view \<Rightarrow> bool" where
  "serves cdc ops b v \<longleftrightarrow> logs_show cdc b v \<and> groups_show ops (b_consumerGroups b) v \<and> plain_configs b"

text \<open>Room for \<open>n\<close> more records in every partition: offsets stay in the range of \<open>int64\<close>.\<close>

definition room_for :: "nat \<Rightarrow> view \<Rightarrow> bool" where
  "room_for n v \<longleftrightarrow> (\<forall>t p. length (v_hist v t p) + n < 2 ^ 63)"

end
