(* ===== verification/ServiceLogs.thy ===== *)
theory ServiceLogs
  imports Service
begin

text \<open>
  The operations that read and write partition logs keep the relation between a broker and the
  specification of the service.
\<close>

section \<open>Frames\<close>

lemma logs_show_cong:
  assumes "b_logs b' = b_logs b" "b_fs b' = b_fs b" "b_dataDir b' = b_dataDir b"
    "\<And>t. tc_Compressed (broker_TopicConfig t b') = tc_Compressed (broker_TopicConfig t b)"
  shows "logs_show cdc b' v \<longleftrightarrow> logs_show cdc b v"
  using assms
  by (simp add: logs_show_def broker_keeps_def partition_keeps_def broker_fine_def broker_starts_def)

lemma serves_frame:
  assumes "b_logs b' = b_logs b" "b_fs b' = b_fs b" "b_dataDir b' = b_dataDir b" "same_admin b b'"
  shows "serves cdc ops b' v \<longleftrightarrow> serves cdc ops b v"
proof -
  have "broker_TopicConfig t b' = broker_TopicConfig t b" for t
    using assms(4) by (simp add: broker_TopicConfig_def same_admin_def)
  then show ?thesis
    using assms(4) logs_show_cong [OF assms(1-3)] by (simp add: serves_def same_admin_def plain_configs_def)
qed

lemma serves_metrics: "serves cdc ops (b\<lparr>b_metrics := m\<rparr>) v \<longleftrightarrow> serves cdc ops b v"
  by (rule serves_frame) (simp_all add: same_admin_def)

lemma serves_counters [simp]:
  "serves cdc ops (count_produced n b) v \<longleftrightarrow> serves cdc ops b v"
  "serves cdc ops (count_consumed n b) v \<longleftrightarrow> serves cdc ops b v"
  "serves cdc ops (count_produce_error b) v \<longleftrightarrow> serves cdc ops b v"
  "serves cdc ops (count_consume_error b) v \<longleftrightarrow> serves cdc ops b v"
  "serves cdc ops (set_lag k x b) v \<longleftrightarrow> serves cdc ops b v"
  by (simp_all add: count_produced_def count_consumed_def count_produce_error_def
      count_consume_error_def set_lag_def serves_metrics)

lemma serves_hist:
  assumes s: "serves cdc ops b v" and a: "same_admin b b'"
    and k: "broker_keeps cdc b' h" "broker_fine (v_starts v) b'" and g: "\<And>t p. length (v_hist v t p) \<le> length (h t p)"
  shows "serves cdc ops b' (v\<lparr>v_hist := h\<rparr>)"
proof -
  have "v_starts v t p \<le> length (h t p)" for t p
    using s g [of t p] unfolding serves_def logs_show_def by (meson order_trans)
  then show ?thesis
    using s a k by (simp add: serves_def logs_show_def groups_show_def same_admin_def plain_configs_def)
qed

section \<open>Opening a partition\<close>

lemma get_serves:
  assumes s: "serves cdc ops b v" and t: "safe_topic t" and g: "GetPartition t p b = (r, b')"
  shows "serves cdc ops b' v" and "in_range p \<Longrightarrow> r = Inr () \<and> broker_known b' t p"
    and "\<not> in_range p \<Longrightarrow> \<exists>e. r = Inl e"
proof -
  have k: "broker_keeps cdc b (v_hist v)" "broker_fine (v_starts v) b"
    using s by (auto simp: serves_def logs_show_def)
  have "serves cdc ops b' v \<and> r = Inr () \<and> broker_known b' t p" if p: "in_range p"
  proof -
    have r: "r = Inr ()" "broker_fine (v_starts v) b'" using GetPartition_live [OF k t p] g by auto
    note gk = GetPartition_keeps [OF k(1) t g [unfolded r(1)]]
    show ?thesis
      using serves_hist [OF s GetPartition_admin [OF g] gk(1) r(2)] gk(2) r(1) by simp
  qed
  moreover have "b' = b \<and> (\<exists>e. r = Inl e)" if "\<not> in_range p"
    using g that by (auto simp: GetPartition_def in_range_def Let_def split: if_splits)
  ultimately show "serves cdc ops b' v" "in_range p \<Longrightarrow> r = Inr () \<and> broker_known b' t p"
    "\<not> in_range p \<Longrightarrow> \<exists>e. r = Inl e"
    using s by blast+
qed

section \<open>Commands\<close>

lemma room_for_lt: "room_for n v \<Longrightarrow> length (v_hist v t p) + n < 2 ^ 64"
proof -
  assume "room_for n v"
  then have "length (v_hist v t p) + n < 2 ^ 63" by (simp add: room_for_def)
  then show ?thesis by simp
qed

lemma adds_length: "length (adds c h t p) \<le> length (h t p) + length (cmd_kvs c)"
  "length (h t p) \<le> length (adds c h t p)"
  by (simp_all add: adds_def spec_apply_def Let_def)

lemma added_length: "length (added (map snd es) t p) \<le> entries_weight es"
  by (induction es) (auto simp: added_def entries_weight_def)

lemma after_entries_added: "after_entries es h t p = h t p @ added (map snd es) t p"
  by (simp add: after_entries_def spec_steps_added)

lemma after_entries_length: "length (after_entries es h t p) \<le> length (h t p) + entries_weight es"
  using added_length by (simp add: after_entries_added)

lemma after_entries_Cons: "after_entries ((now, c) # es) h = after_entries es (adds c h)"
  by (simp add: after_entries_def adds_def split: prod.splits)

lemma step_serves:
  assumes s: "serves cdc ops b v" and cdc: "codec_live cdc" and c: "cmd_fit c"
    and room: "length (v_hist v (cmd_topic c) (cmd_part c)) + length (cmd_kvs c) < 2 ^ 64"
    and a: "broker_step cdc now c b = (r, b')"
  shows "r = fst (spec_apply c (v_hist v))" and "serves cdc ops b' (v\<lparr>v_hist := adds c (v_hist v)\<rparr>)"
proof -
  have k: "broker_keeps cdc b (v_hist v)" "broker_fine (v_starts v) b"
    using s by (auto simp: serves_def logs_show_def)
  have w: "cmd_wf c" "safe_topic (cmd_topic c)" "in_range (cmd_part c)" "cmd_small c"
    using c by (simp_all add: cmd_fit_def)
  have l: "r = fst (spec_apply c (v_hist v))" "broker_keeps cdc b' (adds c (v_hist v))" "broker_fine (v_starts v) b'"
    using bl.Apply_live [OF k cdc w room, of now] a by (auto simp: broker_step_def adds_def)
  show "r = fst (spec_apply c (v_hist v))" by (rule l(1))
  have "same_admin b b'" using adm.entry_frame [of b cdc now "encode c"] a by (simp add: broker_step_def)
  from serves_hist [OF s this l(2,3) adds_length(2)]
  show "serves cdc ops b' (v\<lparr>v_hist := adds c (v_hist v)\<rparr>)" .
qed

lemma steps_serve:
  assumes "serves cdc ops b v" "codec_live cdc" "\<forall>e \<in> set es. cmd_fit (snd e)"
    "\<And>t p. length (v_hist v t p) + entries_weight es < 2 ^ 64"
  shows "serves cdc ops (snd (run_steps (broker_step cdc) es b)) (v\<lparr>v_hist := after_entries es (v_hist v)\<rparr>)"
  using assms
proof (induction es arbitrary: b v)
  case Nil
  then show ?case by (simp add: after_entries_def)
next
  case (Cons e es)
  obtain now c where e: "e = (now, c)" by fastforce
  obtain r b1 where st: "broker_step cdc now c b = (r, b1)" by fastforce
  let ?v = "v\<lparr>v_hist := adds c (v_hist v)\<rparr>"
  have w: "entries_weight (e # es) = length (cmd_kvs c) + entries_weight es"
    by (simp add: e entries_weight_def)
  have room: "length (v_hist v (cmd_topic c) (cmd_part c)) + length (cmd_kvs c) < 2 ^ 64"
    using Cons.prems(4) [of "cmd_topic c" "cmd_part c"] w by simp
  have s1: "serves cdc ops b1 ?v"
    using step_serves(2) [OF Cons.prems(1,2) _ room st] Cons.prems(3) e by simp
  have "length (v_hist ?v t p) + entries_weight es < 2 ^ 64" for t p
    using adds_length(1) [of c "v_hist v" t p] Cons.prems(4) [of t p] w by simp
  from Cons.IH [OF s1 Cons.prems(2) _ this] Cons.prems(3)
  have "serves cdc ops (snd (run_steps (broker_step cdc) es b1)) (?v\<lparr>v_hist := after_entries es (v_hist ?v)\<rparr>)"
    by simp
  then show ?case using e st by (simp add: after_entries_Cons split_beta)
qed

text \<open>A command that goes through Raft, with the commands committed before it.\<close>

lemma raft_serves:
  assumes s: "serves cdc ops b v" and cdc: "codec_live cdc"
    and es: "\<forall>e \<in> set (sc_before sc). cmd_fit (snd e)" and c: "cmd_fit c"
    and room: "\<And>t p. length (v_hist v t p) + entries_weight (sc_before sc) + length (cmd_kvs c) < 2 ^ 64"
    and a: "raft_Apply cdc (call_of sc) (encode c) b = (r, b')"
  shows "r = (case sc_error sc of Some e \<Rightarrow> Inl e
      | None \<Rightarrow> Inr (cmd_response c (length (after_entries (sc_before sc) (v_hist v) (cmd_topic c) (cmd_part c)))))"
    and "serves cdc ops b' (v\<lparr>v_hist := raft_hist sc c (v_hist v)\<rparr>)"
proof -
  let ?h = "after_entries (sc_before sc) (v_hist v)"
  define b1 where "b1 = snd (run_steps (broker_step cdc) (sc_before sc) b)"
  have s1: "serves cdc ops b1 (v\<lparr>v_hist := ?h\<rparr>)"
    unfolding b1_def by (rule steps_serve [OF s cdc es]) (use room add_lessD1 in blast)
  have r1: "length (?h (cmd_topic c) (cmd_part c)) + length (cmd_kvs c) < 2 ^ 64"
    using after_entries_length [of "sc_before sc" "v_hist v" "cmd_topic c" "cmd_part c"]
      room [of "cmd_topic c" "cmd_part c"] by simp
  obtain resp b2 where st: "broker_step cdc (sc_now sc) c b1 = (resp, b2)" by fastforce
  have "resp = cmd_response c (length (?h (cmd_topic c) (cmd_part c)))"
    "serves cdc ops b2 (v\<lparr>v_hist := adds c ?h\<rparr>)"
    using step_serves [OF s1 cdc c _ st] r1 by (simp_all add: spec_apply_def Let_def)
  then show "r = (case sc_error sc of Some e \<Rightarrow> Inl e
      | None \<Rightarrow> Inr (cmd_response c (length (?h (cmd_topic c) (cmd_part c)))))"
    "serves cdc ops b' (v\<lparr>v_hist := raft_hist sc c (v_hist v)\<rparr>)"
    using a s1 st
    by (auto simp: raft_Apply_def call_of_def apply_entries_steps b1_def broker_step_def raft_hist_def Let_def
        split: option.splits if_splits)
qed

section \<open>Producing\<close>

lemma select_serves:
  assumes "serves cdc ops b v" "selectPartition t key part b = (r, b')"
  shows "serves cdc ops b' v" and "r = Inr p \<Longrightarrow> chosen key part p"
    and "r = Inl e \<Longrightarrow> \<exists>q. part = Some q \<and> \<not> in_range (sint q)"
proof -
  have "b_logs b' = b_logs b" "b_fs b' = b_fs b" "b_dataDir b' = b_dataDir b"
    using assms(2) by (auto simp: selectPartition_def Let_def split: option.splits if_splits)
  then show "serves cdc ops b' v"
    using serves_frame [OF _ _ _ selectPartition_admin [OF assms(2)]] assms(1) by blast
  show "chosen key part p" if "r = Inr p"
    using selectPartition_range [of t key part b p b'] assms(2) that
    by (auto simp: chosen_def selectPartition_def defaultNumPartitions_def split: option.splits if_splits)
  show "\<exists>q. part = Some q \<and> \<not> in_range (sint q)" if "r = Inl e"
    using assms(2) that by (auto simp: selectPartition_def in_range_def Let_def split: option.splits if_splits)
qed

lemma fit_topic: "topic_fit t \<Longrightarrow> safe_topic t" "topic_fit t \<Longrightarrow> topic_or_default t = t" "topic_fit t \<Longrightarrow> effective_topic t = t"
  by (simp_all add: topic_fit_def safe_topic_default effective_topic_def safe_topic_def)

lemma fit_single: "topic_fit t \<Longrightarrow> in_range p \<Longrightarrow> kv_small k x \<Longrightarrow> cmd_fit (Single t p k x)"
  using fit_topic(3) [of t]
  by (auto simp: cmd_fit_def head_ok_def topic_fit_def in_range_def defaultNumPartitions_def kv_small_def cmd_small_def)

lemma fit_batch:
  assumes "topic_fit t" "in_range p" "length rs \<le> 2 ^ 16" "\<forall>r \<in> set rs. kv_small (br_Key r) (br_Value r)"
  shows "cmd_fit (Batch t p rs)"
proof -
  have "length (br_Key r) < 2 ^ 32 \<and> length (br_Value r) < 2 ^ 32" if "r \<in> set rs" for r
    using assms(4) that by (fastforce simp: kv_small_def)
  then show ?thesis
    using assms fit_topic(3) [of t]
    by (auto simp: cmd_fit_def head_ok_def topic_fit_def in_range_def defaultNumPartitions_def records_ok_def cmd_small_def)
qed

lemma Produce_serves:
  assumes s: "serves cdc ops b v" and cdc: "codec_live cdc" and ad: "admitted (DoProduce sc req)"
    and room: "room_for (weight (DoProduce sc req)) v" and p: "Produce cdc (call_of sc) req b = (r, b')"
  shows "\<exists>v'. allowed v (DoProduce sc req, Produced r) v' \<and> serves cdc ops b' v'"
proof -
  let ?t = "pr_Topic req" and ?k = "pr_Key req" and ?x = "pr_Value req"
  have t: "topic_fit ?t" and kv: "kv_small ?k ?x" using ad by simp_all
  have rm: "length (v_hist v t p) + entries_weight (sc_before sc) + 1 < 2 ^ 64" for t p
    using room_for_lt [OF room] by (simp add: add.assoc)
  obtain b1 where pub: "Publish cdc (call_of sc) ?t ?k ?x (pr_Partition req) b = (r, b1)"
    and sb: "serves cdc ops b' w \<longleftrightarrow> serves cdc ops b1 w" for w
    using p by (auto simp: Produce_def split: prod.splits sum.splits)
  have "\<exists>v'. allowed v (DoProduce sc req, Produced r) v' \<and> serves cdc ops b1 v'"
  proof (cases "sc_leader sc")
    case False
    then have "b1 = b \<and> (\<exists>e. r = Inl e)" using pub by (auto simp: Publish_def call_of_def Let_def)
    then show ?thesis using s produce_refused False by blast
  next
    case lead: True
    obtain sp b2 where sel: "selectPartition ?t ?k (pr_Partition req) b = (sp, b2)" by fastforce
    note ss = select_serves [OF s sel]
    show ?thesis
    proof (cases sp)
      case (Inl e)
      then have "b1 = b2 \<and> r = Inl e" using pub lead sel fit_topic(2) [OF t] by (simp add: Publish_def call_of_def Let_def)
      then show ?thesis using ss(1,3) Inl produce_refused by blast
    next
      case (Inr q)
      obtain g b3 where get: "GetPartition ?t q b2 = (g, b3)" by fastforce
      have ch: "chosen ?k (pr_Partition req) q" by (rule ss(2) [OF Inr])
      then have q: "in_range q" by (simp add: chosen_def)
      note gs = get_serves [OF ss(1) fit_topic(1) [OF t] get]
      let ?c = "Single ?t q ?k ?x"
      obtain rr b4 where ra: "raft_Apply cdc (call_of sc) (encode ?c) b3 = (rr, b4)" by fastforce
      have es: "\<forall>e \<in> set (sc_before sc). cmd_fit (snd e)" using ad by simp
      note rs = raft_serves [OF gs(1) cdc es fit_single [OF t q kv] _ ra]
      have "rr = (case sc_error sc of Some e \<Rightarrow> Inl e
          | None \<Rightarrow> Inr (RespOffset (word_of_nat (length (after_entries (sc_before sc) (v_hist v) ?t q)))))"
        and s4: "serves cdc ops b4 (v\<lparr>v_hist := raft_hist sc ?c (v_hist v)\<rparr>)"
        using rs rm fit_topic(3) [OF t] by (cases "sc_error sc"; simp)+
      moreover have "b1 = b4" "r = (case rr of Inl e \<Rightarrow> Inl e | Inr (RespOffset o') \<Rightarrow> Inr o'
          | Inr (RespError e) \<Rightarrow> Inl e | Inr _ \<Rightarrow> Inl (Msg ''unexpected FSM response type''))"
        using pub lead sel Inr get gs(2) [OF q] ra fit_topic(2) [OF t]
        by (auto simp: Publish_def call_of_def Let_def split: sum.splits response.splits)
      moreover have "length (after_entries (sc_before sc) (v_hist v) ?t q) < 2 ^ 64"
        using after_entries_length [of "sc_before sc" "v_hist v" ?t q] rm [of ?t q] by simp
      ultimately show ?thesis
        using produced [OF lead ch _ _ refl, of "word_of_nat (length (after_entries (sc_before sc) (v_hist v) ?t q))"]
          produce_lost [OF lead ch _ refl] by (cases "sc_error sc") (auto simp: unat_of_nat)
    qed
  qed
  then show ?thesis using sb by blast
qed

lemma int64_offsets_small: "\<forall>x \<in> set vs. unat x < 2 ^ 63 \<Longrightarrow> int64_offsets vs = Inr vs"
proof (induction vs)
  case (Cons x vs)
  have "unat (drop_bit 1 (not 0 :: u64)) = 2 ^ 63 - 1" by (simp add: mask_eq_exp_minus_1)
  then have "\<not> drop_bit 1 (not 0) < x" using Cons.prems by (simp add: word_less_nat_alt)
  then show ?case using Cons by simp
qed simp

lemma command_records_map: "command_records i (map Some rs) = Inr rs"
  by (induction rs arbitrary: i) simp_all

lemma command_records_nil: "None \<in> set rs \<Longrightarrow> \<exists>e. command_records i rs = Inl e"
proof (induction rs arbitrary: i)
  case (Cons r rs)
  then show ?case by (cases r) (auto split: sum.splits, metis Inr_not_Inl)
qed simp

lemma somes: "None \<notin> set xs \<Longrightarrow> \<exists>rs. xs = map Some rs"
proof (induction xs)
  case (Cons x xs)
  then obtain r rs where "x = Some r" "xs = map Some rs" by (cases x) auto
  then show ?case by (intro exI [of _ "r # rs"]) simp
qed simp

text \<open>A batch that is not refused at once.\<close>

lemma PublishBatch_serves:
  assumes s: "serves cdc ops b v" and cdc: "codec_live cdc" and ad: "admitted (DoProduceBatch sc req)"
    and room: "room_for (weight (DoProduceBatch sc req)) v" and lead: "sc_leader sc" and val: "batch_valid req"
    and p: "PublishBatch cdc (call_of sc) (pbr_Topic req) (pbr_Partition req) (pbr_Records req) b = (r, b')"
  shows "\<exists>v'. allowed v (DoProduceBatch sc req, ProducedBatch r) v' \<and> serves cdc ops b' v'"
proof -
  let ?t = "pbr_Topic req" and ?p = "sint (pbr_Partition req)"
  obtain rs where rs: "pbr_Records req = map Some rs" using val somes by (auto simp: batch_valid_def)
  let ?c = "Batch ?t ?p rs" and ?n = "length (after_entries (sc_before sc) (v_hist v) ?t ?p)"
  have t: "topic_fit ?t" and q: "in_range ?p" using ad val by (simp_all add: batch_valid_def)
  have fit: "cmd_fit ?c" using fit_batch [OF t q, of rs] ad rs by auto
  have es: "\<forall>e \<in> set (sc_before sc). cmd_fit (snd e)" using ad by simp
  have rm: "length (v_hist v t p) + entries_weight (sc_before sc) + length (cmd_kvs ?c) < 2 ^ 64" for t p
    using room_for_lt [OF room] rs by (simp add: add.assoc)
  obtain g b1 where get: "GetPartition ?t ?p b = (g, b1)" by fastforce
  note gs = get_serves [OF s fit_topic(1) [OF t] get]
  obtain rr b2 where ra: "raft_Apply cdc (call_of sc) (encode ?c) b1 = (rr, b2)" by fastforce
  note r2 = raft_serves [OF gs(1) cdc es fit rm ra]
  have n: "?n + length rs < 2 ^ 63"
    using room after_entries_length [of "sc_before sc" "v_hist v" ?t ?p] rs
    unfolding room_for_def by (metis (no_types, lifting) add.assoc add_le_mono1 le_less_trans length_map weight.simps(2))
  have off: "int64_offsets (map word_of_nat [?n ..< ?n + length rs]) = Inr (map word_of_nat [?n ..< ?n + length rs])"
    using n by (intro int64_offsets_small) (auto simp: unat_of_nat)
  have "map unat (map word_of_nat [?n ..< ?n + length rs] :: u64 list) = [?n ..< ?n + length rs]"
    using n by (auto simp: unat_of_nat intro!: map_idI)
  moreover have "b' = b2" "r = (case sc_error sc of Some e \<Rightarrow> Inl e | None \<Rightarrow> Inr (map word_of_nat [?n ..< ?n + length rs]))"
    using p lead val rs get gs(2) [OF q] ra r2(1) fit_topic [OF t] off command_records_map [of 0 rs]
    by (auto simp: PublishBatch_def call_of_def batch_valid_def in_range_def Let_def split: option.splits)
  ultimately show ?thesis
    using r2(2) batch_produced [OF lead val _ rs refl _ refl, of "map word_of_nat [?n ..< ?n + length rs]" v]
      batch_lost [OF lead val _ rs refl]
    by (cases "sc_error sc") auto
qed

lemma ProduceBatch_serves:
  assumes s: "serves cdc ops b v" and cdc: "codec_live cdc" and ad: "admitted (DoProduceBatch sc req)"
    and room: "room_for (weight (DoProduceBatch sc req)) v" and p: "ProduceBatch cdc (call_of sc) req b = (r, b')"
  shows "\<exists>v'. allowed v (DoProduceBatch sc req, ProducedBatch r) v' \<and> serves cdc ops b' v'"
proof (cases "in_range (sint (pbr_Partition req)) \<and> pbr_Records req \<noteq> []")
  case False
  then have "(\<exists>e. r = Inl e) \<and> b' = count_produce_error b \<and> \<not> batch_valid req"
    using p by (auto simp: ProduceBatch_def batch_valid_def Let_def split: if_splits)
  then show ?thesis using s batch_refused by fastforce
next
  case True
  let ?t = "pbr_Topic req" and ?p = "sint (pbr_Partition req)"
  have t: "topic_fit ?t" using ad by simp
  obtain b1 where pub: "PublishBatch cdc (call_of sc) ?t (pbr_Partition req) (pbr_Records req) b = (r, b1)"
    and sb: "serves cdc ops b' w \<longleftrightarrow> serves cdc ops b1 w" for w
    using p True fit_topic(2) [OF t] by (auto simp: ProduceBatch_def Let_def split: prod.splits sum.splits)
  have "\<exists>v'. allowed v (DoProduceBatch sc req, ProducedBatch r) v' \<and> serves cdc ops b1 v'"
  proof (cases "sc_leader sc \<and> None \<notin> set (pbr_Records req)")
    case valid: True
    then show ?thesis
      using PublishBatch_serves [OF s cdc ad room _ _ pub] True by (simp add: batch_valid_def)
  next
    case False
    obtain g b2 where get: "GetPartition ?t ?p b = (g, b2)" by fastforce
    note gs = get_serves [OF s fit_topic(1) [OF t] get]
    have "(\<exists>e. r = Inl e) \<and> (b1 = b \<or> b1 = b2)"
      using pub False True get gs(2) fit_topic(2) [OF t] command_records_nil [of "pbr_Records req" 0]
      by (auto simp: PublishBatch_def call_of_def in_range_def Let_def split: if_splits)
    moreover have "allowed v (DoProduceBatch sc req, ProducedBatch (Inl e)) v" for e
      using False by (intro batch_refused) (auto simp: batch_valid_def)
    ultimately show ?thesis using s gs(1) by blast
  qed
  then show ?thesis using sb by blast
qed

section \<open>Consuming\<close>

lemma log_history_offsets:
  assumes h: "log_history cdc (l, d) hs" and m: "log_holds cdc d l msgs" "map kv msgs = drop (unat (log_start l)) hs"
    "unat (log_next l) = length hs"
  shows "map (\<lambda>m. (unat (msg_Offset m), kv m)) msgs = drop (unat (log_start l)) (enumerate 0 hs)"
proof (rule nth_equalityI)
  let ?s = "unat (log_start l)"
  have len: "length msgs = length hs - ?s" using m(2) by (metis length_drop length_map)
  then show "length (map (\<lambda>m. (unat (msg_Offset m), kv m)) msgs) = length (drop ?s (enumerate 0 hs))" by simp
  fix i assume "i < length (map (\<lambda>m. (unat (msg_Offset m), kv m)) msgs)"
  then have i: "i < length msgs" by simp
  have "?s + i < 2 ^ 64" using i len unat_lt_pow [of "log_next l"] m(3) by simp
  then have "unat (msg_Offset (msgs ! i)) = ?s + i"
    using log_holds_offsets(3) [OF m(1) i] by (simp add: unat_word_ariths unat_of_nat)
  moreover have "kv (msgs ! i) = hs ! (?s + i)"
    using arg_cong [OF m(2), of "\<lambda>xs. xs ! i"] i len by simp
  ultimately show "map (\<lambda>m. (unat (msg_Offset m), kv m)) msgs ! i = drop ?s (enumerate 0 hs) ! i"
    using i len by (simp add: nth_enumerate_eq)
qed

text \<open>Whatever is read is the record at that position.\<close>

lemma log_history_read_sound:
  assumes h: "log_history cdc (l, d) hs" and cdc: "codec_ok cdc" and r: "log_Read cdc off l d = Inr m"
  shows "unat off < length hs" and "msg_Offset m = off" and "kv m = hs ! unat off"
proof -
  obtain msgs where m: "log_holds cdc d l msgs" "map kv msgs = drop (unat (log_start l)) hs"
    "unat (log_next l) = length hs"
    using h by (auto simp: log_history_def)
  have "m \<in> set msgs" "msg_Offset m = off" using log_Read_holds [OF m(1) cdc] r by auto
  then have "(unat off, kv m) \<in> set (drop (unat (log_start l)) (enumerate 0 hs))"
    using log_history_offsets [OF h m] by (metis (mono_tags, lifting) image_eqI set_map)
  then have "(unat off, kv m) \<in> set (enumerate 0 hs)" by (rule in_set_dropD)
  then show "unat off < length hs" "kv m = hs ! unat off" by (auto simp: in_set_enumerate_eq)
  show "msg_Offset m = off" by fact
qed

lemma log_history_slice:
  assumes h: "log_history cdc (l, d) hs" and cdc: "codec_ok cdc" and st: "log_start l \<le> off" and n: "0 < sint n"
  shows "\<exists>ms. log_ReadBatch cdc off n l d = Some (Inr ms)
    \<and> map (\<lambda>m. (unat (msg_Offset m), kv m)) ms = slice hs (unat off) (nat (sint n))"
proof -
  obtain msgs where m: "log_holds cdc d l msgs" "map kv msgs = drop (unat (log_start l)) hs"
    "unat (log_next l) = length hs"
    using h by (auto simp: log_history_def)
  have "map (\<lambda>m. (unat (msg_Offset m), kv m)) (drop (unat off - unat (log_start l)) msgs) = drop (unat off) (enumerate 0 hs)"
    using log_history_offsets [OF h m] st by (simp add: drop_map [symmetric] word_le_nat_alt)
  then show ?thesis
    using log_ReadBatch_holds [OF m(1) cdc st n] by (simp add: slice_def take_map [symmetric])
qed

lemma Consume_serves:
  assumes s: "serves cdc ops b v" and cdc: "codec_live cdc" and t: "safe_topic (cr_Topic req)"
    and c: "Consume cdc req b = (r, b')"
  shows "allowed v (DoConsume req, Consumed r) v" and "serves cdc ops b' v"
proof -
  let ?t = "cr_Topic req" and ?p = "part_of req" and ?off = "cr_Offset req"
  have ok: "codec_ok cdc" using cdc by (simp add: codec_live_def)
  obtain g b1 where get: "GetPartition ?t ?p b = (g, b1)" by fastforce
  note gs = get_serves [OF s t get]
  obtain l d where ld: "partition_log ?t ?p b1 = (l, d)" by fastforce
  have rd: "broker_Read cdc ?t ?p ?off b = (case g of Inl e \<Rightarrow> Inl e | Inr _ \<Rightarrow> log_Read cdc ?off l d, b1)"
    using get ld by (auto simp: broker_Read_def split: sum.splits)
  then have b': "serves cdc ops b' v" "r = map_sum id (\<lambda>m. (msg_Offset m, msg_Key m, msg_Value m))
      (case g of Inl e \<Rightarrow> Inl e | Inr _ \<Rightarrow> log_Read cdc ?off l d)"
    using c gs(1) by (auto simp: Consume_def part_of_def Let_def split: sum.splits)
  show "serves cdc ops b' v" by (rule b'(1))
  show "allowed v (DoConsume req, Consumed r) v"
  proof (cases "in_range ?p")
    case False
    then obtain e where "r = Inl e" using gs(3) b'(2) by auto
    then show ?thesis using consume_failed False by blast
  next
    case p: True
    have k: "broker_keeps cdc b1 (v_hist v)" "broker_fine (v_starts v) b1"
      using gs(1) by (auto simp: serves_def logs_show_def)
    have kn: "broker_known b1 ?t ?p" "g = Inr ()" using gs(2) [OF p] by auto
    have hs: "log_history cdc (l, d) (v_hist v ?t ?p)" using partition_log_known(1) [OF k(1) kn(1)] ld by simp
    show ?thesis
    proof (cases "log_Read cdc ?off l d")
      case (Inr m)
      note so = log_history_read_sound [OF hs ok Inr]
      have "r = Inr (?off, msg_Key m, msg_Value m)" using b'(2) kn(2) Inr so(2) by simp
      then show ?thesis using consumed_one [OF p so(1) so(3) [unfolded kv_def, symmetric]] by simp
    next
      case (Inl e)
      have "unat ?off < v_starts v ?t ?p \<or> length (v_hist v ?t ?p) \<le> unat ?off"
        using log_history_read(1) [OF hs ok, of ?off] Inl partition_log_starts [OF k kn(1)] ld
        by (fastforce simp: word_le_nat_alt)
      then show ?thesis using consume_failed b'(2) kn(2) Inl by auto
    qed
  qed
qed

lemma record_of_consumed: "map record_of (map consumed ms) = map (\<lambda>m. (unat (msg_Offset m), kv m)) ms"
  by (simp add: record_of_def consumed_def kv_def)

lemma ConsumeBatch_serves:
  assumes s: "serves cdc ops b v" and cdc: "codec_live cdc" and t: "safe_topic (cbr_Topic req)"
    and c: "ConsumeBatch cdc req b = (r, b')"
  shows "allowed v (DoConsumeBatch req, ConsumedBatch r) v" and "serves cdc ops b' v"
proof -
  let ?t = "cbr_Topic req" and ?p = "sint (cbr_Partition req)" and ?off = "cbr_Offset req"
  have ok: "codec_ok cdc" using cdc by (simp add: codec_live_def)
  have "allowed v (DoConsumeBatch req, ConsumedBatch r) v \<and> serves cdc ops b' v"
  proof (cases "slice_valid req")
    case False
    then have "(\<exists>e. r = Some (Inl e)) \<and> b' = count_consume_error b"
      using c by (auto simp: ConsumeBatch_def slice_valid_def Let_def split: if_splits)
    then show ?thesis using s slice_failed False by auto
  next
    case val: True
    then have p: "in_range ?p" by (simp add: slice_valid_def)
    define n where "n = (if sint (cbr_MaxCount req) > 1000 then 1000 else cbr_MaxCount req)"
    have n: "sint n = min 1000 (sint (cbr_MaxCount req))" by (simp add: n_def)
    obtain g b1 where get: "GetPartition ?t ?p b = (g, b1)" by fastforce
    note gs = get_serves [OF s t get]
    have kn: "broker_known b1 ?t ?p" "g = Inr ()" using gs(2) [OF p] by auto
    have k: "broker_keeps cdc b1 (v_hist v)" "broker_fine (v_starts v) b1"
      using gs(1) by (auto simp: serves_def logs_show_def)
    obtain l d where ld: "partition_log ?t ?p b1 = (l, d)" by fastforce
    have hs: "log_history cdc (l, d) (v_hist v ?t ?p)" using partition_log_known(1) [OF k(1) kn(1)] ld by simp
    then obtain msgs where m: "log_holds cdc d l msgs" by (auto simp: log_history_def)
    have n0: "0 < sint n" using n val by (simp add: slice_valid_def)
    have "broker_ReadBatch cdc ?t ?p ?off n b = (log_ReadBatch cdc ?off n l d, b1)"
      using val n n0 get kn(2) ld p
      by (auto simp: broker_ReadBatch_def slice_valid_def in_range_def Let_def)
    then have cb: "ConsumeBatch cdc req b = (case log_ReadBatch cdc ?off n l d of None \<Rightarrow> (None, b1)
        | Some (Inl e) \<Rightarrow> (Some (Inl e), count_consume_error b1)
        | Some (Inr ms) \<Rightarrow> (Some (Inr (map consumed ms)), count_consumed (length ms) b1))"
      using val safe_topic_default [OF t]
      by (auto simp: ConsumeBatch_def slice_valid_def n_def Let_def split: option.splits sum.splits)
    show ?thesis
    proof (cases "log_start l \<le> ?off")
      case True
      obtain ms where ms: "log_ReadBatch cdc ?off n l d = Some (Inr ms)"
        "map (\<lambda>m. (unat (msg_Offset m), kv m)) ms = slice (v_hist v ?t ?p) (unat ?off) (nat (sint n))"
        using log_history_slice [OF hs ok True n0] by blast
      then have "map record_of (map consumed ms) = slice (v_hist v ?t ?p) (unat ?off) (nat (min 1000 (sint (cbr_MaxCount req))))"
        unfolding record_of_consumed n by simp
      then show ?thesis using consumed_slice [OF val] c cb ms(1) gs(1) by auto
    next
      case False
      have "unat ?off < v_starts v ?t ?p"
        using False partition_log_starts [OF k kn(1)] ld by (simp add: word_le_nat_alt)
      then show ?thesis
        using slice_failed c cb log_ReadBatch_before [OF m _ n0, of ?off] False gs(1) by auto
    qed
  qed
  then show "allowed v (DoConsumeBatch req, ConsumedBatch r) v" "serves cdc ops b' v" by auto
qed

end
