(* ===== verification/ServiceLaws.thy ===== *)
theory ServiceLaws
  imports ServiceLogs
begin

text \<open>
  The remaining events: offsets, configuration, the background workers, restarts and crashes. Together with the
  previous theory they give the simulation of the whole service.
\<close>

section \<open>Offsets\<close>

lemma serves_groups:
  assumes "serves cdc ops b v" "groups_show ops s (v\<lparr>v_offs := f\<rparr>)"
  shows "serves cdc ops (b\<lparr>b_consumerGroups := s\<rparr>) (v\<lparr>v_offs := f\<rparr>)"
proof -
  have "logs_show cdc (b\<lparr>b_consumerGroups := s\<rparr>) v"
    using assms(1) logs_show_cong [of "b\<lparr>b_consumerGroups := s\<rparr>" b cdc v]
    by (simp add: serves_def broker_TopicConfig_def)
  then show ?thesis using assms by (simp add: serves_def logs_show_def plain_configs_def)
qed

lemma lag_for_serves:
  assumes "serves cdc ops b v" "safe_topic t"
  shows "serves cdc ops (updateConsumerGroupLagFor g t p off b) v"
proof -
  obtain r b1 where "GetPartition t (sint p) b = (r, b1)" by fastforce
  then show ?thesis
    using get_serves(1) [OF assms] by (simp add: updateConsumerGroupLagFor_def split: sum.split)
qed

lemma groups_show_commit:
  assumes ok: "bolt_ok ops" and g: "groups_show ops s v" and t: "safe_topic t"
    and c: "cg_CommitOffset ops gr t p off s = (r, s')"
  shows "r = Inr () \<Longrightarrow> groups_show ops s' (v\<lparr>v_offs := (v_offs v)((gr, t, p) := off)\<rparr>)"
    and "r = Inl e \<Longrightarrow> groups_show ops s' v"
proof -
  have i: "cg_inv ops s" and safe: "groups_safe s"
    and f: "plain g' \<Longrightarrow> plain t' \<Longrightarrow> cg_FetchOffset g' t' p' s = v_offs v (g', t', p')" for g' t' p'
    using g by (auto simp: groups_show_def)
  note ci = cg_CommitOffset_inv [OF ok i c]
  show "groups_show ops s' v" if "r = Inl e"
    using ci(1) ci(3) [OF that] safe f by (simp add: groups_show_def groups_safe_def cg_FetchOffset_def)
  show "groups_show ops s' (v\<lparr>v_offs := (v_offs v)((gr, t, p) := off)\<rparr>)" if r: "r = Inr ()"
  proof -
    have pl: "plain gr" "plain t" and o: "cg_offsets s' = (cg_offsets s)(offsetKey gr t p \<mapsto> off)"
      using ci(2) [OF r] by auto
    have "groups_safe s'"
      using safe t split_offsetKey [OF pl] by (auto simp: groups_safe_def o)
    then show ?thesis
      using ci(1) fetch_after_commit [OF ok i c [unfolded r]] f by (auto simp: groups_show_def)
  qed
qed

lemma CommitOffset_serves:
  assumes s: "serves cdc ops b v" and ok: "bolt_ok ops" and t: "safe_topic (topic_or_default (or_Topic req))"
    and c: "CommitOffset ops req b = (r, b')"
  shows "\<exists>v'. allowed v (DoCommit req, Committed r) v' \<and> serves cdc ops b' v'"
proof (cases "offset_valid req")
  case False
  then have "(\<exists>e. r = Inl e) \<and> b' = b"
    using c by (auto simp: CommitOffset_def offset_valid_def split: if_splits)
  then show ?thesis using s commit_failed by blast
next
  case True
  let ?t = "topic_or_default (or_Topic req)"
  obtain r1 s1 where cg: "cg_CommitOffset ops (or_GroupId req) ?t (or_Partition req) (or_Offset req) (b_consumerGroups b) = (r1, s1)"
    by fastforce
  have g: "groups_show ops (b_consumerGroups b) v" using s by (simp add: serves_def)
  note gc = groups_show_commit [OF ok g t cg]
  let ?b = "b\<lparr>b_consumerGroups := s1\<rparr>"
  have st: "store_commit ops (or_GroupId req) ?t (or_Partition req) (or_Offset req) b = (r, b')"
    using c True by (auto simp: CommitOffset_def offset_valid_def)
  show ?thesis
  proof (cases r1)
    case (Inl e)
    then have "r = Inl e" "b' = ?b" using st cg by (simp_all add: store_commit_def)
    moreover have "serves cdc ops ?b v"
      using serves_groups [OF s, of s1 "v_offs v"] gc(2) [OF Inl] by simp
    ultimately show ?thesis using commit_failed by blast
  next
    case (Inr u)
    let ?v = "v\<lparr>v_offs := (v_offs v)(offset_slot req := or_Offset req)\<rparr>"
    have "serves cdc ops ?b ?v"
      using serves_groups [OF s] gc(1) Inr by (simp add: offset_slot_def)
    then have "serves cdc ops (updateConsumerGroupLagFor (or_GroupId req) ?t (or_Partition req) (or_Offset req) ?b) ?v"
      using t by (rule lag_for_serves)
    moreover have "r = Inr ()" "b' = updateConsumerGroupLagFor (or_GroupId req) ?t (or_Partition req) (or_Offset req) ?b"
      using st cg Inr by (simp_all add: store_commit_def)
    ultimately show ?thesis using committed [OF True refl] by auto
  qed
qed

lemma FetchOffset_serves:
  assumes "serves cdc ops b v" "plain (or_GroupId req)" "plain (or_Topic req)"
  shows "allowed v (DoFetch req, Fetched (FetchOffset req b)) v"
proof (cases "offset_valid req")
  case True
  have "plain (topic_or_default (or_Topic req))" using assms(3) by (simp add: topic_or_default_def plain_def NUL_def)
  then have "FetchOffset req b = Inr (v_offs v (offset_slot req))"
    using assms True by (simp add: FetchOffset_def offset_valid_def serves_def groups_show_def offset_slot_def)
  then show ?thesis using fetched [OF True] by simp
next
  case False
  then have "\<exists>e. FetchOffset req b = Inl e" by (auto simp: FetchOffset_def offset_valid_def)
  then show ?thesis using fetch_refused [OF False] by auto
qed

text \<open>The lag worker opens the topics that have committed offsets; all of them have plain names.\<close>

lemma snapshot_safe: "groups_safe s \<Longrightarrow> c \<in> set (cg_Snapshot keys s) \<Longrightarrow> safe_topic (cgo_Topic c)"
proof -
  assume g: "groups_safe s" and "c \<in> set (cg_Snapshot keys s)"
  then obtain key where key: "(case (split_key key, cg_offsets s key) of
         (Some (g, t, p), Some offset) \<Rightarrow>
           Some \<lparr>cgo_GroupID = g, cgo_Topic = t, cgo_Partition = p, cgo_Offset = offset\<rparr>
       | _ \<Rightarrow> None) = Some c"
    unfolding cg_Snapshot_def set_map_filter by blast
  then obtain gr t p off where "split_key key = Some (gr, t, p)" "cg_offsets s key = Some off"
    by (cases "split_key key"; cases "cg_offsets s key") auto
  then have "safe_topic t" "cgo_Topic c = t"
    using g key unfolding groups_safe_def by (blast, auto)
  then show ?thesis by simp
qed

lemma lag_serves: "serves cdc ops b v \<Longrightarrow> serves cdc ops (updateConsumerGroupLag keys b) v"
proof -
  assume s: "serves cdc ops b v"
  have "serves cdc ops (foldl (\<lambda>b c. updateConsumerGroupLagFor (cgo_GroupID c) (cgo_Topic c) (cgo_Partition c) (cgo_Offset c) b) b cs) v"
    if "serves cdc ops b v" "\<forall>c \<in> set cs. safe_topic (cgo_Topic c)" for cs and b :: "'a broker"
    using that by (induction cs arbitrary: b) (auto intro: lag_for_serves)
  moreover have "\<forall>c \<in> set (cg_Snapshot keys (b_consumerGroups b)). safe_topic (cgo_Topic c)"
    using s snapshot_safe by (auto simp: serves_def groups_show_def)
  ultimately show ?thesis using s by (simp add: updateConsumerGroupLag_def)
qed

section \<open>Configuration and compaction\<close>

lemma configure_serves:
  assumes s: "serves cdc ops b v" and t: "safe_topic t" and c: "\<not> tc_Compacted config" "\<not> tc_Compressed config"
    and r: "SetTopicConfig t config b = (r, b')"
  shows "allowed v (DoConfigure t config, Configured r) v" and "serves cdc ops b' v"
proof -
  let ?b = "b\<lparr>b_topicConfigs := (b_topicConfigs b)(t \<mapsto> config)\<rparr>"
  have "\<not> tc_Compressed (broker_TopicConfig u b)" for u
    using s by (simp add: serves_def plain_configs_def broker_TopicConfig_def zero_config_def split: option.split)
  then have "logs_show cdc ?b v"
    using s logs_show_cong [of ?b b cdc v] c(2) by (simp add: serves_def broker_TopicConfig_def)
  then have sb: "serves cdc ops ?b v" using s c by (simp add: serves_def plain_configs_def)
  obtain g b1 where get: "GetPartition t 0 ?b = (g, b1)" by fastforce
  note gs = get_serves [OF sb t get]
  have z: "in_range 0" by (simp add: in_range_def defaultNumPartitions_def)
  show "serves cdc ops b' v"
    using r s sb get gs(1) safe_topic_default [OF t] by (auto simp: SetTopicConfig_def Let_def split: if_splits)
  have "if sint (tc_RetentionBytes config) < 0 \<or> sint (tc_RetentionMs config) < 0 then \<exists>e. r = Inl e else r = Inr ()"
    using r get gs(2) [OF z] safe_topic_default [OF t] by (auto simp: SetTopicConfig_def Let_def split: if_splits)
  then show "allowed v (DoConfigure t config, Configured r) v"
    using configured [of config v t] configure_refused [of config v t] by (auto split: if_splits)
qed

lemma compaction_none: "plain_configs b \<Longrightarrow> compactConfiguredTopics cdc leader order b = b"
proof -
  assume "plain_configs b"
  then have "\<not> compactable b u" for u by (auto simp: compactable_def plain_configs_def split: option.splits)
  then show ?thesis by (simp add: compactConfiguredTopics_def)
qed

section \<open>Retention\<close>

text \<open>Deleting old segments changes where the stored part of the history starts, and nothing else.\<close>

lemma log_history_retention:
  assumes h: "log_history cdc (l, d) hs" and rd: "log_ready (l, d)"
  shows "\<exists>l' d'. EnforceRetention rb rms now l d = (Inr (), l', d') \<and> log_ready (l', d')
    \<and> log_history cdc (l', d') hs \<and> log_compressed l' = log_compressed l"
proof -
  obtain mss where m: "log_inv cdc d l mss" "map kv (concat mss) = drop (unat (log_start l)) hs"
    "unat (log_next l) = length hs"
    using h by (auto simp: log_history_def log_holds_def)
  obtain l' d' k where e: "EnforceRetention rb rms now l d = (Inr (), l', d')" "log_ready (l', d')"
    "k < length mss" "l' = l\<lparr>log_segments := drop k (log_segments l)\<rparr>" "log_inv cdc d' l' (drop k mss)"
    using EnforceRetention_live [OF m(1) rd] by blast
  have len: "length (log_segments l) = length mss"
    using m(1) by (auto simp: log_inv_def log_core_def dest: list_all2_lengthD)
  have nx: "log_next l' = log_next l" using e(3,4) len by (simp add: log_next_def)
  have hl: "log_holds cdc d l (concat mss)" "log_holds cdc d' l' (concat (drop k mss))"
    using m(1) e(5) by (auto simp: log_holds_def)
  have c: "concat mss = concat (take k mss) @ concat (drop k mss)" by (metis append_take_drop_id concat_append)
  have n: "unat (log_start l) + length (concat mss) = length hs"
    "unat (log_start l') + length (concat (drop k mss)) = length hs"
    using log_holds_offsets(1,2) [OF hl(1)] log_holds_offsets(1,2) [OF hl(2)] m(3) nx by (auto simp: word_le_nat_alt)
  then have st: "unat (log_start l') = unat (log_start l) + length (concat (take k mss))" using c by simp
  have "map kv (concat (drop k mss)) = drop (length (concat (take k mss))) (map kv (concat mss))"
    using c by (metis append_eq_conv_conj drop_map)
  also have "\<dots> = drop (unat (log_start l')) hs" by (simp add: m(2) st add.commute)
  finally have "log_history cdc (l', d') hs" using hl(2) m(3) nx by (auto simp: log_history_def)
  then show ?thesis using e by auto
qed

lemma retain_one:
  assumes s: "serves cdc ops b v" and kn: "broker_known b t p" and pl: "partition_log t p b = (l, d)"
    and e: "EnforceRetention rb rms now l d = (r, l', d')"
  shows "\<exists>n. v_starts v t p \<le> n \<and> n \<le> length (v_hist v t p) \<and> broker_known (set_partition_log t p (l', d') b) t p
    \<and> serves cdc ops (set_partition_log t p (l', d') b) (v\<lparr>v_starts := (v_starts v)(t := (v_starts v t)(p := n))\<rparr>)"
proof -
  have k: "broker_keeps cdc b (v_hist v)" "broker_fine (v_starts v) b"
    and le: "v_starts v u q \<le> length (v_hist v u q)" for u q
    using s by (auto simp: serves_def logs_show_def)
  have hs: "log_history cdc (l, d) (v_hist v t p)" using partition_log_known(1) [OF k(1) kn] pl by simp
  have "log_ready (l, d)" using bl.log_live [OF k(1,2) kn] pl by (simp add: broker_provider_def)
  from log_history_retention [OF hs this, of rb rms now]
  have l': "log_ready (l', d')" "log_history cdc (l', d') (v_hist v t p)" "log_compressed l' = log_compressed l"
    using e by auto
  let ?b = "set_partition_log t p (l', d') b" and ?n = "max (v_starts v t p) (unat (log_start l'))"
  have "broker_keeps cdc ?b ((v_hist v)(t := (v_hist v t)(p := v_hist v t p)))"
    by (rule set_partition_keeps [OF k(1) kn l'(2)]) (use l'(3) partition_log_known(2) [OF k(1) kn] pl in simp)
  then have "broker_keeps cdc ?b (v_hist v)" by simp
  moreover have "broker_fine ((v_starts v)(t := (v_starts v t)(p := ?n))) ?b"
    by (rule set_partition_fine [OF k(2) kn l'(1,2)]) simp
  moreover have n: "?n \<le> length (v_hist v t p)" using le log_history_start [OF l'(2)] by simp
  ultimately have "logs_show cdc ?b (v\<lparr>v_starts := (v_starts v)(t := (v_starts v t)(p := ?n))\<rparr>)"
    using le by (simp add: logs_show_def)
  moreover have "same_admin b ?b" by simp
  ultimately have "serves cdc ops ?b (v\<lparr>v_starts := (v_starts v)(t := (v_starts v t)(p := ?n))\<rparr>)"
    using s by (simp add: serves_def same_admin_def groups_show_def plain_configs_def)
  moreover have "broker_known ?b t p" using bp.set_known [OF kn] by (simp add: broker_provider_def)
  ultimately show ?thesis using n by (intro exI [of _ ?n]) simp
qed

lemma retain_serves:
  assumes "serves cdc ops b v" "safe_topic t" "b_logs b t \<noteq> None" "\<forall>i \<in> set is. i < defaultNumPartitions"
  shows "\<exists>s. (\<forall>p. v_starts v t p \<le> s p \<and> s p \<le> length (v_hist v t p))
    \<and> serves cdc ops (retain_partitions config now t is b) (v\<lparr>v_starts := (v_starts v)(t := s)\<rparr>)"
  using assms
proof (induction "is" arbitrary: b v)
  case Nil
  have "\<forall>p. v_starts v t p \<le> length (v_hist v t p)" using Nil.prems(1) by (simp add: serves_def logs_show_def)
  then show ?case using Nil.prems(1) by (intro exI [of _ "v_starts v t"]) simp
next
  case (Cons i "is")
  have kn: "broker_known b t (int i)" using Cons.prems by (auto simp: broker_known_def)
  obtain l d where pl: "partition_log t (int i) b = (l, d)" by fastforce
  obtain r l' d' where e: "EnforceRetention (tc_RetentionBytes config) (tc_RetentionMs config) now l d = (r, l', d')"
    by (metis prod.collapse)
  let ?b = "set_partition_log t (int i) (l', d') b"
  obtain n where n: "v_starts v t (int i) \<le> n" "n \<le> length (v_hist v t (int i))" "broker_known ?b t (int i)"
    "serves cdc ops ?b (v\<lparr>v_starts := (v_starts v)(t := (v_starts v t)(int i := n))\<rparr>)"
    using retain_one [OF Cons.prems(1) kn pl e] by blast
  let ?v = "v\<lparr>v_starts := (v_starts v)(t := (v_starts v t)(int i := n))\<rparr>"
  have "b_logs ?b t \<noteq> None" using n(3) by (simp add: broker_known_def)
  then obtain s where s: "\<forall>p. v_starts ?v t p \<le> s p \<and> s p \<le> length (v_hist ?v t p)"
    "serves cdc ops (retain_partitions config now t is ?b) (?v\<lparr>v_starts := (v_starts ?v)(t := s)\<rparr>)"
    using Cons.IH [OF n(4) Cons.prems(2)] Cons.prems(4) by (metis list.set_intros(2))
  have "v_starts v t p \<le> s p \<and> s p \<le> length (v_hist v t p)" for p
    using s(1) [rule_format, of p] n(1) by (auto split: if_splits)
  moreover have "retain_partitions config now t (i # is) b = retain_partitions config now t is ?b" using pl e by simp
  moreover have "?v\<lparr>v_starts := (v_starts ?v)(t := s)\<rparr> = v\<lparr>v_starts := (v_starts v)(t := s)\<rparr>" by simp
  ultimately show ?case using s(2) by metis
qed

lemma retention_serves:
  assumes s: "serves cdc ops b v"
  shows "\<exists>v'. allowed v (TickRetention leader now t, Silent) v' \<and> serves cdc ops (enforceTopicRetention leader now t b) v'"
proof -
  have stay: "allowed v (TickRetention leader now t, Silent) v"
    using retained [of v t "v_starts v t" leader v now] s by (simp add: serves_def logs_show_def)
  show ?thesis
  proof (cases "leader \<and> b_logs b t \<noteq> None")
    case True
    then obtain ls where ls: "b_logs b t = Some ls" by auto
    have k: "broker_keeps cdc b (v_hist v)" using s by (simp add: serves_def logs_show_def)
    have "safe_topic t" "length ls = defaultNumPartitions" using broker_keepsD [OF k ls] by auto
    then obtain st where st: "\<forall>p. v_starts v t p \<le> st p \<and> st p \<le> length (v_hist v t p)"
      "serves cdc ops (retain_partitions (case b_topicConfigs b t of None \<Rightarrow> zero_config | Some c \<Rightarrow> c) now t [0..<length ls] b)
        (v\<lparr>v_starts := (v_starts v)(t := st)\<rparr>)"
      using retain_serves [OF s, of t "[0..<length ls]"
          "case b_topicConfigs b t of None \<Rightarrow> zero_config | Some c \<Rightarrow> c" now] ls
      by auto
    have "allowed v (TickRetention leader now t, Silent) (v\<lparr>v_starts := (v_starts v)(t := st)\<rparr>)"
      by (rule retained [OF _ _ refl]) (use st(1) True in auto)
    then show ?thesis
      using st(2) stay s True ls by (auto simp: enforceTopicRetention_def Let_def split: if_splits)
  next
    case False
    then have "enforceTopicRetention leader now t b = b" by (auto simp: enforceTopicRetention_def Let_def)
    then show ?thesis using stay s by auto
  qed
qed

section \<open>Restarting\<close>

lemma close_logs_idle:
  "(\<And>p. sched (b_fs b p) = []) \<Longrightarrow> b_fs (snd (close_logs t is b)) = b_fs b"
proof (induction "is" arbitrary: b)
  case (Cons i "is")
  obtain l d where pl: "partition_log t (int i) b = (l, d)" by fastforce
  then have d: "d = b_fs b (partition_path (b_dataDir b) (topic_or_default t) i)"
    by (simp add: partition_log_def Let_def)
  obtain l' where c: "log_Close l d = (Inr (), l', d)" using log_Close_idle Cons.prems d by blast
  have "b_fs (set_partition_log t (int i) (l', d) b) = b_fs b"
    using d by (simp add: set_partition_log_def Let_def fun_upd_idem)
  then show ?case using Cons.IH [of "set_partition_log t (int i) (l', d) b"] Cons.prems pl c by (simp add: split_beta)
qed simp

lemma close_topics_idle:
  "(\<And>p. sched (b_fs b p) = []) \<Longrightarrow> b_fs (snd (close_topics ts b)) = b_fs b"
  by (induction ts arbitrary: b) (simp_all add: split_beta close_logs_idle)

lemma start_on_serves:
  assumes s: "serves cdc ops b v" and ok: "bolt_ok ops" and r: "start_on ops b1 = Inr b'"
    and fs: "b_fs b1 = b_fs b" "b_dataDir b1 = b_dataDir b"
    and m: "map_of (bolt_each ops (cg_db (b_consumerGroups b1))) = map_of (bolt_each ops (cg_db (b_consumerGroups b)))"
  shows "serves cdc ops b' v"
proof -
  have k: "broker_keeps cdc b (v_hist v)" and f: "broker_fine (v_starts v) b"
    and g: "groups_show ops (b_consumerGroups b) v" and pc: "plain_configs b"
    using s by (auto simp: serves_def logs_show_def)
  have "\<not> tc_Compressed (broker_TopicConfig t b)" for t
    using pc by (simp add: plain_configs_def broker_TopicConfig_def zero_config_def split: option.split)
  note rk = start_on_keeps [OF r k _ fs(2) this]
  have same: "same_files (b_fs b) (b_fs b1)" using fs(1) by (simp add: same_files_refl)
  have "cg_inv ops (b_consumerGroups b)" using g by (simp add: groups_show_def)
  note ro = start_on_offsets [OF r ok this m]
  have "broker_fine (v_starts v) b'"
    using f rk(2,3,5) [OF same] fs(1) by (simp add: broker_fine_def broker_starts_def)
  moreover have "groups_show ops (b_consumerGroups b') v"
    using g ro by (simp add: groups_show_def groups_safe_def cg_FetchOffset_def)
  ultimately show ?thesis
    using s rk [OF same] by (simp add: serves_def logs_show_def plain_configs_def)
qed

lemma restart_serves:
  assumes s: "serves cdc ops b v" and ok: "bolt_ok ops" and r: "restart ops he re order b = Inr b'"
  shows "serves cdc ops b' v"
proof (rule start_on_serves [OF s ok r [unfolded restart_def] _ _ broker_Close_offsets [OF ok]])
  have "sched (b_fs b p) = []" for p
    using s by (simp add: serves_def logs_show_def broker_fine_def dir_fine_def)
  then show "b_fs (snd (broker_Close ops he re order b)) = b_fs b"
    using close_topics_idle [of b order] by (auto simp: broker_Close_def split: prod.splits)
  show "b_dataDir (snd (broker_Close ops he re order b)) = b_dataDir b"
    using broker_Close_files [of b ops he re order] by (simp add: only_closed_def)
qed

section \<open>Simulation\<close>

lemma service_step_simulates:
  assumes "service_step cdc ops b ev b'" "serves cdc ops b v" "codec_live cdc" "bolt_ok ops"
    "admitted (fst ev)" "room_for (weight (fst ev)) v"
  shows "\<exists>v'. allowed v ev v' \<and> serves cdc ops b' v'"
  using assms
proof (cases rule: service_step.cases)
  case (produce sc req r)
  then show ?thesis using Produce_serves [of cdc ops b v sc req r b'] assms by simp
next
  case (produce_batch sc breq rs)
  then show ?thesis using ProduceBatch_serves [of cdc ops b v sc breq rs b'] assms by simp
next
  case (consume creq cr)
  then show ?thesis using Consume_serves [of cdc ops b v creq cr b'] assms by auto
next
  case (consume_batch cbreq crs)
  then show ?thesis using ConsumeBatch_serves [of cdc ops b v cbreq crs b'] assms by auto
next
  case (commit oreq u)
  then show ?thesis using CommitOffset_serves [of cdc ops b v oreq u b'] assms by simp
next
  case (fetch oreq)
  then show ?thesis using FetchOffset_serves [of cdc ops b v oreq] assms by auto
next
  case (replicate_entry now c resp)
  let ?v = "v\<lparr>v_hist := adds c (v_hist v)\<rparr>"
  have "serves cdc ops b' ?v"
    using step_serves(2) [of cdc ops b v c now resp b'] room_for_lt [OF assms(6)] replicate_entry assms by simp
  moreover have "allowed v ev ?v" unfolding replicate_entry(1) by (rule entry_applied) simp
  ultimately show ?thesis by blast
next
  case (configure t config u)
  then show ?thesis using configure_serves [of cdc ops b v t config u b'] assms by auto
next
  case (retention leader time t)
  then show ?thesis using retention_serves [of cdc ops b v leader time t] assms by simp
next
  case (compaction leader order)
  then have "b' = b" using compaction_none [of b cdc] assms(2) by (simp add: serves_def)
  then show ?thesis using compaction compaction_idle assms by auto
next
  case (lag keys)
  then show ?thesis using lag_serves [of cdc ops b v keys] lag_measured assms by auto
next
  case (restarted httpErr raftErr topics)
  then show ?thesis using restart_serves [OF assms(2,4)] came_back by blast
next
  case crashed
  then show ?thesis
    using start_on_serves [OF assms(2,4)] recovered unfolding crash_restart_def by blast
qed

section \<open>The shape is kept by everything\<close>

lemma start_on_shape: "start_on ops b = Inr b' \<Longrightarrow> broker_shape b'"
  by (drule start_onD, erule ssubst) (simp add: broker_init_def broker_shape_def defaultNumPartitions_def)

lemma service_step_shape:
  assumes "service_step cdc ops b ev b'" "broker_shape b" shows "broker_shape b'"
  using assms
proof (cases rule: service_step.cases)
  case (commit oreq u)
  have "broker_shape (snd (store_commit ops g t p off b))" for g t p off
  proof -
    have "broker_shape (b\<lparr>b_consumerGroups := s\<rparr>)" for s using assms(2) by (simp add: broker_shape_def)
    then show ?thesis by (auto simp: store_commit_def shp.lag_for_frame [rule_format] split: prod.split sum.split)
  qed
  then have "store_commit ops g t p off b = (u, b') \<Longrightarrow> broker_shape b'" for g t p off by (metis snd_conv)
  then show ?thesis using commit assms(2) by (auto simp: CommitOffset_def split: if_splits)
next
  case (replicate_entry now c resp)
  then show ?thesis using shp.entry_frame [of b cdc now "encode c"] assms(2) by (simp add: broker_step_def)
next
  case (configure t config u)
  let ?b = "b\<lparr>b_topicConfigs := (b_topicConfigs b)(topic_or_default t \<mapsto> config)\<rparr>"
  have "broker_shape ?b" using assms(2) by (simp add: broker_shape_def)
  then show ?thesis
    using configure assms(2) GetPartition_shape [of ?b] by (auto simp: SetTopicConfig_def Let_def split: if_splits)
next
  case (retention leader time t)
  show ?thesis
  proof (cases "b_logs b t")
    case (Some ls)
    then have "topic_or_default t = t" using assms(2) by (auto simp: broker_shape_def topic_or_default_def)
    then show ?thesis
      using retention assms(2) shp.retain_frame [of b t] Some by (auto simp: enforceTopicRetention_def Let_def)
  qed (use retention assms(2) in \<open>auto simp: enforceTopicRetention_def Let_def\<close>)
next
  case (compaction leader order)
  have "broker_shape (compact_topics cdc ts b)" if "broker_shape b" "\<forall>e \<in> set ts. b_logs b (fst e) \<noteq> None" for ts and b :: "'a broker"
    using that
  proof (induction ts arbitrary: b)
    case (Cons e ts)
    obtain t lead where e: "e = (t, lead)" by fastforce
    let ?b = "compact_partitions cdc t [0..<length (the (b_logs b t))] b"
    have t: "topic_or_default t = t" "b_logs b t \<noteq> None"
      using Cons.prems e by (auto simp: broker_shape_def topic_or_default_def)
    have "broker_shape ?b" using shp.compact_frame [of b t] t Cons.prems(1) by simp
    moreover have "b_logs ?b u \<noteq> None" if "b_logs b u \<noteq> None" for u
      using that opn.compact_frame [of b t] t by (fastforce simp: still_open_def)
    ultimately show ?case using Cons.IH [of ?b] Cons.prems e by auto
  qed simp
  then show ?thesis using compaction assms(2) by (auto simp: compactConfiguredTopics_def compactable_def)
next
  case (restarted httpErr raftErr topics)
  then show ?thesis using start_on_shape by (auto simp: restart_def)
next
  case crashed
  then show ?thesis using start_on_shape by (auto simp: crash_restart_def)
qed (auto dest: shp.Produce_frame [rotated] shp.ProduceBatch_frame [rotated] shp.Consume_frame [rotated]
    shp.ConsumeBatch_frame [rotated] simp: shp.lag_frame)


section \<open>A new broker\<close>

definition fresh_view :: "(string \<times> string \<times> i32 \<Rightarrow> u64) \<Rightarrow> view" where
  "fresh_view offs = \<lparr>v_hist = (\<lambda>_ _. []), v_starts = (\<lambda>_ _. 0), v_offs = offs\<rparr>"

text \<open>On an empty disk that reports no failure a new broker serves empty histories.\<close>

lemma broker_init_serves:
  assumes fs: "\<And>p. files (fs p) = [] \<and> subdirs (fs p) = [] \<and> sched (fs p) = []"
    and g: "groups_show ops groups (fresh_view offs)"
  shows "serves cdc ops (broker_init dataDir groups fs) (fresh_view offs)"
proof -
  have e: "lookup_file (fs p) = Map.empty" for p using fs by (simp add: lookup_file_def)
  have "broker_keeps cdc (broker_init dataDir groups fs) (\<lambda>_ _. [])"
    by (rule broker_init_keeps) (use fs in blast)
  moreover have "dir_fine (fs p)" "starts_by (fs p) 0" for p
    using fs e [of p] by (simp_all add: dir_fine_def dir_slim_def starts_by_def)
  ultimately show ?thesis
    using g by (simp add: serves_def logs_show_def fresh_view_def broker_fine_def broker_starts_def
        plain_configs_def broker_init_def)
qed


end
