(* ===== verification/ServiceRuns.thy ===== *)
theory ServiceRuns
  imports ServiceLaws "HOL-Library.Sublist"
begin

text \<open>
  Runs of the service. The locale \<open>simulation\<close> is forward simulation with a budget: the relation
  promises room for a number of further records, and every event spends some of it. Interpreted on
  the broker it says that whatever clients, Raft, workers and operators do, in whatever order, the
  answers are those of the specification.
\<close>

section \<open>Runs and simulation\<close>

inductive runs :: "('s \<Rightarrow> 'e \<Rightarrow> 's \<Rightarrow> bool) \<Rightarrow> 's \<Rightarrow> 'e list \<Rightarrow> 's \<Rightarrow> bool" for step where
  runs_none: "runs step s [] s"
| runs_more: "step s e s1 \<Longrightarrow> runs step s1 es s2 \<Longrightarrow> runs step s (e # es) s2"

inductive_simps runs_Nil [simp]: "runs step s [] s'"
inductive_simps runs_Cons [simp]: "runs step s (e # es) s'"

lemma runs_append: "runs step s (xs @ ys) s' \<longleftrightarrow> (\<exists>s1. runs step s xs s1 \<and> runs step s1 ys s')"
  by (induction xs arbitrary: s) auto

text \<open>What every step keeps, a run keeps.\<close>

lemma runs_invariant:
  assumes "runs step s es s'" "I s" "\<And>s e s'. e \<in> set es \<Longrightarrow> step s e s' \<Longrightarrow> I s \<Longrightarrow> I s'"
  shows "I s'"
  using assms by (induction rule: runs.induct) auto

lemma runs_related:
  assumes "runs step s es s'" "\<And>s. R s s" "\<And>a b c. R a b \<Longrightarrow> R b c \<Longrightarrow> R a c"
    "\<And>s e s'. e \<in> set es \<Longrightarrow> step s e s' \<Longrightarrow> R s s'"
  shows "R s s'"
  using runs_invariant [of step s es s' "R s"] assms by metis

locale simulation =
  fixes step :: "'s \<Rightarrow> 'e \<Rightarrow> 's \<Rightarrow> bool" and spec :: "'v \<Rightarrow> 'e \<Rightarrow> 'v \<Rightarrow> bool"
    and rel :: "nat \<Rightarrow> 's \<Rightarrow> 'v \<Rightarrow> bool" and able :: "'e \<Rightarrow> bool" and cost :: "'e \<Rightarrow> nat"
  assumes simulates: "step s e s' \<Longrightarrow> rel (cost e + n) s v \<Longrightarrow> able e \<Longrightarrow> \<exists>v'. spec v e v' \<and> rel n s' v'"
begin

lemma runs_simulate:
  "runs step s es s' \<Longrightarrow> rel (sum_list (map cost es) + n) s v \<Longrightarrow> \<forall>e \<in> set es. able e \<Longrightarrow>
     \<exists>v'. runs spec v es v' \<and> rel n s' v'"
proof (induction arbitrary: v rule: runs.induct)
  case (runs_none s)
  then show ?case by auto
next
  case (runs_more s e s1 es s2)
  have "rel (cost e + (sum_list (map cost es) + n)) s v" using runs_more.prems(1) by (simp add: add.assoc)
  then obtain v1 where "spec v e v1" "rel (sum_list (map cost es) + n) s1 v1"
    using simulates [OF runs_more.hyps(1)] runs_more.prems(2) by (metis list.set_intros(1))
  moreover from this(2) obtain v' where "runs spec v1 es v'" "rel n s2 v'"
    using runs_more.IH runs_more.prems(2) by fastforce
  ultimately show ?case by auto
qed

end

section \<open>What the specification promises\<close>

lemma after_entries_prefix: "prefix (h t p) (after_entries es h t p)"
  by (simp add: after_entries_added)

lemma adds_prefix: "prefix (h t p) (adds c h t p)"
  by (simp add: adds_def spec_apply_def Let_def)

lemma raft_hist_prefix: "prefix (h t p) (raft_hist sc c h t p)"
  using prefix_order.trans [OF after_entries_prefix [of h t p] adds_prefix [of "after_entries (sc_before sc) h" t p c]]
  by (simp add: raft_hist_def after_entries_prefix)

lemma raft_hist_length:
  "length (raft_hist sc c h t p) \<le> length (h t p) + (entries_weight (sc_before sc) + length (cmd_kvs c))"
  using adds_length(1) [of c "after_entries (sc_before sc) h" t p] after_entries_length [of "sc_before sc" h t p]
  by (simp add: raft_hist_def)

text \<open>Histories only grow, and by no more than the weight of the action.\<close>

lemma allowed_grows: "allowed v ev v' \<Longrightarrow> prefix (v_hist v t p) (v_hist v' t p)"
  by (induction rule: allowed.induct) (simp_all add: raft_hist_prefix adds_prefix)

lemma allowed_length: "allowed v ev v' \<Longrightarrow> length (v_hist v' t p) \<le> length (v_hist v t p) + weight (fst ev)"
proof (induction rule: allowed.induct)
  case (produced sc req q off v v')
  then show ?case using raft_hist_length [of sc "Single (pr_Topic req) q (pr_Key req) (pr_Value req)"] by simp
next
  case (produce_lost sc req q e v' v)
  then show ?case using raft_hist_length [of sc "Single (pr_Topic req) q (pr_Key req) (pr_Value req)"] by simp
next
  case (batch_produced sc breq rs)
  then show ?case using raft_hist_length [of sc "Batch (pbr_Topic breq) (sint (pbr_Partition breq)) rs"] by simp
next
  case (batch_lost sc breq e rs)
  then show ?case using raft_hist_length [of sc "Batch (pbr_Topic breq) (sint (pbr_Partition breq)) rs"] by simp
qed (simp_all add: adds_length(1))

text \<open>Only retention of a topic moves the start of its partitions.\<close>

definition retains :: "string \<Rightarrow> action \<Rightarrow> bool" where
  "retains t a \<longleftrightarrow> (case a of TickRetention leader now u \<Rightarrow> u = t | _ \<Rightarrow> False)"

lemma allowed_starts: "allowed v ev v' \<Longrightarrow> \<not> retains t (fst ev) \<Longrightarrow> v_starts v' t = v_starts v t"
  by (induction rule: allowed.induct) (simp_all add: retains_def)

text \<open>Only a commit of a group moves its offset.\<close>

definition commits :: "string \<times> string \<times> i32 \<Rightarrow> action \<Rightarrow> bool" where
  "commits slot a \<longleftrightarrow> (case a of DoCommit oreq \<Rightarrow> offset_slot oreq = slot | _ \<Rightarrow> False)"

lemma allowed_offs: "allowed v ev v' \<Longrightarrow> \<not> commits slot (fst ev) \<Longrightarrow> v_offs v' slot = v_offs v slot"
  by (induction rule: allowed.induct) (simp_all add: commits_def)

section \<open>The broker simulates the specification\<close>

lemma room_for_less: "room_for (m + n) v \<Longrightarrow> room_for m v"
  unfolding room_for_def by (metis add.assoc add_lessD1)

definition service_rel :: "codec \<Rightarrow> 'db bolt \<Rightarrow> nat \<Rightarrow> 'db broker \<Rightarrow> view \<Rightarrow> bool" where
  "service_rel cdc ops n b v \<longleftrightarrow> codec_live cdc \<and> bolt_ok ops \<and> serves cdc ops b v \<and> room_for n v"

interpretation srv: simulation "service_step cdc ops" allowed "service_rel cdc ops"
    "\<lambda>ev. admitted (fst ev)" "\<lambda>ev. weight (fst ev)"
  for cdc :: codec and ops :: "'db bolt"
proof unfold_locales
  fix b b' :: "'db broker" and ev n v
  assume st: "service_step cdc ops b ev b'" and r: "service_rel cdc ops (weight (fst ev) + n) b v" and a: "admitted (fst ev)"
  have "room_for (weight (fst ev)) v" using r room_for_less by (auto simp: service_rel_def)
  then obtain v' where v': "allowed v ev v'" "serves cdc ops b' v'"
    using service_step_simulates [OF st _ _ _ a] r by (auto simp: service_rel_def)
  have "length (v_hist v' t p) + n < 2 ^ 63" for t p
  proof -
    have "length (v_hist v t p) + (weight (fst ev) + n) < 2 ^ 63" using r by (simp add: service_rel_def room_for_def)
    then show ?thesis using allowed_length [OF v'(1), of t p] by simp
  qed
  then have "service_rel cdc ops n b' v'" using v' r by (simp add: service_rel_def room_for_def)
  then show "\<exists>v'. allowed v ev v' \<and> service_rel cdc ops n b' v'" using v'(1) by blast
qed

section \<open>Durability\<close>

lemma runs_allowed:
  assumes "runs allowed v es v'"
  shows "prefix (v_hist v t p) (v_hist v' t p)"
    and "\<forall>e \<in> set es. \<not> retains t (fst e) \<Longrightarrow> v_starts v' t = v_starts v t"
    and "\<forall>e \<in> set es. \<not> commits slot (fst e) \<Longrightarrow> v_offs v' slot = v_offs v slot"
proof -
  show "prefix (v_hist v t p) (v_hist v' t p)"
    using runs_related [OF assms, of "\<lambda>v v'. prefix (v_hist v t p) (v_hist v' t p)"] allowed_grows
    by (meson prefix_order.dual_order.refl prefix_order.trans)
  show "v_starts v' t = v_starts v t" if "\<forall>e \<in> set es. \<not> retains t (fst e)"
    using runs_related [OF assms, of "\<lambda>v v'. v_starts v' t = v_starts v t"] allowed_starts that by metis
  show "v_offs v' slot = v_offs v slot" if "\<forall>e \<in> set es. \<not> commits slot (fst e)"
    using runs_related [OF assms, of "\<lambda>v v'. v_offs v' slot = v_offs v slot"] allowed_offs that by metis
qed

text \<open>The record of an acknowledged \<open>Produce\<close>, in the specification.\<close>

lemma acknowledged_view:
  assumes a: "allowed v (DoProduce sc req, Produced (Inr off)) v1" and t: "topic_fit (pr_Topic req)"
    and st: "\<And>p. v_starts v (pr_Topic req) p \<le> length (v_hist v (pr_Topic req) p)"
    and r: "runs allowed v1 es v2" "\<forall>e \<in> set es. \<not> retains (pr_Topic req) (fst e)"
  shows "\<exists>p. chosen (pr_Key req) (pr_Partition req) p \<and> v_starts v2 (pr_Topic req) p \<le> unat off
    \<and> unat off < length (v_hist v2 (pr_Topic req) p)
    \<and> v_hist v2 (pr_Topic req) p ! unat off = (pr_Key req, pr_Value req)"
proof -
  let ?t = "pr_Topic req"
  obtain p where p: "chosen (pr_Key req) (pr_Partition req) p"
    "unat off = length (after_entries (sc_before sc) (v_hist v) ?t p)"
    "v1 = v\<lparr>v_hist := adds (Single ?t p (pr_Key req) (pr_Value req)) (after_entries (sc_before sc) (v_hist v))\<rparr>"
    using a by (auto simp: raft_hist_def elim: allowed.cases)
  have h1: "v_hist v1 ?t p = after_entries (sc_before sc) (v_hist v) ?t p @ [(pr_Key req, pr_Value req)]"
    using fit_topic(3) [OF t] by (simp add: p(3) adds_def spec_apply_def Let_def)
  obtain zs where "v_hist v2 ?t p = v_hist v1 ?t p @ zs" using runs_allowed(1) [OF r(1)] by (auto simp: prefix_def)
  moreover have "v_starts v2 ?t p \<le> unat off"
    using runs_allowed(2) [OF r] st [of p] p(2,3) by (simp add: after_entries_added)
  ultimately show ?thesis using p(1,2) h1 by (intro exI [of _ p]) (simp add: nth_append)
qed

lemma acknowledged_stays:
  assumes rel: "service_rel cdc ops (sum_list (map (\<lambda>e. weight (fst e)) (es1 @ (DoProduce sc req, Produced (Inr off)) # es2))) b v"
    and run: "runs (service_step cdc ops) b (es1 @ (DoProduce sc req, Produced (Inr off)) # es2) b'"
    and ad: "\<forall>e \<in> set (es1 @ (DoProduce sc req, Produced (Inr off)) # es2). admitted (fst e)"
    and nr: "\<forall>e \<in> set es2. \<not> retains (pr_Topic req) (fst e)"
  shows "\<exists>p. chosen (pr_Key req) (pr_Partition req) p \<and>
    fst (Consume cdc \<lparr>cr_Topic = pr_Topic req, cr_Partition = Some (word_of_int p), cr_Offset = off\<rparr> b')
      = Inr (off, pr_Key req, pr_Value req)"
proof -
  let ?t = "pr_Topic req"
  have t: "topic_fit ?t" using ad by simp
  obtain b1 where r1: "runs (service_step cdc ops) b es1 b1"
    and r2: "runs (service_step cdc ops) b1 ((DoProduce sc req, Produced (Inr off)) # es2) b'"
    using run by (auto simp: runs_append)
  obtain v1 where v1: "service_rel cdc ops (sum_list (map (\<lambda>e. weight (fst e)) ((DoProduce sc req, Produced (Inr off)) # es2))) b1 v1"
    using srv.runs_simulate [OF r1, of "sum_list (map (\<lambda>e. weight (fst e)) ((DoProduce sc req, Produced (Inr off)) # es2))" v]
      rel ad by auto
  then obtain v' where v': "runs allowed v1 ((DoProduce sc req, Produced (Inr off)) # es2) v'" "service_rel cdc ops 0 b' v'"
    using srv.runs_simulate [OF r2, of 0 v1] ad by auto
  obtain v2 where v2: "allowed v1 (DoProduce sc req, Produced (Inr off)) v2" "runs allowed v2 es2 v'"
    using v'(1) by auto
  have "v_starts v1 ?t p \<le> length (v_hist v1 ?t p)" for p
    using v1 by (simp add: service_rel_def serves_def logs_show_def)
  from acknowledged_view [OF v2(1) t this v2(2) nr] obtain p
    where p: "chosen (pr_Key req) (pr_Partition req) p" "v_starts v' ?t p \<le> unat off"
      "unat off < length (v_hist v' ?t p)" "v_hist v' ?t p ! unat off = (pr_Key req, pr_Value req)" by blast
  let ?req = "\<lparr>cr_Topic = ?t, cr_Partition = Some (word_of_int p), cr_Offset = off\<rparr>"
  obtain r b2 where c: "Consume cdc ?req b' = (r, b2)" by fastforce
  have pp: "in_range p" "sint (word_of_int p :: i32) = p"
    using p(1) by (auto simp: chosen_def in_range_def defaultNumPartitions_def sint_sbintrunc' signed_take_bit_int_eq_self)
  have "allowed v' (DoConsume ?req, Consumed r) v'"
    using Consume_serves(1) [of cdc ops b' v' ?req r b2] v'(2) c t by (simp add: service_rel_def topic_fit_def)
  then have "r = Inr (off, pr_Key req, pr_Value req)"
    using p pp by (auto simp: part_of_def elim: allowed.cases)
  then show ?thesis using p(1) c by auto
qed

text \<open>A committed offset is what the group gets back, whatever happens to the broker in between.\<close>

lemma committed_stays:
  assumes rel: "service_rel cdc ops (sum_list (map (\<lambda>e. weight (fst e)) (es1 @ (DoCommit req, Committed (Inr ())) # es2))) b v"
    and run: "runs (service_step cdc ops) b (es1 @ (DoCommit req, Committed (Inr ())) # es2) b'"
    and ad: "\<forall>e \<in> set (es1 @ (DoCommit req, Committed (Inr ())) # es2). admitted (fst e)"
    and nc: "\<forall>e \<in> set es2. \<not> commits (offset_slot req) (fst e)"
    and pl: "plain (or_GroupId req)" "plain (or_Topic req)"
  shows "FetchOffset req b' = Inr (or_Offset req)"
proof -
  obtain v' where v': "runs allowed v (es1 @ (DoCommit req, Committed (Inr ())) # es2) v'" "service_rel cdc ops 0 b' v'"
    using srv.runs_simulate [OF run, of 0 v] rel ad by auto
  then obtain v1 v2 where v2: "allowed v1 (DoCommit req, Committed (Inr ())) v2" "runs allowed v2 es2 v'"
    by (auto simp: runs_append)
  then have "offset_valid req" "v_offs v2 (offset_slot req) = or_Offset req" by (auto elim: allowed.cases)
  moreover have "v_offs v' (offset_slot req) = v_offs v2 (offset_slot req)" by (rule runs_allowed(3) [OF v2(2) nc])
  moreover have "allowed v' (DoFetch req, Fetched (FetchOffset req b')) v'"
    using FetchOffset_serves [of cdc ops b' v' req] v'(2) pl by (simp add: service_rel_def)
  ultimately show ?thesis by (auto elim: allowed.cases)
qed

end
