(* ===== verification/Tls.thy ===== *)
theory Tls
  imports Prelude
begin

text \<open>
  The TLS configurations of \<open>src/internal/tls/tls.go\<close>. Reading and parsing certificates are parameters.
\<close>

section \<open>TLS configurations\<close>

text \<open>\<open>tls.LoadX509KeyPair\<close>, \<open>os.ReadFile\<close>, and a new pool with \<open>AppendCertsFromPEM\<close>.\<close>

record ('cert, 'pool) pki =
  pki_LoadKeyPair :: "string \<Rightarrow> string \<Rightarrow> 'cert res"
  pki_ReadFile :: "string \<Rightarrow> bytes res"
  pki_Pool :: "bytes \<Rightarrow> 'pool option"

record ('cert, 'pool) tls_config =
  tls_MinVersion :: u16
  tls_Certificate :: 'cert
  tls_ClientCAs :: "'pool option"
  tls_VerifyClient :: bool
  tls_RootCAs :: "'pool option"

definition VersionTLS13 :: u16 where "VersionTLS13 = 0x0304"

definition LoadServerTLSConfig ::
  "('cert, 'pool) pki \<Rightarrow> string \<Rightarrow> string \<Rightarrow> string \<Rightarrow> ('cert, 'pool) tls_config res" where
  "LoadServerTLSConfig pki certFile keyFile caFile =
     (case pki_LoadKeyPair pki certFile keyFile of
        Inl e \<Rightarrow> Inl (Wrap ''load server certificate'' e)
      | Inr cert \<Rightarrow>
      case pki_ReadFile pki caFile of
        Inl e \<Rightarrow> Inl (Wrap ''read CA certificate'' e)
      | Inr caCert \<Rightarrow>
      case pki_Pool pki caCert of
        None \<Rightarrow> Inl (Msg ''parse CA certificate'')
      | Some caPool \<Rightarrow>
          Inr \<lparr>tls_MinVersion = VersionTLS13, tls_Certificate = cert, tls_ClientCAs = Some caPool,
               tls_VerifyClient = True, tls_RootCAs = None\<rparr>)"

definition LoadClientTLSConfig ::
  "('cert, 'pool) pki \<Rightarrow> string \<Rightarrow> string \<Rightarrow> string \<Rightarrow> ('cert, 'pool) tls_config res" where
  "LoadClientTLSConfig pki certFile keyFile caFile =
     (case pki_LoadKeyPair pki certFile keyFile of
        Inl e \<Rightarrow> Inl (Wrap ''load client certificate'' e)
      | Inr cert \<Rightarrow>
      case pki_ReadFile pki caFile of
        Inl e \<Rightarrow> Inl (Wrap ''read CA certificate'' e)
      | Inr caCert \<Rightarrow>
      case pki_Pool pki caCert of
        None \<Rightarrow> Inl (Msg ''parse CA certificate'')
      | Some caPool \<Rightarrow>
          Inr \<lparr>tls_MinVersion = VersionTLS13, tls_Certificate = cert, tls_ClientCAs = None,
               tls_VerifyClient = False, tls_RootCAs = Some caPool\<rparr>)"

section \<open>What a loaded configuration asks for\<close>

lemma LoadServerTLSConfig_ok:
  assumes "LoadServerTLSConfig pki c k a = Inr config"
  shows "tls_MinVersion config = VersionTLS13" and "tls_VerifyClient config" and "tls_ClientCAs config \<noteq> None"
    and "pki_LoadKeyPair pki c k = Inr (tls_Certificate config)"
    and "\<exists>pem. pki_ReadFile pki a = Inr pem \<and> pki_Pool pki pem = tls_ClientCAs config"
  using assms by (auto simp: LoadServerTLSConfig_def split: sum.splits option.splits)

lemma LoadClientTLSConfig_ok:
  assumes "LoadClientTLSConfig pki c k a = Inr config"
  shows "tls_MinVersion config = VersionTLS13" and "tls_RootCAs config \<noteq> None"
    and "pki_LoadKeyPair pki c k = Inr (tls_Certificate config)"
    and "\<exists>pem. pki_ReadFile pki a = Inr pem \<and> pki_Pool pki pem = tls_RootCAs config"
  using assms by (auto simp: LoadClientTLSConfig_def split: sum.splits option.splits)

text \<open>One configuration loads exactly when the other does.\<close>

lemma Load_both: "is_ok (LoadClientTLSConfig pki c k a) = is_ok (LoadServerTLSConfig pki c k a)"
  by (simp add: LoadServerTLSConfig_def LoadClientTLSConfig_def split: sum.splits option.splits)

end
