(* ===== verification/Flags.thy ===== *)
theory Flags
  imports Prelude
begin

text \<open>
  What \<open>src/cmd/cli/main.go\<close> uses of Go's \<open>flag\<close> package: a set of named flags with defaults and
  \<open>FlagSet.Parse\<close> under \<open>ContinueOnError\<close>, with the numbers of \<open>strconv\<close> in base 0 (a prefix chooses the
  base, underscores may separate digits). The commands ignore the arguments after the flags.
\<close>

section \<open>Numbers with a prefix\<close>

definition lower :: "char \<Rightarrow> char" where
  "lower c = (let k = of_char c :: nat in if (k div 32) mod 2 = 1 then c else char_of (k + 32))"

definition digit_any :: "char \<Rightarrow> nat option" where
  "digit_any c =
     (case digit_val c of
        Some k \<Rightarrow> Some k
      | None \<Rightarrow> let k = of_char (lower c) in if 97 \<le> k \<and> k \<le> 122 then Some (k - 97 + 10) else None)"

fun parse_base :: "nat \<Rightarrow> nat \<Rightarrow> string \<Rightarrow> nat option" where
  "parse_base base acc [] = Some acc"
| "parse_base base acc (c # cs) =
     (if c = CHR ''_'' then parse_base base acc cs
      else case digit_any c of
        None \<Rightarrow> None
      | Some k \<Rightarrow> if k \<ge> base then None else parse_base base (acc * base + k) cs)"

text \<open>\<open>underscoreOK\<close>: the last character seen is the start, a digit, an underscore or another one.\<close>

datatype saw = SawStart | SawDigit | SawUnderscore | SawOther

fun underscore_scan :: "bool \<Rightarrow> saw \<Rightarrow> string \<Rightarrow> bool" where
  "underscore_scan hex s [] = (s \<noteq> SawUnderscore)"
| "underscore_scan hex s (c # cs) =
     (if digit_val c \<noteq> None \<or> hex \<and> lower c \<in> set ''abcdef'' then underscore_scan hex SawDigit cs
      else if c = CHR ''_'' then s = SawDigit \<and> underscore_scan hex SawUnderscore cs
      else s \<noteq> SawUnderscore \<and> underscore_scan hex SawOther cs)"

definition underscoreOK :: "string \<Rightarrow> bool" where
  "underscoreOK s =
     (if length s \<ge> 2 \<and> hd s = CHR ''0'' \<and> lower (s ! 1) \<in> set ''box''
      then underscore_scan (lower (s ! 1) = CHR ''x'') SawDigit (drop 2 s)
      else underscore_scan False SawStart s)"

text \<open>\<open>strconv.ParseUint(s, 0, 64)\<close> and \<open>strconv.ParseInt(s, 0, 64)\<close>.\<close>

definition number_base :: "string \<Rightarrow> nat \<times> string" where
  "number_base s =
     (if hd s = CHR ''0'' then
        (if length s \<ge> 3 \<and> lower (s ! 1) = CHR ''b'' then (2, drop 2 s)
         else if length s \<ge> 3 \<and> lower (s ! 1) = CHR ''o'' then (8, drop 2 s)
         else if length s \<ge> 3 \<and> lower (s ! 1) = CHR ''x'' then (16, drop 2 s)
         else (8, drop 1 s))
      else (10, s))"

definition ParseUint0 :: "string \<Rightarrow> nat option" where
  "ParseUint0 s =
     (if s = [] then None
      else case number_base s of (base, digits) \<Rightarrow>
        (case parse_base base 0 digits of
           None \<Rightarrow> None
         | Some n \<Rightarrow>
             if n \<ge> 2 ^ 64 \<or> CHR ''_'' \<in> set digits \<and> \<not> underscoreOK s then None else Some n))"

definition ParseInt0 :: "string \<Rightarrow> int option" where
  "ParseInt0 s =
     (let neg = (s \<noteq> [] \<and> hd s = CHR ''-'');
          u = (if s \<noteq> [] \<and> (hd s = CHR ''-'' \<or> hd s = CHR ''+'') then tl s else s)
      in case ParseUint0 u of
           None \<Rightarrow> None
         | Some n \<Rightarrow>
             if neg then (if n \<le> 2 ^ 63 then Some (- int n) else None)
             else (if n < 2 ^ 63 then Some (int n) else None))"

definition ParseBool :: "string \<Rightarrow> bool option" where
  "ParseBool s =
     (if s \<in> set [''1'', ''t'', ''T'', ''true'', ''TRUE'', ''True''] then Some True
      else if s \<in> set [''0'', ''f'', ''F'', ''false'', ''FALSE'', ''False''] then Some False
      else None)"

section \<open>Parsing flags\<close>

datatype flag_value = FString string | FInt int | FUint u64 | FBool bool

type_synonym flags = "(string \<times> flag_value) list"

fun flag_Set :: "flag_value \<Rightarrow> string \<Rightarrow> flag_value option" where
  "flag_Set (FString _) s = Some (FString s)"
| "flag_Set (FInt _) s = map_option FInt (ParseInt0 s)"
| "flag_Set (FUint _) s = map_option (\<lambda>n. FUint (word_of_nat n)) (ParseUint0 s)"
| "flag_Set (FBool _) s = map_option FBool (ParseBool s)"

fun IsBoolFlag :: "flag_value \<Rightarrow> bool" where
  "IsBoolFlag (FBool _) = True"
| "IsBoolFlag _ = False"

datatype flag_arg = NoFlag | EndOfFlags | BadSyntax | Flag string "string option"

definition read_arg :: "string \<Rightarrow> flag_arg" where
  "read_arg s =
     (if length s < 2 \<or> hd s \<noteq> CHR ''-'' then NoFlag
      else if s = ''--'' then EndOfFlags
      else let name = (if s ! 1 = CHR ''-'' then drop 2 s else drop 1 s)
           in if name = [] \<or> hd name = CHR ''-'' \<or> hd name = CHR ''='' then BadSyntax
              else Flag (takeWhile (\<lambda>c. c \<noteq> CHR ''='') name)
                (if CHR ''='' \<in> set name then Some (tl (dropWhile (\<lambda>c. c \<noteq> CHR ''='') name)) else None))"

fun FlagSet_Parse :: "flags \<Rightarrow> string list \<Rightarrow> flags res" where
  "FlagSet_Parse fs [] = Inr fs"
| "FlagSet_Parse fs (s # rest) =
     (case read_arg s of
        NoFlag \<Rightarrow> Inr fs
      | EndOfFlags \<Rightarrow> Inr fs
      | BadSyntax \<Rightarrow> Inl (Msg ''bad flag syntax'')
      | Flag name value \<Rightarrow>
      case map_of fs name of
        None \<Rightarrow> Inl (Msg (if name = ''help'' \<or> name = ''h'' then ''flag: help requested''
                         else ''flag provided but not defined''))
      | Some old \<Rightarrow>
      if IsBoolFlag old then
        (case flag_Set old (case value of None \<Rightarrow> ''true'' | Some v \<Rightarrow> v) of
           None \<Rightarrow> Inl (Msg ''invalid boolean value'')
         | Some new \<Rightarrow> FlagSet_Parse (AList.update name new fs) rest)
      else case value of
        Some v \<Rightarrow>
          (case flag_Set old v of
             None \<Rightarrow> Inl (Msg ''invalid value'')
           | Some new \<Rightarrow> FlagSet_Parse (AList.update name new fs) rest)
      | None \<Rightarrow>
      case rest of
        [] \<Rightarrow> Inl (Msg ''flag needs an argument'')
      | v # rest' \<Rightarrow>
          (case flag_Set old v of
             None \<Rightarrow> Inl (Msg ''invalid value'')
           | Some new \<Rightarrow> FlagSet_Parse (AList.update name new fs) rest'))"

text \<open>Reading a flag that was declared with the type that is asked for.\<close>

definition flag_string :: "flags \<Rightarrow> string \<Rightarrow> string" where
  "flag_string fs name = (case map_of fs name of Some (FString s) \<Rightarrow> s | _ \<Rightarrow> [])"

definition flag_int :: "flags \<Rightarrow> string \<Rightarrow> int" where
  "flag_int fs name = (case map_of fs name of Some (FInt i) \<Rightarrow> i | _ \<Rightarrow> 0)"

definition flag_uint :: "flags \<Rightarrow> string \<Rightarrow> u64" where
  "flag_uint fs name = (case map_of fs name of Some (FUint u) \<Rightarrow> u | _ \<Rightarrow> 0)"

definition flag_bool :: "flags \<Rightarrow> string \<Rightarrow> bool" where
  "flag_bool fs name = (case map_of fs name of Some (FBool b) \<Rightarrow> b | _ \<Rightarrow> False)"

section \<open>Decimal numbers are read back\<close>

lemma digit_char_not_underscore: "k < 10 \<Longrightarrow> digit_char k \<noteq> CHR ''_''"
proof
  assume "k < 10" "digit_char k = CHR ''_''"
  then have "digit_val (CHR ''_'') = Some k" using digit_val_digit_char [of k] by simp
  then show False by (simp add: digit_val_def)
qed

lemma digit_any_digit: "k < 10 \<Longrightarrow> digit_any (digit_char k) = Some k"
  by (simp add: digit_any_def digit_val_digit_char)

lemma parse_base_append:
  "parse_base b acc (xs @ ys) = (case parse_base b acc xs of None \<Rightarrow> None | Some a \<Rightarrow> parse_base b a ys)"
  by (induction b acc xs rule: parse_base.induct) (auto split: option.splits)

lemma parse_base_format: "parse_base 10 0 (format_uint n) = Some n"
proof (induction n rule: format_uint.induct)
  case (1 n)
  then show ?case
    by (cases "n < 10")
      (simp_all add: format_uint.simps [of n] digit_any_digit digit_char_not_underscore parse_base_append)
qed

lemma format_uint_digits: "c \<in> set (format_uint n) \<Longrightarrow> \<exists>k < 10. c = digit_char k"
proof (induction n rule: format_uint.induct)
  case (1 n)
  show ?case
  proof (cases "n < 10")
    case True
    then show ?thesis using 1(2) by (subst (asm) format_uint.simps) auto
  next
    case False
    then have "c \<in> set (format_uint (n div 10)) \<or> c = digit_char (n mod 10)"
      using 1(2) by (subst (asm) format_uint.simps) auto
    moreover have "n mod 10 < 10" by simp
    ultimately show ?thesis using 1(1) [OF False] by blast
  qed
qed

text \<open>A decimal number does not begin with a zero, except zero itself.\<close>

lemma format_uint_hd: "0 < n \<Longrightarrow> \<exists>k. 0 < k \<and> k < 10 \<and> hd (format_uint n) = digit_char k"
proof (induction n rule: format_uint.induct)
  case (1 n)
  show ?case
  proof (cases "n < 10")
    case True
    then show ?thesis using 1(2) by (intro exI [of _ n]) (simp add: format_uint.simps [of n])
  next
    case False
    then have "hd (format_uint n) = hd (format_uint (n div 10))"
      by (subst format_uint.simps) simp
    then show ?thesis using 1(1) [OF False] False by simp
  qed
qed

lemma digit_char_inject: "j < 10 \<Longrightarrow> k < 10 \<Longrightarrow> digit_char j = digit_char k \<longleftrightarrow> j = k"
  by (metis digit_val_digit_char option.inject)

lemma digit_char_0: "digit_char 0 = CHR ''0''"
  by code_simp

lemma ParseUint0_format: "n < 2 ^ 64 \<Longrightarrow> ParseUint0 (format_uint n) = Some n"
proof (cases "n = 0")
  case True
  then show ?thesis
    by (simp add: ParseUint0_def number_base_def format_uint.simps [of 0] digit_char_0)
next
  case False
  assume n: "n < 2 ^ 64"
  obtain k where k: "0 < k" "k < 10" "hd (format_uint n) = digit_char k" using format_uint_hd False by auto
  have "hd (format_uint n) \<noteq> CHR ''0''" using k digit_char_inject [of k 0] by (simp add: digit_char_0)
  moreover have "CHR ''_'' \<notin> set (format_uint n)"
    using format_uint_digits [of "CHR ''_''" n] digit_char_not_underscore by metis
  ultimately show ?thesis using n by (simp add: ParseUint0_def number_base_def parse_base_format)
qed

lemma digit_char_not_sign: "k < 10 \<Longrightarrow> digit_char k \<noteq> CHR ''-''" "k < 10 \<Longrightarrow> digit_char k \<noteq> CHR ''+''"
  by (auto dest!: arg_cong [of "digit_char k" _ digit_val] simp: digit_val_digit_char) (auto simp: digit_val_def)

lemma format_uint_hd_not_sign: "hd (format_uint n) \<noteq> CHR ''-''" "hd (format_uint n) \<noteq> CHR ''+''"
  using format_uint_digits [of "hd (format_uint n)" n] digit_char_not_sign by (metis format_uint_not_Nil list.set_sel(1))+

lemma ParseInt0_format:
  assumes "n < 2 ^ 63"
  shows "ParseInt0 (format_uint n) = Some (int n)" and "ParseInt0 (CHR ''-'' # format_uint n) = Some (- int n)"
proof -
  have "ParseUint0 (format_uint n) = Some n" using assms by (intro ParseUint0_format) simp
  then show "ParseInt0 (format_uint n) = Some (int n)" "ParseInt0 (CHR ''-'' # format_uint n) = Some (- int n)"
    using assms by (simp_all add: ParseInt0_def format_uint_hd_not_sign)
qed

section \<open>Flags that were written out are read back\<close>

text \<open>A name that a flag can be written with.\<close>

definition flag_name :: "string \<Rightarrow> bool" where
  "flag_name n \<longleftrightarrow> n \<noteq> [] \<and> hd n \<noteq> CHR ''-'' \<and> CHR ''='' \<notin> set n"

lemma read_arg_name:
  assumes "flag_name n"
  shows "read_arg (''--'' @ n) = Flag n None"
proof -
  have "CHR ''='' \<notin> set n" "n \<noteq> []" "hd n \<noteq> CHR ''-''" using assms by (auto simp: flag_name_def)
  moreover have "hd n \<noteq> CHR ''=''" using calculation(1,2) by (metis list.set_sel(1))
  moreover have "takeWhile (\<lambda>c. c \<noteq> CHR ''='') n = n" using calculation(1) by (auto simp: takeWhile_eq_all_conv)
  ultimately show ?thesis by (simp add: read_arg_def)
qed

text \<open>The arguments \<open>--name value\<close> for a list of settings.\<close>

definition write_flags :: "(string \<times> string) list \<Rightarrow> string list" where
  "write_flags kvs = concat (map (\<lambda>(n, v). [''--'' @ n, v]) kvs)"

fun set_flags :: "flags \<Rightarrow> (string \<times> string) list \<Rightarrow> flags option" where
  "set_flags fs [] = Some fs"
| "set_flags fs ((n, v) # kvs) =
     (case map_of fs n of
        None \<Rightarrow> None
      | Some old \<Rightarrow>
          (case flag_Set old v of None \<Rightarrow> None | Some new \<Rightarrow> set_flags (AList.update n new fs) kvs))"

definition settable :: "flags \<Rightarrow> (string \<times> string) list \<Rightarrow> bool" where
  "settable fs kvs \<longleftrightarrow> (\<forall>(n, v) \<in> set kvs. flag_name n \<and> (\<forall>b. map_of fs n \<noteq> Some (FBool b)))"

lemma flag_Set_kind: "flag_Set old v = Some new \<Longrightarrow> IsBoolFlag new = IsBoolFlag old"
  by (cases old) auto

lemma settable_update:
  "settable fs kvs \<Longrightarrow> \<not> IsBoolFlag new \<Longrightarrow> settable (AList.update n new fs) kvs"
  by (fastforce simp: settable_def update_conv split: if_splits)

lemma Parse_write_flags:
  "settable fs kvs \<Longrightarrow> set_flags fs kvs = Some fs' \<Longrightarrow>
     FlagSet_Parse fs (write_flags kvs @ rest) = FlagSet_Parse fs' rest"
proof (induction kvs arbitrary: fs)
  case Nil
  then show ?case by (simp add: write_flags_def)
next
  case (Cons kv kvs)
  obtain n v where kv: "kv = (n, v)" by fastforce
  obtain old new where o: "map_of fs n = Some old" "flag_Set old v = Some new"
    "set_flags (AList.update n new fs) kvs = Some fs'"
    using Cons.prems(2) kv by (auto split: option.splits)
  have n: "flag_name n" and b: "\<not> IsBoolFlag old"
    using Cons.prems(1) kv o(1) by (auto simp: settable_def elim!: IsBoolFlag.elims)
  have "settable fs kvs" using Cons.prems(1) by (simp add: settable_def)
  then have "settable (AList.update n new fs) kvs" using settable_update flag_Set_kind [OF o(2)] b by blast
  then show ?case
    using Cons.IH [OF _ o(3)] kv o(1,2) read_arg_name [OF n] b by (simp add: write_flags_def)
qed

end
