(* ===== verification/Cli.thy ===== *)
theory Cli
  imports BrokerPublish Tls Flags
begin

text \<open>
  \<open>src/cmd/cli/main.go\<close>: the \<open>produce\<close>, \<open>consume\<close> and \<open>consume-group\<close> commands, from
  their arguments to what they print. The generated gRPC client is the record \<open>client\<close> of the calls it
  makes over a state of the world; dialling is an argument.
\<close>

section \<open>Commands\<close>

datatype ('cert, 'pool) dial_option = Insecure | MutualTLS "('cert, 'pool) tls_config"

definition grpcDialOptions ::
  "('cert, 'pool) pki \<Rightarrow> string \<Rightarrow> string \<Rightarrow> string \<Rightarrow> ('cert, 'pool) dial_option res" where
  "grpcDialOptions pki certFile keyFile caFile =
     (if certFile = [] \<and> keyFile = [] \<and> caFile = [] then Inr Insecure
      else if certFile = [] \<or> keyFile = [] \<or> caFile = []
      then Inl (Msg ''cert, key, and ca must either all be provided or all be omitted'')
      else case LoadClientTLSConfig pki certFile keyFile caFile of Inl e \<Rightarrow> Inl e | Inr config \<Rightarrow> Inr (MutualTLS config))"

text \<open>The flags of the three commands with their defaults.\<close>

definition tls_flags :: flags where
  "tls_flags = [(''cert'', FString []), (''key'', FString []), (''ca'', FString [])]"

definition produce_flags :: flags where
  "produce_flags = [(''addr'', FString ''localhost:9080''), (''topic'', FString ''default''),
     (''partition'', FInt (-1)), (''msg'', FString [])] @ tls_flags"

definition consume_flags :: flags where
  "consume_flags = [(''addr'', FString ''localhost:9080''), (''topic'', FString ''default''),
     (''partition'', FInt 0), (''offset'', FUint 0)] @ tls_flags"

definition consume_group_flags :: flags where
  "consume_group_flags = [(''addr'', FString ''localhost:9080''), (''group'', FString []),
     (''topic'', FString ''default''), (''partition'', FInt 0), (''follow'', FBool False)] @ tls_flags"

record 'w client =
  cl_produce :: "ProduceRequest \<Rightarrow> 'w \<Rightarrow> u64 res \<times> 'w"
  cl_consume :: "ConsumeRequest \<Rightarrow> 'w \<Rightarrow> (u64 \<times> bytes \<times> bytes) res \<times> 'w"
  cl_fetch :: "OffsetRequest \<Rightarrow> 'w \<Rightarrow> u64 res \<times> 'w"
  cl_commit :: "OffsetRequest \<Rightarrow> 'w \<Rightarrow> unit res \<times> 'w"

text \<open>\<open>dial\<close> stands for \<open>grpc.Dial\<close> with the address and the options that were computed.\<close>

definition cli_connect ::
  "('cert, 'pool) pki \<Rightarrow> (string \<Rightarrow> ('cert, 'pool) dial_option \<Rightarrow> 'w client res) \<Rightarrow> flags \<Rightarrow> 'w client res" where
  "cli_connect pki dial fs =
     (case grpcDialOptions pki (flag_string fs ''cert'') (flag_string fs ''key'') (flag_string fs ''ca'') of
        Inl e \<Rightarrow> Inl e
      | Inr opts \<Rightarrow> dial (flag_string fs ''addr'') opts)"

definition cli_produce ::
  "('cert, 'pool) pki \<Rightarrow> (string \<Rightarrow> ('cert, 'pool) dial_option \<Rightarrow> 'w client res) \<Rightarrow> string list
     \<Rightarrow> 'w \<Rightarrow> u64 res \<times> 'w" where
  "cli_produce pki dial args w =
     (case FlagSet_Parse produce_flags args of
        Inl e \<Rightarrow> (Inl e, w)
      | Inr fs \<Rightarrow>
      let msg = flag_string fs ''msg''; part = flag_int fs ''partition''
      in if msg = [] then (Inl (Msg ''--msg is required''), w)
         else if part \<ge> 3 then (Inl (Msg ''partition must be between 0 and 2''), w)
         else case cli_connect pki dial fs of
           Inl e \<Rightarrow> (Inl e, w)
         | Inr cl \<Rightarrow>
             cl_produce cl \<lparr>pr_Topic = flag_string fs ''topic'', pr_Key = bytes_of_string ''msg'',
               pr_Value = bytes_of_string msg,
               pr_Partition = (if part \<ge> 0 then Some (word_of_int part) else None)\<rparr> w)"

definition cli_consume ::
  "('cert, 'pool) pki \<Rightarrow> (string \<Rightarrow> ('cert, 'pool) dial_option \<Rightarrow> 'w client res) \<Rightarrow> string list
     \<Rightarrow> 'w \<Rightarrow> (bytes \<times> bytes) res \<times> 'w" where
  "cli_consume pki dial args w =
     (case FlagSet_Parse consume_flags args of
        Inl e \<Rightarrow> (Inl e, w)
      | Inr fs \<Rightarrow>
      let part = flag_int fs ''partition''
      in if part < 0 \<or> part \<ge> 3 then (Inl (Msg ''partition must be between 0 and 2''), w)
         else case cli_connect pki dial fs of
           Inl e \<Rightarrow> (Inl e, w)
         | Inr cl \<Rightarrow>
         case cl_consume cl \<lparr>cr_Topic = flag_string fs ''topic'', cr_Partition = Some (word_of_int part),
                cr_Offset = flag_uint fs ''offset''\<rparr> w of
           (Inl e, w') \<Rightarrow> (Inl e, w')
         | (Inr (_, key, val), w') \<Rightarrow> (Inr (key, val), w'))"

text \<open>One round of the loop of \<open>consumeGroup\<close>; \<open>out\<close> is what has been printed.\<close>

datatype round = Return "unit res" | Again

definition group_round ::
  "'w client \<Rightarrow> bool \<Rightarrow> string \<Rightarrow> string \<Rightarrow> i32 \<Rightarrow> 'w \<Rightarrow> history \<Rightarrow> round \<times> 'w \<times> history" where
  "group_round cl follow grp topic part w out =
     (let retry = (\<lambda>e. if follow then Again else Return (Inl e))
      in case cl_fetch cl \<lparr>or_GroupId = grp, or_Topic = topic, or_Partition = part, or_Offset = 0\<rparr> w of
           (Inl e, w1) \<Rightarrow> (retry e, w1, out)
         | (Inr offset, w1) \<Rightarrow>
         case cl_consume cl \<lparr>cr_Topic = topic, cr_Partition = Some part, cr_Offset = offset\<rparr> w1 of
           (Inl e, w2) \<Rightarrow> (retry e, w2, out)
         | (Inr (moff, key, val), w2) \<Rightarrow>
         case cl_commit cl \<lparr>or_GroupId = grp, or_Topic = topic, or_Partition = part, or_Offset = moff + 1\<rparr> w2 of
           (Inl e, w3) \<Rightarrow> (retry e, w3, out @ [(key, val)])
         | (Inr _, w3) \<Rightarrow> (if follow then Again else Return (Inr ()), w3, out @ [(key, val)]))"

text \<open>At most \<open>n\<close> rounds: \<open>None\<close> while the loop is still running.\<close>

fun group_rounds ::
  "'w client \<Rightarrow> bool \<Rightarrow> string \<Rightarrow> string \<Rightarrow> i32 \<Rightarrow> nat \<Rightarrow> 'w \<Rightarrow> history \<Rightarrow> unit res option \<times> 'w \<times> history"
where
  "group_rounds cl follow grp topic part 0 w out = (None, w, out)"
| "group_rounds cl follow grp topic part (Suc n) w out =
     (case group_round cl follow grp topic part w out of
        (Return r, w', out') \<Rightarrow> (Some r, w', out')
      | (Again, w', out') \<Rightarrow> group_rounds cl follow grp topic part n w' out')"

definition cli_consume_group ::
  "('cert, 'pool) pki \<Rightarrow> (string \<Rightarrow> ('cert, 'pool) dial_option \<Rightarrow> 'w client res) \<Rightarrow> string list
     \<Rightarrow> nat \<Rightarrow> 'w \<Rightarrow> unit res option \<times> 'w \<times> history" where
  "cli_consume_group pki dial args n w =
     (case FlagSet_Parse consume_group_flags args of
        Inl e \<Rightarrow> (Some (Inl e), w, [])
      | Inr fs \<Rightarrow>
      let grp = flag_string fs ''group''; part = flag_int fs ''partition''
      in if grp = [] then (Some (Inl (Msg ''--group is required'')), w, [])
         else if part < 0 \<or> part \<ge> 3 then (Some (Inl (Msg ''partition must be between 0 and 2'')), w, [])
         else case cli_connect pki dial fs of
           Inl e \<Rightarrow> (Some (Inl e), w, [])
         | Inr cl \<Rightarrow>
             group_rounds cl (flag_bool fs ''follow'') grp (flag_string fs ''topic'') (word_of_int part) n w [])"

text \<open>
  \<open>main\<close>: the exit code with the error that is printed (\<open>None\<close> while \<open>consume-group\<close> is still running
  after \<open>n\<close> rounds), and what has been written to standard output besides the usage.
\<close>

datatype printed = PrintOffset u64 | PrintMessage bytes bytes

definition exit_code :: "'a res \<Rightarrow> nat \<times> error option" where
  "exit_code r = (case r of Inl e \<Rightarrow> (1, Some e) | Inr _ \<Rightarrow> (0, None))"

definition cli_main ::
  "('cert, 'pool) pki \<Rightarrow> (string \<Rightarrow> ('cert, 'pool) dial_option \<Rightarrow> 'w client res) \<Rightarrow> nat \<Rightarrow> string list
     \<Rightarrow> 'w \<Rightarrow> (nat \<times> error option) option \<times> printed list \<times> 'w" where
  "cli_main pki dial n args w =
     (case drop 1 args of
        [] \<Rightarrow> (Some (1, None), [], w)
      | cmd # rest \<Rightarrow>
          if cmd = ''produce'' then
            (case cli_produce pki dial rest w of
               (r, w') \<Rightarrow> (Some (exit_code r), (case r of Inl _ \<Rightarrow> [] | Inr offset \<Rightarrow> [PrintOffset offset]), w'))
          else if cmd = ''consume'' then
            (case cli_consume pki dial rest w of
               (r, w') \<Rightarrow> (Some (exit_code r), (case r of Inl _ \<Rightarrow> [] | Inr (k, v) \<Rightarrow> [PrintMessage k v]), w'))
          else if cmd = ''consume-group'' then
            (case cli_consume_group pki dial rest n w of
               (r, w', out) \<Rightarrow> (map_option exit_code r, map (\<lambda>(k, v). PrintMessage k v) out, w'))
          else (Some (1, None), [], w))"

section \<open>The loop on its own\<close>

lemma group_round_once: "\<exists>r w' out'. group_round cl False g t p w out = (Return r, w', out')"
  by (simp add: group_round_def Let_def split: prod.splits sum.splits)

lemma group_rounds_follow: "fst (group_rounds cl True g t p n w out) = None"
proof (induction n arbitrary: w out)
  case (Suc n)
  have "fst (group_round cl True g t p w out) = Again"
    by (simp add: group_round_def Let_def split: prod.splits sum.splits)
  then show ?case using Suc by (auto split: prod.splits)
qed simp

section \<open>The contract of the offset service\<close>

text \<open>
  \<open>view w c hs\<close>: in state \<open>w\<close> the group's committed offset is \<open>c\<close> and the partition's history is
  \<open>hs\<close>. Fetching returns it, consuming returns the entry at an offset within the history, and a
  commit moves it.
\<close>

locale offset_service =
  fixes cl :: "'w client" and g :: string and t :: string and p :: i32
    and view :: "'w \<Rightarrow> nat \<Rightarrow> history \<Rightarrow> bool"
  assumes view_small: "view w c hs \<Longrightarrow> c \<le> length hs \<and> length hs < 2 ^ 64"
    and fetch_ok: "view w c hs \<Longrightarrow>
      \<exists>w'. cl_fetch cl \<lparr>or_GroupId = g, or_Topic = t, or_Partition = p, or_Offset = 0\<rparr> w
        = (Inr (word_of_nat c), w') \<and> view w' c hs"
    and consume_ok: "view w c hs \<Longrightarrow> c < length hs \<Longrightarrow>
      \<exists>w'. cl_consume cl \<lparr>cr_Topic = t, cr_Partition = Some p, cr_Offset = word_of_nat c\<rparr> w
        = (Inr (word_of_nat c, hs ! c), w') \<and> view w' c hs"
    and consume_end: "view w (length hs) hs \<Longrightarrow>
      \<exists>e w'. cl_consume cl \<lparr>cr_Topic = t, cr_Partition = Some p, cr_Offset = word_of_nat (length hs)\<rparr> w
        = (Inl e, w') \<and> view w' (length hs) hs"
    and commit_ok: "view w c hs \<Longrightarrow> c < length hs \<Longrightarrow>
      \<exists>w'. cl_commit cl \<lparr>or_GroupId = g, or_Topic = t, or_Partition = p, or_Offset = word_of_nat c + 1\<rparr> w
        = (Inr (), w') \<and> view w' (Suc c) hs"
begin

lemma round_delivers:
  assumes v: "view w c hs" and lt: "c < length hs"
  shows "\<exists>w'. group_round cl True g t p w out = (Again, w', out @ [hs ! c]) \<and> view w' (Suc c) hs"
proof -
  obtain w1 where f: "cl_fetch cl \<lparr>or_GroupId = g, or_Topic = t, or_Partition = p, or_Offset = 0\<rparr> w
      = (Inr (word_of_nat c), w1)" "view w1 c hs" using fetch_ok [OF v] by blast
  obtain w2 where k: "cl_consume cl \<lparr>cr_Topic = t, cr_Partition = Some p, cr_Offset = word_of_nat c\<rparr> w1
      = (Inr (word_of_nat c, hs ! c), w2)" "view w2 c hs" using consume_ok [OF f(2) lt] by blast
  obtain w3 where m: "cl_commit cl \<lparr>or_GroupId = g, or_Topic = t, or_Partition = p, or_Offset = word_of_nat c + 1\<rparr> w2
      = (Inr (), w3)" "view w3 (Suc c) hs" using commit_ok [OF k(2) lt] by blast
  obtain a b where ab: "hs ! c = (a, b)" by fastforce
  show ?thesis using f(1) k(1) m ab by (simp add: group_round_def Let_def)
qed

lemma round_idle:
  assumes v: "view w (length hs) hs"
  shows "\<exists>w'. group_round cl True g t p w out = (Again, w', out) \<and> view w' (length hs) hs"
proof -
  obtain w1 where f: "cl_fetch cl \<lparr>or_GroupId = g, or_Topic = t, or_Partition = p, or_Offset = 0\<rparr> w
      = (Inr (word_of_nat (length hs)), w1)" "view w1 (length hs) hs" using fetch_ok [OF v] by blast
  obtain e w2 where k: "cl_consume cl \<lparr>cr_Topic = t, cr_Partition = Some p, cr_Offset = word_of_nat (length hs)\<rparr> w1
      = (Inl e, w2)" "view w2 (length hs) hs" using consume_end [OF f(2)] by blast
  show ?thesis using f(1) k by (simp add: group_round_def Let_def)
qed

text \<open>After \<open>n\<close> rounds the next \<open>n\<close> entries have been printed, once each and in order.\<close>

lemma rounds_deliver:
  "view w c hs \<Longrightarrow> \<exists>w'. group_rounds cl True g t p n w out = (None, w', out @ take n (drop c hs))
     \<and> view w' (c + min n (length hs - c)) hs"
proof (induction n arbitrary: w c out)
  case 0
  then show ?case by simp
next
  case (Suc n)
  show ?case
  proof (cases "c < length hs")
    case True
    obtain w1 where r: "group_round cl True g t p w out = (Again, w1, out @ [hs ! c])" "view w1 (Suc c) hs"
      using round_delivers [OF Suc.prems True] by blast
    have "take (Suc n) (drop c hs) = hs ! c # take n (drop (Suc c) hs)"
      using True by (metis Cons_nth_drop_Suc take_Suc_Cons)
    moreover have m: "c + min (Suc n) (length hs - c) = Suc c + min n (length hs - Suc c)" using True by simp
    ultimately show ?thesis
      using Suc.IH [OF r(2), of "out @ [hs ! c]"] r(1) unfolding m by simp
  next
    case False
    then have c: "c = length hs" using view_small [OF Suc.prems] by simp
    obtain w1 where r: "group_round cl True g t p w out = (Again, w1, out)" "view w1 (length hs) hs"
      using round_idle Suc.prems c by blast
    show ?thesis using Suc.IH [OF r(2), of out] r(1) c by simp
  qed
qed

end

section \<open>The broker as that service\<close>

definition broker_client :: "codec \<Rightarrow> 'db bolt \<Rightarrow> raft_call \<Rightarrow> 'db broker client" where
  "broker_client cdc ops rc =
     \<lparr>cl_produce = Produce cdc rc, cl_consume = Consume cdc,
      cl_fetch = (\<lambda>req b. (FetchOffset req b, b)), cl_commit = CommitOffset ops\<rparr>"

text \<open>The database is up: the bucket exists and updates go through.\<close>

definition bolt_up :: "'db bolt \<Rightarrow> bool" where
  "bolt_up ops \<longleftrightarrow> bolt_ok ops \<and> (\<forall>k v db. fst (bolt_put ops k v db) = None) \<and> (\<forall>db. bolt_bucket ops db)"

definition group_view ::
  "codec \<Rightarrow> 'db bolt \<Rightarrow> string \<Rightarrow> string \<Rightarrow> i32 \<Rightarrow> 'db broker \<Rightarrow> nat \<Rightarrow> history \<Rightarrow> bool" where
  "group_view cdc ops g t p b c hs \<longleftrightarrow>
     (\<exists>h. broker_keeps cdc b h \<and> h t (sint p) = hs) \<and> broker_known b t (sint p)
     \<and> codec_ok cdc \<and> bolt_up ops \<and> cg_inv ops (b_consumerGroups b)
     \<and> g \<noteq> '''' \<and> plain g \<and> plain t \<and> length hs < 2 ^ 64 \<and> c \<le> length hs
     \<and> unat (log_start (fst (partition_log t (sint p) b))) \<le> c
     \<and> cg_FetchOffset g t p (b_consumerGroups b) = word_of_nat c"

lemma broker_keeps_cong:
  "b_logs b' = b_logs b \<Longrightarrow> b_fs b' = b_fs b \<Longrightarrow> b_dataDir b' = b_dataDir b \<Longrightarrow>
     b_topicConfigs b' = b_topicConfigs b \<Longrightarrow> broker_keeps cdc b' h = broker_keeps cdc b h"
  by (simp add: broker_keeps_def partition_keeps_def broker_TopicConfig_def)

lemma partition_log_cong:
  "b_logs b' = b_logs b \<Longrightarrow> b_fs b' = b_fs b \<Longrightarrow> b_dataDir b' = b_dataDir b \<Longrightarrow>
     partition_log t p b' = partition_log t p b"
  by (simp add: partition_log_def Let_def)

lemma group_view_GetPartition:
  assumes v: "group_view cdc ops g t p b c hs" and gp: "GetPartition t (sint p) b = (r, b')"
  shows "group_view cdc ops g t p b' c hs"
proof -
  obtain h where h: "broker_keeps cdc b h" "h t (sint p) = hs" and kn: "broker_known b t (sint p)"
    using v by (auto simp: group_view_def)
  note o = GetPartition_open [OF h(1) kn gp]
  have "safe_topic t" using kn by (simp add: broker_known_def)
  then have "broker_keeps cdc b' h" "broker_known b' t (sint p)"
    using GetPartition_keeps [OF h(1)] gp o(1) by auto
  then show ?thesis using v o(2,3) h(2) by (auto simp: group_view_def)
qed

lemma group_view_cong:
  assumes "group_view cdc ops g t p b c hs" "b_logs b' = b_logs b" "b_fs b' = b_fs b"
    "b_dataDir b' = b_dataDir b" "b_topicConfigs b' = b_topicConfigs b" "b_consumerGroups b' = b_consumerGroups b"
  shows "group_view cdc ops g t p b' c hs"
  using assms broker_keeps_cong [of b' b cdc] partition_log_cong [of b' b t "sint p"]
  by (simp add: group_view_def broker_known_def)

lemma counters_same [simp]:
  "b_logs (count_consumed n b) = b_logs b" "b_fs (count_consumed n b) = b_fs b"
  "b_dataDir (count_consumed n b) = b_dataDir b" "b_topicConfigs (count_consumed n b) = b_topicConfigs b"
  "b_consumerGroups (count_consumed n b) = b_consumerGroups b"
  "b_logs (count_consume_error b) = b_logs b" "b_fs (count_consume_error b) = b_fs b"
  "b_dataDir (count_consume_error b) = b_dataDir b" "b_topicConfigs (count_consume_error b) = b_topicConfigs b"
  "b_consumerGroups (count_consume_error b) = b_consumerGroups b"
  "b_logs (set_lag x y b) = b_logs b" "b_fs (set_lag x y b) = b_fs b"
  "b_dataDir (set_lag x y b) = b_dataDir b" "b_topicConfigs (set_lag x y b) = b_topicConfigs b"
  "b_consumerGroups (set_lag x y b) = b_consumerGroups b"
  by (simp_all add: count_consumed_def count_consume_error_def set_lag_def)

lemma Consume_view:
  assumes v: "group_view cdc ops g t p b c hs"
    and k: "Consume cdc \<lparr>cr_Topic = t, cr_Partition = Some p, cr_Offset = word_of_nat c\<rparr> b = (r, b')"
  shows "group_view cdc ops g t p b' c hs"
    and "c < length hs \<Longrightarrow> r = Inr (word_of_nat c, hs ! c)"
    and "c = length hs \<Longrightarrow> \<exists>e. r = Inl e"
proof -
  obtain h where h: "broker_keeps cdc b h" "h t (sint p) = hs" and kn: "broker_known b t (sint p)"
    and cdc: "codec_ok cdc" and c: "c \<le> length hs" "length hs < 2 ^ 64"
    and st: "unat (log_start (fst (partition_log t (sint p) b))) \<le> c"
    using v by (auto simp: group_view_def)
  obtain r1 b1 where rd: "broker_Read cdc t (sint p) (word_of_nat c) b = (r1, b1)" by fastforce
  obtain g1 b2 where gp: "GetPartition t (sint p) b = (g1, b2)" by fastforce
  note o = GetPartition_open [OF h(1) kn gp]
  have b1: "b1 = b2" using rd gp o(1) by (auto simp: broker_Read_def split: prod.splits)
  have uc: "unat (word_of_nat c :: u64) = c" using c by (simp add: unat_of_nat)
  note br = broker_Read_history [OF h(1) kn cdc rd]
  have res: "c < length hs \<Longrightarrow> \<exists>m. r1 = Inr m \<and> msg_Offset m = word_of_nat c \<and> kv m = hs ! c"
    using br(3) o(3) st uc h(2) b1 by (simp add: word_le_nat_alt)
  have v2: "group_view cdc ops g t p b1 c hs" using group_view_GetPartition [OF v gp] b1 by simp
  have b': "b' = count_consumed 1 b1 \<or> b' = count_consume_error b1"
    using k rd by (auto simp: Consume_def split: sum.splits)
  then show "group_view cdc ops g t p b' c hs" using group_view_cong [OF v2] by auto
  show "r = Inr (word_of_nat c, hs ! c)" if "c < length hs"
    using res [OF that] k rd by (auto simp: Consume_def kv_def prod_eq_iff)
  show "\<exists>e. r = Inl e" if "c = length hs"
    using br(4) that uc h(2) k rd by (auto simp: Consume_def)
qed

lemma CommitOffset_view:
  assumes v: "group_view cdc ops g t p b c hs" and lt: "c < length hs"
    and k: "CommitOffset ops \<lparr>or_GroupId = g, or_Topic = t, or_Partition = p, or_Offset = word_of_nat c + 1\<rparr> b = (r, b')"
  shows "r = Inr ()" and "group_view cdc ops g t p b' (Suc c) hs"
proof -
  have kn: "broker_known b t (sint p)" and up: "bolt_up ops" and inv: "cg_inv ops (b_consumerGroups b)"
    and pl: "g \<noteq> ''''" "plain g" "plain t"
    using v by (auto simp: group_view_def)
  have t: "topic_or_default t = t" and rg: "in_range (sint p)"
    using kn by (auto simp: broker_known_def safe_topic_default in_range_def)
  obtain r1 s1 where cm: "cg_CommitOffset ops g t p (word_of_nat c + 1) (b_consumerGroups b) = (r1, s1)" by fastforce
  obtain pr db' where put: "bolt_put ops (bytes_of_string (offsetKey g t p)) (PutUint64 (word_of_nat c + 1))
      (cg_db (b_consumerGroups b)) = (pr, db')" by fastforce
  have "pr = None" using up put by (metis bolt_up_def fst_conv)
  then have r1: "r1 = Inr ()"
    using cm put up pl by (auto simp: cg_CommitOffset_def plain_def bolt_up_def Let_def)
  have ok: "bolt_ok ops" using up by (simp add: bolt_up_def)
  have cg: "cg_inv ops s1" "cg_FetchOffset g t p s1 = word_of_nat (Suc c)"
    using cg_CommitOffset_inv(1) [OF ok inv cm] fetch_after_commit [OF ok inv cm [unfolded r1] pl(2,3)]
    by (auto simp: add.commute)
  let ?b = "b\<lparr>b_consumerGroups := s1\<rparr>"
  have v1: "group_view cdc ops g t p ?b (Suc c) hs"
    using v cg lt broker_keeps_cong [of ?b b cdc] partition_log_cong [of ?b b t "sint p"]
    by (simp add: group_view_def broker_known_def)
  obtain g1 b2 where gp: "GetPartition t (sint p) ?b = (g1, b2)" by fastforce
  have e: "r = Inr () \<and> b' = updateConsumerGroupLagFor g t p (word_of_nat c + 1) ?b"
    using k cm r1 pl t rg by (auto simp: CommitOffset_def store_commit_def)
  then have "b' = b2 \<or> (\<exists>x y. b' = set_lag x y b2)"
    using gp by (auto simp: updateConsumerGroupLagFor_def split: sum.splits)
  then show "group_view cdc ops g t p b' (Suc c) hs"
    using group_view_GetPartition [OF v1 gp] group_view_cong by fastforce
  show "r = Inr ()" using e by simp
qed

interpretation svc: offset_service "broker_client cdc ops rc" g t p "group_view cdc ops g t p"
  for cdc :: codec and ops :: "'db bolt" and rc g t p
proof unfold_locales
  fix w :: "'db broker" and c hs assume v: "group_view cdc ops g t p w c hs"
  then show "c \<le> length hs \<and> length hs < 2 ^ 64" by (simp add: group_view_def)
  show "\<exists>w'. cl_fetch (broker_client cdc ops rc) \<lparr>or_GroupId = g, or_Topic = t, or_Partition = p, or_Offset = 0\<rparr> w
      = (Inr (word_of_nat c), w') \<and> group_view cdc ops g t p w' c hs"
    using v by (auto simp: broker_client_def FetchOffset_def group_view_def broker_known_def in_range_def
        safe_topic_default)
next
  fix w :: "'db broker" and c hs assume v: "group_view cdc ops g t p w c hs" and lt: "c < length hs"
  show "\<exists>w'. cl_consume (broker_client cdc ops rc) \<lparr>cr_Topic = t, cr_Partition = Some p, cr_Offset = word_of_nat c\<rparr> w
      = (Inr (word_of_nat c, hs ! c), w') \<and> group_view cdc ops g t p w' c hs"
    using Consume_view [OF v] lt
    by (cases "Consume cdc \<lparr>cr_Topic = t, cr_Partition = Some p, cr_Offset = word_of_nat c\<rparr> w")
      (auto simp: broker_client_def)
  show "\<exists>w'. cl_commit (broker_client cdc ops rc)
        \<lparr>or_GroupId = g, or_Topic = t, or_Partition = p, or_Offset = word_of_nat c + 1\<rparr> w
      = (Inr (), w') \<and> group_view cdc ops g t p w' (Suc c) hs"
    using CommitOffset_view [OF v lt]
    by (cases "CommitOffset ops \<lparr>or_GroupId = g, or_Topic = t, or_Partition = p, or_Offset = word_of_nat c + 1\<rparr> w")
      (auto simp: broker_client_def)
next
  fix w :: "'db broker" and hs assume v: "group_view cdc ops g t p w (length hs) hs"
  show "\<exists>e w'. cl_consume (broker_client cdc ops rc)
        \<lparr>cr_Topic = t, cr_Partition = Some p, cr_Offset = word_of_nat (length hs)\<rparr> w
      = (Inl e, w') \<and> group_view cdc ops g t p w' (length hs) hs"
    using Consume_view [OF v]
    by (cases "Consume cdc \<lparr>cr_Topic = t, cr_Partition = Some p, cr_Offset = word_of_nat (length hs)\<rparr> w")
      (auto simp: broker_client_def)
qed

end
