(* ===== verification/CliLaws.thy ===== *)
theory CliLaws
  imports Cli
begin

text \<open>
  What the commands of the client do with arguments that are written out in full, and their
  composition with the broker's handlers.
\<close>

section \<open>Arguments to requests\<close>

definition produce_args :: "string \<Rightarrow> string \<Rightarrow> nat \<Rightarrow> string \<Rightarrow> string list" where
  "produce_args addr topic p msg =
     write_flags [(''addr'', addr), (''topic'', topic), (''partition'', format_uint p), (''msg'', msg)]"

definition consume_args :: "string \<Rightarrow> string \<Rightarrow> nat \<Rightarrow> u64 \<Rightarrow> string list" where
  "consume_args addr topic p off =
     write_flags [(''addr'', addr), (''topic'', topic), (''partition'', format_uint p),
       (''offset'', format_uint (unat off))]"

lemma produce_args_parsed:
  assumes "p < 2 ^ 63"
  shows "\<exists>fs. FlagSet_Parse produce_flags (produce_args addr topic p msg) = Inr fs
    \<and> flag_string fs ''addr'' = addr \<and> flag_string fs ''topic'' = topic \<and> flag_int fs ''partition'' = int p
    \<and> flag_string fs ''msg'' = msg
    \<and> flag_string fs ''cert'' = [] \<and> flag_string fs ''key'' = [] \<and> flag_string fs ''ca'' = []"
proof -
  let ?kvs = "[(''addr'', addr), (''topic'', topic), (''partition'', format_uint p), (''msg'', msg)]"
  have s: "settable produce_flags ?kvs"
    by (simp add: settable_def flag_name_def produce_flags_def tls_flags_def)
  obtain fs where fs: "set_flags produce_flags ?kvs = Some fs"
    and vals: "flag_string fs ''addr'' = addr" "flag_string fs ''topic'' = topic"
      "flag_int fs ''partition'' = int p" "flag_string fs ''msg'' = msg"
      "flag_string fs ''cert'' = []" "flag_string fs ''key'' = []" "flag_string fs ''ca'' = []"
    using ParseInt0_format(1) [OF assms]
    by (simp add: produce_flags_def tls_flags_def flag_string_def flag_int_def)
  show ?thesis using Parse_write_flags [OF s fs, of "[]"] vals by (simp add: produce_args_def)
qed

lemma consume_args_parsed:
  assumes "p < 2 ^ 63"
  shows "\<exists>fs. FlagSet_Parse consume_flags (consume_args addr topic p off) = Inr fs
    \<and> flag_string fs ''addr'' = addr \<and> flag_string fs ''topic'' = topic \<and> flag_int fs ''partition'' = int p
    \<and> flag_uint fs ''offset'' = off
    \<and> flag_string fs ''cert'' = [] \<and> flag_string fs ''key'' = [] \<and> flag_string fs ''ca'' = []"
proof -
  let ?kvs = "[(''addr'', addr), (''topic'', topic), (''partition'', format_uint p),
    (''offset'', format_uint (unat off))]"
  have s: "settable consume_flags ?kvs"
    by (simp add: settable_def flag_name_def consume_flags_def tls_flags_def)
  have "ParseUint0 (format_uint (unat off)) = Some (unat off)"
    using unat_lt_pow [of off] by (intro ParseUint0_format) simp
  then obtain fs where fs: "set_flags consume_flags ?kvs = Some fs"
    and vals: "flag_string fs ''addr'' = addr" "flag_string fs ''topic'' = topic"
      "flag_int fs ''partition'' = int p" "flag_uint fs ''offset'' = off"
      "flag_string fs ''cert'' = []" "flag_string fs ''key'' = []" "flag_string fs ''ca'' = []"
    using ParseInt0_format(1) [OF assms]
    by (simp add: consume_flags_def tls_flags_def flag_string_def flag_int_def flag_uint_def)
  show ?thesis using Parse_write_flags [OF s fs, of "[]"] vals by (simp add: consume_args_def)
qed

definition group_args :: "string \<Rightarrow> string \<Rightarrow> string \<Rightarrow> nat \<Rightarrow> string list" where
  "group_args addr grp topic p =
     write_flags [(''addr'', addr), (''group'', grp), (''topic'', topic), (''partition'', format_uint p)]
       @ [''--follow'']"

lemma group_args_parsed:
  assumes "p < 2 ^ 63"
  shows "\<exists>fs. FlagSet_Parse consume_group_flags (group_args addr grp topic p) = Inr fs
    \<and> flag_string fs ''addr'' = addr \<and> flag_string fs ''group'' = grp \<and> flag_string fs ''topic'' = topic
    \<and> flag_int fs ''partition'' = int p \<and> flag_bool fs ''follow''
    \<and> flag_string fs ''cert'' = [] \<and> flag_string fs ''key'' = [] \<and> flag_string fs ''ca'' = []"
proof -
  let ?kvs = "[(''addr'', addr), (''group'', grp), (''topic'', topic), (''partition'', format_uint p)]"
  have s: "settable consume_group_flags ?kvs"
    by (simp add: settable_def flag_name_def consume_group_flags_def tls_flags_def)
  obtain fs where fs: "set_flags consume_group_flags ?kvs = Some fs"
    and old: "map_of fs ''follow'' = Some (FBool False)"
    and vals: "flag_string fs ''addr'' = addr" "flag_string fs ''group'' = grp" "flag_string fs ''topic'' = topic"
      "flag_int fs ''partition'' = int p"
      "flag_string fs ''cert'' = []" "flag_string fs ''key'' = []" "flag_string fs ''ca'' = []"
    using ParseInt0_format(1) [OF assms]
    by (simp add: consume_group_flags_def tls_flags_def flag_string_def flag_int_def)
  let ?fs = "AList.update ''follow'' (FBool True) fs"
  have "read_arg ''--follow'' = Flag ''follow'' None" using read_arg_name [of "''follow''"] by (simp add: flag_name_def)
  then have "FlagSet_Parse fs [''--follow''] = Inr ?fs" using old by (simp add: ParseBool_def)
  then have "FlagSet_Parse consume_group_flags (group_args addr grp topic p) = Inr ?fs"
    using Parse_write_flags [OF s fs] by (simp add: group_args_def)
  then show ?thesis
    using vals by (auto simp: flag_string_def flag_int_def flag_bool_def update_conv)
qed

lemma cli_connect_plain:
  assumes "flag_string fs ''cert'' = []" "flag_string fs ''key'' = []" "flag_string fs ''ca'' = []"
  shows "cli_connect pki dial fs = dial (flag_string fs ''addr'') Insecure"
  using assms by (simp add: cli_connect_def grpcDialOptions_def)

lemma cli_produce_sends:
  assumes "p < 3" "msg \<noteq> []" "dial addr Insecure = Inr cl"
  shows "cli_produce pki dial (produce_args addr topic p msg) w
    = cl_produce cl \<lparr>pr_Topic = topic, pr_Key = bytes_of_string ''msg'', pr_Value = bytes_of_string msg,
        pr_Partition = Some (word_of_nat p)\<rparr> w"
proof -
  have "p < 2 ^ 63" using assms(1) by simp
  from produce_args_parsed [OF this, of addr topic msg] show ?thesis
    using assms by (auto simp: cli_produce_def cli_connect_plain Let_def)
qed

lemma cli_consume_asks:
  assumes "p < 3" "dial addr Insecure = Inr cl"
  shows "cli_consume pki dial (consume_args addr topic p off) w
    = (case cl_consume cl \<lparr>cr_Topic = topic, cr_Partition = Some (word_of_nat p), cr_Offset = off\<rparr> w of
         (Inl e, w') \<Rightarrow> (Inl e, w') | (Inr (_, key, val), w') \<Rightarrow> (Inr (key, val), w'))"
proof -
  have "p < 2 ^ 63" using assms(1) by simp
  from consume_args_parsed [OF this, of addr topic off] show ?thesis
    using assms by (auto simp: cli_consume_def cli_connect_plain Let_def)
qed

lemma cli_consume_group_loops:
  assumes "p < 3" "grp \<noteq> []" "dial addr Insecure = Inr cl"
  shows "cli_consume_group pki dial (group_args addr grp topic p) n w
    = group_rounds cl True grp topic (word_of_nat p) n w []"
proof -
  have "p < 2 ^ 63" using assms(1) by simp
  from group_args_parsed [OF this, of addr grp topic] show ?thesis
    using assms by (auto simp: cli_consume_group_def cli_connect_plain Let_def)
qed

section \<open>Through the broker\<close>

lemma small_partition: "p < 3 \<Longrightarrow> sint (word_of_nat p :: i32) = int p"
  by (auto simp: less_Suc_eq numeral_3_eq_3)

lemma Produce_then_Consume:
  assumes k: "broker_keeps cdc b h" and cdc: "codec_ok cdc" and ok: "publishable t key val"
    and pr: "Produce cdc rc \<lparr>pr_Topic = t, pr_Key = key, pr_Value = val, pr_Partition = Some p\<rparr> b = (Inr off, b')"
    and p: "in_range (sint p)"
    and q: "raft_quiet cdc rc es (snd (GetPartition t (sint p) b)) h"
    and room: "length (after_entries es h t (sint p)) + 1 < 2 ^ 64"
  shows "unat off = length (after_entries es h t (sint p))"
    and "fst (Consume cdc \<lparr>cr_Topic = t, cr_Partition = Some p, cr_Offset = off\<rparr> b') = Inr (off, key, val)"
proof -
  have sel: "selectPartition t key (Some p) b = (Inr (sint p), b)"
    using p by (simp add: selectPartition_def in_range_def Let_def)
  obtain b1 where pub: "Publish cdc rc t key val (Some p) b = (Inr off, b1)" and b': "b' = count_produced 1 b1"
    using pr by (auto simp: Produce_def split: prod.splits sum.splits)
  obtain g b2 where get: "GetPartition t (sint p) b = (g, b2)" by fastforce
  have q2: "raft_quiet cdc rc es b2 h" using q get by simp
  note ps = Publish_spec [OF k ok pub sel get refl q2 room]
  let ?h = "after_entries es h" and ?h' = "snd (spec_apply (Single t (sint p) key val) (after_entries es h))"
  have same: "b_logs b' = b_logs b1" "b_fs b' = b_fs b1" "b_dataDir b' = b_dataDir b1"
    "b_topicConfigs b' = b_topicConfigs b1" by (simp_all add: b' count_produced_def)
  have kb: "broker_keeps cdc b' ?h'" using ps(4) broker_keeps_cong [OF same] by simp
  have kn: "broker_known b' t (sint p)" using ps(5) same(1) by (simp add: broker_known_def)
  obtain r b3 where rd: "broker_Read cdc t (sint p) off b' = (r, b3)" by fastforce
  note br = broker_Read_history [OF kb kn cdc rd]
  have t: "effective_topic t = t" using ok by (simp add: publishable_def safe_topic_def effective_topic_def)
  then have "?h' t (sint p) = ?h t (sint p) @ [(key, val)]" by (simp add: spec_apply_def Let_def)
  then have "unat off < length (?h' t (sint p))" "?h' t (sint p) ! unat off = (key, val)" using ps(3) by simp_all
  moreover have "log_start (fst (partition_log t (sint p) b3)) \<le> off"
    using br(5) ps(6) partition_log_cong [OF same(1-3)] by simp
  ultimately obtain m where "r = Inr m" "msg_Offset m = off" "kv m = (key, val)" using br(3) by auto
  then show "fst (Consume cdc \<lparr>cr_Topic = t, cr_Partition = Some p, cr_Offset = off\<rparr> b') = Inr (off, key, val)"
    using rd by (simp add: Consume_def kv_def)
  show "unat off = length (?h t (sint p))" by (rule ps(3))
qed

end
