(* ===== verification/TornWrites.thy ===== *)
theory TornWrites
  imports LogAccess
begin

text \<open>
  Appends that fail in the middle of a write. The segment in memory is unchanged and the two files
  have only grown, so every message stored before stays readable. What a failed append has left in the
  log file is taken for the record of the next one.
\<close>

section \<open>Files that have only grown\<close>

definition extends :: "directory \<Rightarrow> directory \<Rightarrow> bool" where
  "extends d d' \<longleftrightarrow> (\<forall>nm bs. lookup_file d nm = Some bs \<longrightarrow> (\<exists>x. lookup_file d' nm = Some (bs @ x)))"

lemma extends_refl [simp]: "extends d d"
  by (auto simp: extends_def)

lemma extends_trans: "extends d d1 \<Longrightarrow> extends d1 d2 \<Longrightarrow> extends d d2"
  unfolding extends_def by (metis append_assoc)

lemma read_at_extends: "extends d d' \<Longrightarrow> read_at h n pos d = Inr bs \<Longrightarrow> read_at h n pos d' = Inr bs"
proof -
  assume e: "extends d d'" and r: "read_at h n pos d = Inr bs"
  show ?thesis
  proof (cases h)
    case None
    then show ?thesis using r by (simp add: read_at_def)
  next
    case (Some nm)
    show ?thesis
    proof (cases "lookup_file d nm")
      case None
      then show ?thesis using r Some by (auto simp: read_at_def split: if_splits option.splits)
    next
      case f: (Some f)
      obtain x where "lookup_file d' nm = Some (f @ x)" using e f by (auto simp: extends_def)
      then show ?thesis using r Some f by (auto simp: read_at_def split: if_splits)
    qed
  qed
qed

lemma readIndexEntry_extends:
  "extends d d' \<Longrightarrow> readIndexEntry s d pos = Inr e \<Longrightarrow> readIndexEntry s d' pos = Inr e"
  by (auto simp: readIndexEntry_def read_at_extends split: sum.splits)

lemma writeAll_extends:
  assumes "writeAll h data d = (r, d')" shows "extends d d'"
proof (cases h)
  case None
  then have "d' = d"
    using assms by (auto simp: writeAll.simps [of None] os_write_def split: if_splits)
  then show ?thesis by simp
next
  case (Some nm)
  show ?thesis
  proof (cases "lookup_file d nm")
    case None
    then have "touches_only {nm} d d'" using writeAll_frame [OF assms] Some by simp
    then show ?thesis unfolding extends_def touches_only_def using None
      by (metis append_Nil2 option.distinct(1) singletonD)
  next
    case f: (Some f)
    obtain k where "dir_step d d' ((lookup_file d)(nm \<mapsto> f @ take k data))"
      using writeAll_prefix [OF assms [unfolded Some] f] by blast
    then show ?thesis using f by (auto simp: extends_def dir_step_def)
  qed
qed

lemma seg_Append_extends:
  assumes "seg_Append cdc ts k v s d = (r, s', d')" shows "extends d d'"
proof -
  let ?h = "header_bytes (seg_nextOffset s) ts (length k) (length v)"
  let ?e = "entry_bytes (seg_nextOffset s) (uint64 (seg_size s))"
  have "extends d d1 \<Longrightarrow> extends d (snd (writeAll h data d1))" for d1 h data
    by (metis extends_trans prod.collapse writeAll_extends)
  note w = this
  show ?thesis
  proof (cases "stored cdc (seg_compressed s) k v")
    case None
    then show ?thesis using assms by (auto simp: seg_Append_def split: if_splits)
  next
    case (Some p)
    obtain r1 d1 where w1: "writeAll (seg_logFile s) ?h d = (r1, d1)" by fastforce
    obtain r2 d2 where w2: "writeAll (seg_logFile s) p d1 = (r2, d2)" by fastforce
    obtain r3 d3 where w3: "writeAll (seg_indexWrite s) ?e d2 = (r3, d3)" by fastforce
    have x: "extends d d1" "extends d d2" "extends d d3"
      using w [of d "seg_logFile s" ?h] w [of d1 "seg_logFile s" p] w [of d2 "seg_indexWrite s" ?e] w1 w2 w3
      by simp_all
    have "d' \<in> {d, d1, d2, d3}"
      using assms Some w1 w2 w3 by (auto simp: seg_Append_def Let_def split: if_splits sum.splits)
    then show ?thesis using x by auto
  qed
qed

section \<open>Reading after growth\<close>

lemma index_inv_extends: "index_inv (tbl, s, d) \<Longrightarrow> extends d d' \<Longrightarrow> index_inv (tbl, s, d')"
  by (fastforce simp: index_inv_def extends_def)

lemma seg_Read_extends:
  assumes r: "seg_repr cdc d s ms" and wf: "dir_wf d" and cdc: "codec_ok cdc" and x: "extends d d'"
    and m: "m \<in> set ms"
  shows "seg_Read cdc (msg_Offset m) s d' = Inr m"
proof -
  let ?tbl = "index_from cdc (seg_compressed s) 0 ms"
  obtain k where k: "k < length ms" "m = ms ! k" using m by (auto simp: in_set_conv_nth)
  have inv: "index_inv (?tbl, s, d)" by (rule seg_repr_index [OF r wf])
  have "findMessageBounds s d' (msg_Offset m) = findMessageBounds s d (msg_Offset m)"
    using findMessageBounds_present [OF inv, of k]
      findMessageBounds_present [OF index_inv_extends [OF inv x], of k] k
    by (simp add: index_from_nth)
  then show ?thesis
    using seg_Read_present [OF r wf cdc m] read_at_extends [OF x]
    by (auto simp: seg_Read_def Let_def split: if_splits sum.splits option.splits prod.splits)
qed


lemma log_Read_extends:
  assumes c: "log_core cdc d l mss" and cdc: "codec_ok cdc" and x: "extends d d'"
    and m: "m \<in> set (concat mss)"
  shows "log_Read cdc (msg_Offset m) l d' = Inr m"
proof -
  have ch: "chained (log_segments l)" "log_segments l \<noteq> []" and wf: "dir_wf d"
    using c by (simp_all add: log_core_def)
  have "log_start l \<le> msg_Offset m"
    using log_start_le [OF c] by (meson log_core_member [OF c m] order.trans)
  then obtain i where i: "segmentForOffset l (msg_Offset m) = Inr i" "i < length (log_segments l)"
    using segmentForOffset_spec [OF ch] by metis
  have inv: "seg_inv cdc (log_compressed l) d (log_segments l ! i) (mss ! i)"
    by (rule log_core_nth(1) [OF c i(2)])
  have "log_Read cdc (msg_Offset m) l d = Inr m" using log_Read_core [OF c cdc] m by blast
  then have "m \<in> set (mss ! i)"
    using seg_inv_Read [OF inv wf cdc] i(1) by (simp add: log_Read_def)
  then have "seg_Read cdc (msg_Offset m) (log_segments l ! i) d' = Inr m"
    using inv by (intro seg_Read_extends [OF _ wf cdc x, of _ "mss ! i"]) (simp_all add: seg_inv_def)
  then show ?thesis using i(1) by (simp add: log_Read_def)
qed

text \<open>
  A failed append of the log: either the active segment could not be written, and the files have
  grown by an unindexed tail, or only the roll-over failed, and the message is stored.
\<close>

lemma log_Append_failed:
  assumes i: "log_inv cdc d l mss" and cdc: "codec_ok cdc" and room: "log_next l \<noteq> -1"
    and a: "log_Append cdc ts k v l d = (Inl e, l', d')" and m: "m \<in> set (concat mss)"
  shows "log_Read cdc (msg_Offset m) l' d' = Inr m"
proof -
  have c: "log_core cdc d l mss" "log_segments l \<noteq> []" using i by (auto simp: log_inv_def log_core_def)
  obtain r1 s' d1 where seg: "seg_Append cdc ts k v (last (log_segments l)) d = (r1, s', d1)"
    by (metis surj_pair)
  show ?thesis
  proof (cases r1)
    case (Inl e1)
    have "s' = last (log_segments l)"
    proof (rule seg_Append_cases [OF seg])
      show "s' = last (log_segments l)" if "s' = last (log_segments l)" by (rule that)
      show "s' = last (log_segments l)" if "r1 = Inr (off, saved)" for off saved using that Inl by simp
    qed
    then have "set_active s' l = l" using c(2) by (simp add: set_active_def)
    then have "l' = l" "d' = d1" using a seg Inl c(2) by (auto simp: log_Append_def appendLocked_def)
    then show ?thesis using log_Read_extends [OF c(1) cdc seg_Append_extends [OF seg] m] by simp
  next
    case (Inr x)
    obtain off saved where x: "x = (off, saved)" by fastforce
    obtain mss' new where c': "log_core cdc d' l' mss'" "concat mss' = concat mss @ [new]"
      using log_Append_core(7) [OF c(1) log_inv_ready [OF i] room a refl seg [unfolded Inr x]] by blast
    then have "m \<in> set (concat mss')" using m by simp
    then show ?thesis using log_Read_core [OF c'(1) cdc] by blast
  qed
qed


section \<open>The record of a failed append\<close>

text \<open>What \<open>Read\<close> makes of a header and the bytes after it in a segment that is not compressed.\<close>

definition decode_record :: "u64 \<Rightarrow> bytes \<Rightarrow> bytes \<Rightarrow> message res" where
  "decode_record off header payload =
     (let ks = unat (Uint32 (drop 16 header)); vs = unat (Uint32 (drop 20 header))
      in if Uint64 header \<noteq> off
         then Inl (OffsetErr2 ''index offset points to message offset'' off (Uint64 header))
         else if length payload \<noteq> ks + vs
         then Inl (NumErr ''payload size does not match key/value sizes'' (int (length payload)))
         else Inr \<lparr>msg_Offset = off, msg_Timestamp = Uint64 (drop 8 header), msg_Key = take ks payload,
                  msg_Value = drop ks payload\<rparr>)"

text \<open>
  \<open>leaves_tail s d d' x\<close>: between \<open>d\<close> and \<open>d'\<close> the log file of the segment has grown by \<open>x\<close>, and its
  index not at all.
\<close>

definition leaves_tail :: "segment \<Rightarrow> directory \<Rightarrow> directory \<Rightarrow> bytes \<Rightarrow> bool" where
  "leaves_tail s d d' x \<longleftrightarrow>
     lookup_file d' (log_name (seg_baseOffset s)) = map_option (\<lambda>f. f @ x) (lookup_file d (log_name (seg_baseOffset s)))
     \<and> lookup_file d' (index_name (seg_baseOffset s)) = lookup_file d (index_name (seg_baseOffset s))"

lemma read_at_tail:
  assumes "lookup_file d nm = Some (f @ bs)" "from + n \<le> length bs"
  shows "read_at (Some nm) n (int (length f) + int from) d = Inr (take n (drop from bs))"
  using assms by (simp add: read_at_def nat_add_distrib nat_int_add)

text \<open>An append after such a tail: the log file, the index and the segment.\<close>

lemma seg_Append_tail:
  assumes r: "seg_repr cdc d s ms" and c: "\<not> seg_compressed s" and x: "leaves_tail s d d1 x"
    and a: "seg_Append cdc ts k v s d1 = (Inr (off, saved), s2, d2)"
    and m: "m = \<lparr>msg_Offset = seg_nextOffset s, msg_Timestamp = ts, msg_Key = k, msg_Value = v\<rparr>"
  shows "off = seg_nextOffset s" and "length k < 2 ^ 32" "length v < 2 ^ 32"
    and "s2 = seg_grown cdc s [m] (seg_nextOffset s + 1)"
    and "lookup_file d2 (log_name (seg_baseOffset s))
      = Some (log_bytes cdc False ms @ x @ header_bytes off ts (length k) (length v) @ k @ v)"
    and "lookup_file d2 (index_name (seg_baseOffset s)) = Some (index_bytes (index_from cdc False 0 (ms @ [m])))"
    and "dir_wf d1 \<Longrightarrow> dir_wf d2"
proof -
  let ?L = "log_name (seg_baseOffset s)" and ?I = "index_name (seg_baseOffset s)"
  let ?pos = "length (log_bytes cdc False ms)" and ?off = "seg_nextOffset s"
  let ?rec = "header_bytes ?off ts (length k) (length v) @ k @ v"
  obtain p e1 e2 where st: "stored cdc (seg_compressed s) k v = Some p"
    and len: "length k < 2 ^ 32" "length v < 2 ^ 32"
    and w1: "writeAll (seg_logFile s) (header_bytes ?off ts (length k) (length v)) d1 = (Inr (), e1)"
    and w2: "writeAll (seg_logFile s) p e1 = (Inr (), e2)"
    and w3: "writeAll (seg_indexWrite s) (entry_bytes ?off (uint64 (seg_size s))) e2 = (Inr (), d2)"
    and res: "off = ?off" "s2 = s\<lparr>seg_size := seg_size s + int (messageHeaderSize + length p),
        seg_nextOffset := seg_nextOffset s + 1, seg_indexEntries := seg_indexEntries s + 1\<rparr>"
    by (rule seg_Append_success [OF a])
  have p: "p = k @ v" using st c by (simp add: stored_def)
  have h: "seg_logFile s = Some ?L" "seg_indexWrite s = Some ?I"
    and f: "lookup_file d1 ?L = Some (log_bytes cdc False ms @ x)"
      "lookup_file d1 ?I = Some (index_bytes (index_from cdc False 0 ms))"
    and size: "seg_size s = int ?pos"
    using r c x by (auto simp: seg_repr_def seg_open_def seg_files_def leaves_tail_def)
  have s1: "dir_step d1 e2 ((lookup_file d1)(?L \<mapsto> (log_bytes cdc False ms @ x) @ ?rec))"
    using writeAll_append [OF f(1) w1 [unfolded h] w2 [unfolded h]] p by simp
  then have i2: "lookup_file e2 ?I = Some (index_bytes (index_from cdc False 0 ms))"
    using f by (simp add: dir_step_def)
  have s2: "dir_step e2 d2 ((lookup_file e2)(?I \<mapsto> index_bytes (index_from cdc False 0 ms)
      @ entry_bytes ?off (uint64 (seg_size s))))"
    using writeAll_ok [OF w3, of "index_bytes (index_from cdc False 0 ms)"] h i2 by auto
  show "off = ?off" "length k < 2 ^ 32" "length v < 2 ^ 32" using res len by simp_all
  show "s2 = seg_grown cdc s [m] (seg_nextOffset s + 1)"
    using res st m by (simp add: seg_grown_def messageHeaderSize_def log_bytes_def length_rec_bytes)
  show "lookup_file d2 ?L = Some (log_bytes cdc False ms @ x @ header_bytes off ts (length k) (length v) @ k @ v)"
    using s1 s2 res(1) by (simp add: dir_step_def)
  show "lookup_file d2 ?I = Some (index_bytes (index_from cdc False 0 (ms @ [m])))"
    using s2 size m by (simp add: dir_step_def index_from_append index_bytes_append) (simp add: index_bytes_def)
  show "dir_wf d1 \<Longrightarrow> dir_wf d2"
    using writeAll_frame [OF w1] writeAll_frame [OF w2] writeAll_frame [OF w3] by blast
qed

text \<open>
  Its index entry points at the start of the tail, so \<open>Read\<close> takes the header and the payload from
  there.
\<close>

lemma seg_Read_tail:
  assumes r: "seg_repr cdc d s ms" and wf: "dir_wf d1" and c: "\<not> seg_compressed s"
    and room: "seg_nextOffset s \<noteq> -1" and x: "leaves_tail s d d1 x"
    and a: "seg_Append cdc ts k v s d1 = (Inr (off, saved), s2, d2)"
    and bs: "bs = x @ header_bytes off ts (length k) (length v) @ k @ v"
  shows "seg_Read cdc off s2 d2 = decode_record off (take 24 bs) (take (length k + length v) (drop 24 bs))"
proof -
  define m where "m = \<lparr>msg_Offset = seg_nextOffset s, msg_Timestamp = ts, msg_Key = k, msg_Value = v\<rparr>"
  let ?f = "log_bytes cdc False ms" and ?tbl = "index_from cdc False 0 (ms @ [m])"
  note t = seg_Append_tail [OF r c x a m_def]
  have s2: "seg_baseOffset s2 = seg_baseOffset s" "seg_nextOffset s2 = off + 1" "seg_compressed s2 = False"
    "seg_logRead s2 = Some (log_name (seg_baseOffset s))" "seg_indexRead s2 = Some (index_name (seg_baseOffset s))"
    "seg_size s2 = int (length ?f + (24 + (length k + length v)))" "seg_indexEntries s2 = int (length ?tbl)"
    using r c t(1,4) by (auto simp: seg_grown_def seg_repr_def seg_open_def m_def log_bytes_def length_rec_bytes stored_def)
  have fl: "lookup_file d2 (log_name (seg_baseOffset s)) = Some (?f @ bs)" using t(5) bs by simp
  have len: "length bs = length x + (24 + (length k + length v))" by (simp add: bs codec_simps header_decode)
  have big: "length ?f + length bs \<le> max_file_size" using dir_wf_size [OF t(7) [OF wf] fl] by simp
  have p: "length ?f < 2 ^ 63" using big by (intro max_file_size_less) simp
  have "msgs_ok cdc False (seg_baseOffset s) (seg_nextOffset s) ms" using r c by (simp add: seg_repr_def)
  then have "sorted_wrt (<) (map msg_Offset (ms @ [m]))" and base: "seg_baseOffset s \<le> off"
    using t(1) by (auto simp: msgs_ok_def sorted_wrt_append m_def)
  moreover have "sorted_wrt (<) (map snd ?tbl)"
    using big len by (intro sorted_positions) (simp add: log_bytes_append, simp add: log_bytes_def length_rec_bytes m_def stored_def)
  ultimately have inv: "index_inv (?tbl, s2, d2)"
    using s2(5,7) t(6) by (auto simp: index_inv_def)
  have b: "findMessageBounds s2 d2 off =
      Inr (word_of_nat (length ?f), word_of_nat (length ?f + (24 + (length k + length v))))"
    using findMessageBounds_present [OF inv, of "length ms"] t(1) s2(6)
    by (simp add: index_from_nth table_end_def m_def uint64_def)
  have sz: "unat (word_of_nat (length ?f + (24 + (length k + length v))) - word_of_nat (length ?f) - word_of_nat 24 :: u64)
      = length k + length v"
    using t(2,3) unat_small [of "length k + length v"] by simp
  have hd: "read_at (seg_logRead s2) 24 (int (length ?f)) d2 = Inr (take 24 bs)"
    using read_at_tail [OF fl, of 0 24] len by (simp add: s2)
  have pl: "read_at (seg_logRead s2) (length k + length v) (int (length ?f) + 24) d2
      = Inr (take (length k + length v) (drop 24 bs))"
    using read_at_tail [OF fl, of 24 "length k + length v"] len by (simp add: s2)
  have "off < off + 1" using room t(1) word_less_succ by blast
  moreover have "length k + length v \<le> max_alloc" using t(2,3) by (simp add: max_alloc_def)
  ultimately show ?thesis
    using b hd pl sz base
    by (simp add: seg_Read_def decode_record_def s2 int64_small [OF p] messageHeaderSize_def not_less [symmetric] Let_def)
qed


text \<open>The tail is the whole record of the failed append when only its index entry could not be written.\<close>

lemma seg_Append_writes:
  assumes "seg_Append cdc ts k v s d = (r, s', d')" "leaves_tail s d d' x" "x \<noteq> []"
    and "lookup_file d (log_name (seg_baseOffset s)) \<noteq> None"
  shows "length k < 2 ^ 32" "length v < 2 ^ 32"
proof -
  have "d' \<noteq> d" using assms(2-4) by (auto simp: leaves_tail_def)
  then show "length k < 2 ^ 32" "length v < 2 ^ 32"
    using assms(1) by (auto simp: seg_Append_def simp del: One_nat_def split: if_splits)
qed

lemma decode_record_stale:
  assumes "length k < 2 ^ 32" "length v < 2 ^ 32" "bs = header_bytes off ts (length k) (length v) @ k @ v @ y"
    and "n \<le> length k + length v + length y"
  shows "decode_record off (take 24 bs) (take n (drop 24 bs)) =
    (if length k + length v = n then Inr \<lparr>msg_Offset = off, msg_Timestamp = ts, msg_Key = k, msg_Value = v\<rparr>
     else Inl (NumErr ''payload size does not match key/value sizes'' (int n)))"
proof -
  have "unat (word_of_nat (length k) :: u32) = length k" "unat (word_of_nat (length v) :: u32) = length v"
    using assms(1,2) by (simp_all add: unat_of_nat)
  then show ?thesis using assms(3,4) by (auto simp: decode_record_def header_decode Let_def min_def)
qed

lemma seg_Read_stale:
  assumes r: "seg_repr cdc d s ms" and wf: "dir_wf d" and c: "\<not> seg_compressed s"
    and room: "seg_nextOffset s \<noteq> -1" and f: "seg_Append cdc ts1 k1 v1 s d = (Inl e, s1, d1)"
    and x: "leaves_tail s d d1 x" and a: "seg_Append cdc ts2 k2 v2 s1 d1 = (Inr (off, saved), s2, d2)"
  shows "bs = x @ header_bytes off ts2 (length k2) (length v2) @ k2 @ v2 \<Longrightarrow> seg_Read cdc off s2 d2
      = decode_record off (take 24 bs) (take (length k2 + length v2) (drop 24 bs))"
    and "x = header_bytes off ts1 (length k1) (length v1) @ k1 @ v1 \<Longrightarrow> seg_Read cdc off s2 d2
      = (if length k1 + length v1 = length k2 + length v2
         then Inr \<lparr>msg_Offset = off, msg_Timestamp = ts1, msg_Key = k1, msg_Value = v1\<rparr>
         else Inl (NumErr ''payload size does not match key/value sizes'' (int (length k2 + length v2))))"
proof -
  have e: "s1 = s" "dir_wf d1" using seg_Append_cases [OF f] wf by (metis sum.distinct(1))+
  show d: "seg_Read cdc off s2 d2 = decode_record off (take 24 bs) (take (length k2 + length v2) (drop 24 bs))"
    if "bs = x @ header_bytes off ts2 (length k2) (length v2) @ k2 @ v2" for bs
    by (rule seg_Read_tail [OF r e(2) c room x a [unfolded e(1)] that])
  assume w: "x = header_bytes off ts1 (length k1) (length v1) @ k1 @ v1"
  then have "x \<noteq> []" by (metis append_is_Nil_conv header_decode(1) list.size(3) zero_neq_numeral)
  moreover have "lookup_file d (log_name (seg_baseOffset s)) \<noteq> None" using r by (auto simp: seg_repr_def seg_files_def)
  ultimately have kv: "length k1 < 2 ^ 32" "length v1 < 2 ^ 32" using seg_Append_writes [OF f x] by blast+
  show "seg_Read cdc off s2 d2 = (if length k1 + length v1 = length k2 + length v2
         then Inr \<lparr>msg_Offset = off, msg_Timestamp = ts1, msg_Key = k1, msg_Value = v1\<rparr>
         else Inl (NumErr ''payload size does not match key/value sizes'' (int (length k2 + length v2))))"
    unfolding d [OF refl]
    by (rule decode_record_stale [OF kv, where y = "header_bytes off ts2 (length k2) (length v2) @ k2 @ v2"])
      (simp_all add: w)
qed

end
