(* ===== verification/Startup.thy ===== *)
theory Startup
  imports Cli BrokerAdmin
begin

text \<open>
  Starting a broker: the TLS stream layer and \<open>NewBroker\<close> of \<open>src/internal/broker/broker.go\<close>, and the
  program \<open>src/cmd/broker/main.go\<close>. Certificates, sockets,
  the Raft library and its stores are parameters: what matters here is which of them are opened,
  in which order, and which are released again on every path that fails.
\<close>

section \<open>The stream layer\<close>

record ('cert, 'pool) tlsStreamLayer =
  sl_ServerTLSConfig :: "('cert, 'pool) tls_config option"
  sl_ClientTLSConfig :: "('cert, 'pool) tls_config option"

text \<open>A connection as it comes from the network, or wrapped with a configuration.\<close>

datatype ('conn, 'cfg) raft_conn = Plain 'conn | Secure 'cfg 'conn

definition stream_Accept ::
  "('cert, 'pool) tlsStreamLayer \<Rightarrow> 'conn res \<Rightarrow> ('conn, ('cert, 'pool) tls_config) raft_conn res" where
  "stream_Accept layer incoming =
     (case incoming of
        Inl e \<Rightarrow> Inl e
      | Inr conn \<Rightarrow>
          (case sl_ServerTLSConfig layer of None \<Rightarrow> Inr (Plain conn) | Some config \<Rightarrow> Inr (Secure config conn)))"

text \<open>\<open>dial\<close> and \<open>dialTLS\<close> stand for the two ways to connect; the latter gets the server name to verify.\<close>

definition stream_Dial ::
  "('cert, 'pool) tlsStreamLayer \<Rightarrow> (string \<Rightarrow> 'c res)
     \<Rightarrow> (('cert, 'pool) tls_config \<Rightarrow> string \<Rightarrow> string \<Rightarrow> 'c res) \<Rightarrow> string \<Rightarrow> 'c res" where
  "stream_Dial layer dial dialTLS address =
     (case sl_ClientTLSConfig layer of
        None \<Rightarrow> dial address
      | Some config \<Rightarrow>
          (case SplitHostPort address of
             None \<Rightarrow> dialTLS config address address
           | Some (host, _) \<Rightarrow> dialTLS config host address))"

section \<open>NewBroker\<close>

datatype resource = ConsumerGroupsDB | Transport | LogStore | StableStore | RaftNode | HTTPServer
  | GRPCListener | GRPCServer | Workers | TopicLogs | RetentionWorkers

text \<open>
  The outcome of every library call that can fail, in the order of the code; the certificate files
  when the transport is opened (\<open>se_pki\<close>) and when the gRPC server is (\<open>se_pki_grpc\<close>); what the
  shutdown of the Raft node closes besides the node (its transport, according to its documentation);
  whether the node opens a topic in the meantime, by an entry it applies or for a request
  (\<open>se_topic\<close>); and whether one is opened while \<open>Close\<close> is at work, after it has stopped the retention
  workers (\<open>se_lateWorker\<close>) or even after it has closed the partition logs (\<open>se_lateLogs\<close>).
\<close>

record ('cert, 'pool) startup_env =
  se_groups :: "error option"
  se_mkdir :: "error option"
  se_pki :: "('cert, 'pool) pki"
  se_listen :: "error option"
  se_tcpTransport :: "error option"
  se_logStore :: "error option"
  se_stableStore :: "error option"
  se_snapshotStore :: "error option"
  se_newRaft :: "error option"
  se_hasState :: "bool res"
  se_bootstrap :: "error option"
  se_grpcListen :: "error option"
  se_pki_grpc :: "('cert, 'pool) pki"
  se_post :: "nat \<Rightarrow> nat res"
  se_shutdown :: "resource list"
  se_topic :: bool
  se_lateWorker :: bool
  se_lateLogs :: bool

text \<open>
  What is open, and what the broker's fields and the transport say: the TLS stream layer of the
  transport (none for plain TCP), whether the Raft node is set, whether this node bootstrapped a cluster,
  which servers have been set and with which credentials.
\<close>

record ('cert, 'pool) startup =
  st_open :: "resource list"
  st_layer :: "('cert, 'pool) tlsStreamLayer option"
  st_raft :: bool
  st_bootstrapped :: bool
  st_http :: bool
  st_grpc :: bool
  st_creds :: "('cert, 'pool) tls_config option"

definition st_init :: "('cert, 'pool) startup" where
  "st_init = \<lparr>st_open = [], st_layer = None, st_raft = False, st_bootstrapped = False, st_http = False, st_grpc = False,
     st_creds = None\<rparr>"

definition acquire :: "resource \<Rightarrow> ('cert, 'pool) startup \<Rightarrow> ('cert, 'pool) startup" where
  "acquire r st = st\<lparr>st_open := r # st_open st\<rparr>"

definition release :: "resource list \<Rightarrow> ('cert, 'pool) startup \<Rightarrow> ('cert, 'pool) startup" where
  "release rs st = st\<lparr>st_open := filter (\<lambda>r. r \<notin> set rs) (st_open st)\<rparr>"

text \<open>
  \<open>Close\<close> on a broker in the middle of \<open>NewBroker\<close> or after it, when it finishes: the workers, the gRPC
  server with its listener if it was set, the HTTP server, the Raft node with what its shutdown closes,
  the partition logs and the offset store. No statement of \<open>Close\<close> refers to the two Raft stores, and a
  topic that is opened too late is missed.
\<close>

definition open_topics ::
  "('cert, 'pool) startup_env \<Rightarrow> ('cert, 'pool) startup \<Rightarrow> ('cert, 'pool) startup" where
  "open_topics env st = (if se_topic env then acquire TopicLogs (acquire RetentionWorkers st) else st)"

definition open_late ::
  "('cert, 'pool) startup_env \<Rightarrow> ('cert, 'pool) startup \<Rightarrow> ('cert, 'pool) startup" where
  "open_late env st =
     (let st1 = (if se_lateWorker env then acquire RetentionWorkers st else st)
      in if se_lateLogs env then acquire TopicLogs st1 else st1)"

definition close_started ::
  "('cert, 'pool) startup_env \<Rightarrow> ('cert, 'pool) startup \<Rightarrow> ('cert, 'pool) startup" where
  "close_started env st =
     open_late env (release ([Workers, RetentionWorkers] @ (if st_grpc st then [GRPCServer, GRPCListener] else [])
       @ (if st_http st then [HTTPServer] else []) @ [RaftNode] @ se_shutdown env
       @ [TopicLogs, ConsumerGroupsDB]) st)"

definition tls_enabled :: "string \<Rightarrow> string \<Rightarrow> string \<Rightarrow> bool" where
  "tls_enabled certFile keyFile caFile \<longleftrightarrow> certFile \<noteq> [] \<and> keyFile \<noteq> [] \<and> caFile \<noteq> []"

text \<open>The transport: over TLS when all three files are given, over plain TCP otherwise.\<close>

definition open_transport ::
  "('cert, 'pool) startup_env \<Rightarrow> string \<Rightarrow> string \<Rightarrow> string \<Rightarrow> ('cert, 'pool) startup
     \<Rightarrow> unit res \<times> ('cert, 'pool) startup" where
  "open_transport env certFile keyFile caFile st =
     (if tls_enabled certFile keyFile caFile then
        (case LoadServerTLSConfig (se_pki env) certFile keyFile caFile of
           Inl e \<Rightarrow> (Inl e, release [ConsumerGroupsDB] st)
         | Inr serverTLSConfig \<Rightarrow>
         case LoadClientTLSConfig (se_pki env) certFile keyFile caFile of
           Inl e \<Rightarrow> (Inl e, release [ConsumerGroupsDB] st)
         | Inr clientTLSConfig \<Rightarrow>
         case se_listen env of
           Some e \<Rightarrow> (Inl e, release [ConsumerGroupsDB] st)
         | None \<Rightarrow>
             (Inr (), (acquire Transport st)\<lparr>st_layer :=
                Some \<lparr>sl_ServerTLSConfig = Some serverTLSConfig, sl_ClientTLSConfig = Some clientTLSConfig\<rparr>\<rparr>))
      else
        (case se_tcpTransport env of Some e \<Rightarrow> (Inl e, release [ConsumerGroupsDB] st) | None \<Rightarrow>
           (Inr (), acquire Transport st)))"

text \<open>
  The Raft stores, the node, and the bootstrap of a new cluster when no peer is given. The error paths
  after the node runs do not release a topic it has opened.
\<close>

definition start_raft ::
  "('cert, 'pool) startup_env \<Rightarrow> string \<Rightarrow> ('cert, 'pool) startup \<Rightarrow> unit res \<times> ('cert, 'pool) startup" where
  "start_raft env peers st =
     (case se_logStore env of
        Some e \<Rightarrow> (Inl e, release [Transport, ConsumerGroupsDB] st)
      | None \<Rightarrow>
      let st1 = acquire LogStore st
      in case se_stableStore env of
        Some e \<Rightarrow> (Inl e, release [LogStore, Transport, ConsumerGroupsDB] st1)
      | None \<Rightarrow>
      let st2 = acquire StableStore st1
      in case se_snapshotStore env of
        Some e \<Rightarrow> (Inl e, release [StableStore, LogStore, Transport, ConsumerGroupsDB] st2)
      | None \<Rightarrow>
      case se_newRaft env of
        Some e \<Rightarrow> (Inl e, release [StableStore, LogStore, Transport, ConsumerGroupsDB] st2)
      | None \<Rightarrow>
      let st3 = open_topics env ((acquire RaftNode st2)\<lparr>st_raft := True\<rparr>)
      in if peers \<noteq> [] then (Inr (), st3)
         else case se_hasState env of
           Inl e \<Rightarrow> (Inl (Wrap ''failed to check raft state'' e),
                    release [RaftNode, StableStore, LogStore, Transport, ConsumerGroupsDB] st3)
         | Inr True \<Rightarrow> (Inr (), st3)
         | Inr False \<Rightarrow>
         case se_bootstrap env of
           Some e \<Rightarrow> (Inl e, release [RaftNode, StableStore, LogStore, Transport, ConsumerGroupsDB] st3)
         | None \<Rightarrow> (Inr (), st3\<lparr>st_bootstrapped := True\<rparr>))"

text \<open>The two servers, joining the peer, and the workers; failures from here on call \<open>Close\<close>.\<close>

definition start_servers ::
  "('cert, 'pool) startup_env \<Rightarrow> string \<Rightarrow> string \<Rightarrow> string \<Rightarrow> string \<Rightarrow> string
     \<Rightarrow> ('cert, 'pool) startup \<Rightarrow> unit res \<times> ('cert, 'pool) startup" where
  "start_servers env httpAddr peers certFile keyFile caFile st =
     (let st1 = (acquire HTTPServer st)\<lparr>st_http := True\<rparr>
      in case grpcAddress httpAddr of
        Inl e \<Rightarrow> (Inl e, close_started env st1)
      | Inr grpcAddr \<Rightarrow>
      case se_grpcListen env of
        Some e \<Rightarrow> (Inl e, close_started env st1)
      | None \<Rightarrow>
      let st2 = acquire GRPCListener st1
      in case (if tls_enabled certFile keyFile caFile
               then map_sum id Some (LoadServerTLSConfig (se_pki_grpc env) certFile keyFile caFile)
               else Inr None) of
        Inl e \<Rightarrow> (Inl e, close_started env (release [GRPCListener] st2))
      | Inr creds \<Rightarrow>
      let st3 = (acquire GRPCServer st2)\<lparr>st_grpc := True, st_creds := creds\<rparr>
      in case (if peers \<noteq> [] then fst (joinPeer (se_post env)) else Inr ()) of
        Inl e \<Rightarrow> (Inl e, close_started env st3)
      | Inr _ \<Rightarrow> (Inr (), acquire Workers st3))"

definition NewBroker ::
  "('cert, 'pool) startup_env \<Rightarrow> string \<Rightarrow> string \<Rightarrow> string \<Rightarrow> string \<Rightarrow> string
     \<Rightarrow> unit res \<times> ('cert, 'pool) startup" where
  "NewBroker env httpAddr peers certFile keyFile caFile =
     (case se_groups env of
        Some e \<Rightarrow> (Inl e, st_init)
      | None \<Rightarrow>
      let st1 = acquire ConsumerGroupsDB st_init
      in case se_mkdir env of
        Some e \<Rightarrow> (Inl e, release [ConsumerGroupsDB] st1)
      | None \<Rightarrow>
      case open_transport env certFile keyFile caFile st1 of
        (Inl e, st2) \<Rightarrow> (Inl e, st2)
      | (Inr _, st2) \<Rightarrow>
      case start_raft env peers st2 of
        (Inl e, st3) \<Rightarrow> (Inl e, st3)
      | (Inr _, st3) \<Rightarrow> start_servers env httpAddr peers certFile keyFile caFile st3)"

section \<open>The broker process\<close>

text \<open>
  \<open>cmd/broker\<close>: the required variables in the order their map is ranged over, then the broker until
  a signal arrives. \<open>Fatal\<close> is \<open>log.Fatalf\<close>.
\<close>

datatype broker_exit = Fatal error | Stopped "error option"

definition broker_main ::
  "(string \<Rightarrow> string) \<Rightarrow> string list
     \<Rightarrow> (string \<Rightarrow> string \<Rightarrow> string \<Rightarrow> string \<Rightarrow> string \<Rightarrow> string \<Rightarrow> string \<Rightarrow> string \<Rightarrow> 'b res)
     \<Rightarrow> ('b \<Rightarrow> error option) \<Rightarrow> broker_exit" where
  "broker_main getenv required newBroker close =
     (case filter (\<lambda>name. getenv name = []) required of
        name # _ \<Rightarrow> Fatal (Msg (name @ '' is required''))
      | [] \<Rightarrow>
          (case newBroker (getenv ''BROKER_ID'') (getenv ''BROKER_HTTP_ADDR'') (getenv ''BROKER_RAFT_ADDR'')
                  (getenv ''BROKER_DATA_DIR'') (getenv ''BROKER_PEERS'') (getenv ''BROKER_CERT_FILE'')
                  (getenv ''BROKER_KEY_FILE'') (getenv ''BROKER_CA_FILE'') of
             Inl e \<Rightarrow> Fatal (Wrap ''failed to start broker'' e)
           | Inr b \<Rightarrow> Stopped (close b)))"

section \<open>What is open when\<close>

text \<open>A stream layer as \<open>NewBroker\<close> builds it from the three files.\<close>

definition loaded_layer ::
  "('cert, 'pool) pki \<Rightarrow> string \<Rightarrow> string \<Rightarrow> string \<Rightarrow> ('cert, 'pool) tlsStreamLayer \<Rightarrow> bool" where
  "loaded_layer pki c k a layer \<longleftrightarrow>
     (\<exists>server client. LoadServerTLSConfig pki c k a = Inr server \<and> LoadClientTLSConfig pki c k a = Inr client
        \<and> layer = \<lparr>sl_ServerTLSConfig = Some server, sl_ClientTLSConfig = Some client\<rparr>)"

lemma loaded_layer_accepts:
  assumes "loaded_layer pki c k a layer"
  shows "\<exists>config. stream_Accept layer (Inr conn) = Inr (Secure config conn)
    \<and> tls_MinVersion config = VersionTLS13 \<and> tls_VerifyClient config"
  using assms LoadServerTLSConfig_ok(1,2) by (fastforce simp: loaded_layer_def stream_Accept_def)

lemma loaded_layer_dials:
  assumes "loaded_layer pki c k a layer"
  shows "\<exists>config name. stream_Dial layer dial dialTLS address = dialTLS config name address
    \<and> tls_MinVersion config = VersionTLS13 \<and> tls_RootCAs config \<noteq> None"
proof -
  obtain client where "LoadClientTLSConfig pki c k a = Inr client" "sl_ClientTLSConfig layer = Some client"
    using assms by (auto simp: loaded_layer_def)
  then show ?thesis
    using LoadClientTLSConfig_ok(1,2) [of pki c k a client]
    by (intro exI [of _ client], cases "SplitHostPort address") (auto simp: stream_Dial_def)
qed

lemma open_transport_fails:
  assumes "open_transport env c k a st = (Inl e, st')" "st_open st = [ConsumerGroupsDB]"
  shows "st_open st' = [] \<and> st_http st' = st_http st \<and> st_raft st' = st_raft st"
  using assms by (auto simp: open_transport_def acquire_def release_def split: if_splits option.splits sum.splits)

lemma open_transport_done:
  assumes "open_transport env c k a st = (Inr (), st')"
  shows "st_open st' = Transport # st_open st" and "st_http st' = st_http st" and "st_grpc st' = st_grpc st"
    and "if tls_enabled c k a then (\<exists>layer. st_layer st' = Some layer \<and> loaded_layer (se_pki env) c k a layer)
      else st_layer st' = st_layer st" and "st_raft st' = st_raft st"
  using assms
  by (auto simp: open_transport_def acquire_def loaded_layer_def split: if_splits option.splits sum.splits)

text \<open>The topics the Raft node has opened.\<close>

definition topics_open :: "('cert, 'pool) startup_env \<Rightarrow> resource list" where
  "topics_open env = (if se_topic env then [TopicLogs, RetentionWorkers] else [])"

lemma start_raft_fails:
  assumes "start_raft env peers st = (Inl e, st')" "st_open st = [Transport, ConsumerGroupsDB]" "\<not> st_raft st"
  shows "st_open st' = (if st_raft st' then topics_open env else []) \<and> st_http st' = st_http st"
  using assms
  by (auto simp: start_raft_def acquire_def release_def open_topics_def topics_open_def Let_def
      split: if_splits option.splits sum.splits bool.splits)

lemma start_raft_done:
  assumes "start_raft env peers st = (Inr (), st')"
  shows "st_open st' = topics_open env @ [RaftNode, StableStore, LogStore] @ st_open st"
    and "st_http st' = st_http st" and "st_grpc st' = st_grpc st" and "st_layer st' = st_layer st"
  using assms
  by (auto simp: start_raft_def acquire_def open_topics_def topics_open_def Let_def split: if_splits option.splits sum.splits bool.splits)

definition raft_open :: "resource list" where
  "raft_open = [RaftNode, StableStore, LogStore, Transport, ConsumerGroupsDB]"

definition all_open :: "('cert, 'pool) startup_env \<Rightarrow> resource list" where
  "all_open env = [Workers, GRPCServer, GRPCListener, HTTPServer] @ topics_open env @ raft_open"

text \<open>
  What \<open>Close\<close> leaves open once the Raft node runs and the HTTP server is set, whether or not the gRPC
  server is.
\<close>

definition closable :: "('cert, 'pool) startup \<Rightarrow> bool" where
  "closable st \<longleftrightarrow> st_http st \<and> set raft_open \<subseteq> set (st_open st)
     \<and> set (st_open st) \<subseteq> set raft_open \<union> {Workers, HTTPServer, TopicLogs, RetentionWorkers}
         \<union> (if st_grpc st then {GRPCServer, GRPCListener} else {})"

definition left_open :: "('cert, 'pool) startup_env \<Rightarrow> resource set" where
  "left_open env = ({StableStore, LogStore, Transport} - set (se_shutdown env))
     \<union> (if se_lateWorker env then {RetentionWorkers} else {}) \<union> (if se_lateLogs env then {TopicLogs} else {})"

lemma open_late_simps [simp]:
  "st_http (open_late env st) = st_http st" "st_raft (open_late env st) = st_raft st"
  "set (st_open (open_late env st)) = set (st_open st)
     \<union> (if se_lateWorker env then {RetentionWorkers} else {}) \<union> (if se_lateLogs env then {TopicLogs} else {})"
  by (auto simp: open_late_def acquire_def Let_def)

lemma close_started_leaves:
  assumes "closable st"
  shows "st_http (close_started env st)" and "set (st_open (close_started env st)) = left_open env"
  using assms
  by (cases "st_grpc st"; auto simp: closable_def close_started_def release_def raft_open_def left_open_def)+

lemma closable_stages:
  assumes "st_open st = topics_open env @ raft_open" "\<not> st_grpc st"
  defines "st1 \<equiv> (acquire HTTPServer st)\<lparr>st_http := True\<rparr>"
  defines "st2 \<equiv> acquire GRPCListener st1"
  shows "closable st1" and "closable (release [GRPCListener] st2)"
    and "closable ((acquire GRPCServer st2)\<lparr>st_grpc := True, st_creds := creds\<rparr>)"
  using assms(1,2)
  by (auto simp: st1_def st2_def closable_def acquire_def release_def raft_open_def topics_open_def)

lemma start_servers_fails:
  assumes f: "start_servers env httpAddr peers c k a st = (Inl e, st')" and o: "st_open st = topics_open env @ raft_open" "\<not> st_grpc st"
  shows "st_http st' \<and> set (st_open st') = left_open env"
proof -
  have "\<exists>s. st' = close_started env s \<and> closable s"
    using f closable_stages [OF o]
    by (force simp: start_servers_def Let_def split: option.splits sum.splits)
  then show ?thesis using close_started_leaves by blast
qed

lemma start_servers_done:
  assumes "start_servers env httpAddr peers c k a st = (Inr (), st')"
  shows "st_open st' = [Workers, GRPCServer, GRPCListener, HTTPServer] @ st_open st"
    and "st_http st'" and "st_grpc st'" and "st_layer st' = st_layer st"
    and "if tls_enabled c k a then map_sum id Some (LoadServerTLSConfig (se_pki_grpc env) c k a) = Inr (st_creds st')
      else st_creds st' = None"
  using assms
  by (auto simp: start_servers_def acquire_def Let_def split: if_splits option.splits sum.splits)

text \<open>The stages of \<open>NewBroker\<close>.\<close>

lemma NewBroker_stages:
  fixes env :: "('cert, 'pool) startup_env"
  assumes n: "NewBroker env httpAddr peers c k a = (r, st)"
  shows "(\<exists>e. r = Inl e \<and> st_open st = (if st_raft st then topics_open env else []) \<and> \<not> st_http st)
    \<or> (\<exists>st3. start_servers env httpAddr peers c k a st3 = (r, st)
        \<and> st_open st3 = topics_open env @ raft_open \<and> \<not> st_http st3 \<and> \<not> st_grpc st3
        \<and> (if tls_enabled c k a
           then (\<exists>layer. st_layer st3 = Some layer \<and> loaded_layer (se_pki env) c k a layer)
           else st_layer st3 = None))"
proof (cases "se_groups env = None \<and> se_mkdir env = None")
  case False
  then show ?thesis
    using n by (auto simp: NewBroker_def acquire_def release_def st_init_def Let_def split: option.splits)
next
  case True
  let ?st1 = "acquire ConsumerGroupsDB st_init :: ('cert, 'pool) startup"
  have st1: "st_open ?st1 = [ConsumerGroupsDB]" "\<not> st_http ?st1" "\<not> st_grpc ?st1" "st_layer ?st1 = None"
    "\<not> st_raft ?st1"
    by (simp_all add: acquire_def st_init_def)
  obtain r2 st2 where t: "open_transport env c k a ?st1 = (r2, st2)" by fastforce
  obtain r3 st3 where s: "start_raft env peers st2 = (r3, st3)" by fastforce
  consider e where "r2 = Inl e" | e where "r2 = Inr ()" "r3 = Inl e" | "r2 = Inr ()" "r3 = Inr ()"
    by (cases r2; cases r3) auto
  then show ?thesis
  proof cases
    case 1
    then have "r = Inl e \<and> st = st2" using n True t by (simp add: NewBroker_def Let_def)
    then show ?thesis using open_transport_fails [OF t [unfolded 1] st1(1)] st1(2,5) by simp
  next
    case 2
    then have "r = Inl e \<and> st = st3" using n True t s by (simp add: NewBroker_def Let_def)
    then show ?thesis
      using open_transport_done [OF t [unfolded 2(1)]] start_raft_fails [OF s [unfolded 2(2)]] st1 by simp
  next
    case 3
    note d = open_transport_done [OF t [unfolded 3]] start_raft_done [OF s [unfolded 3]]
    have "start_servers env httpAddr peers c k a st3 = (r, st)" using n True t s 3 by (simp add: NewBroker_def Let_def)
    then show ?thesis using d st1 by (intro disjI2 exI [of _ st3]) (simp add: raft_open_def split: if_splits)
  qed
qed

text \<open>What a failed start leaves open, and what \<open>Close\<close> leaves open after a successful one.\<close>

lemma NewBroker_fails:
  assumes "NewBroker env httpAddr peers c k a = (Inl e, st)"
  shows "set (st_open st) = (if st_http st then left_open env
    else if st_raft st then set (topics_open env) else {})"
  using NewBroker_stages [OF assms] start_servers_fails [of env httpAddr peers c k a] by auto

lemma NewBroker_done:
  assumes "NewBroker env httpAddr peers c k a = (Inr (), st)"
  shows "st_open st = all_open env" and "st_http st" and "st_grpc st"
    and "if tls_enabled c k a
      then (\<exists>layer. st_layer st = Some layer \<and> loaded_layer (se_pki env) c k a layer) else st_layer st = None"
    and "if tls_enabled c k a then map_sum id Some (LoadServerTLSConfig (se_pki_grpc env) c k a) = Inr (st_creds st)
      else st_creds st = None"
proof -
  obtain st3 where s: "start_servers env httpAddr peers c k a st3 = (Inr (), st)" and o: "st_open st3 = topics_open env @ raft_open"
    and l: "if tls_enabled c k a
      then (\<exists>layer. st_layer st3 = Some layer \<and> loaded_layer (se_pki env) c k a layer) else st_layer st3 = None"
    using NewBroker_stages [OF assms] by auto
  note d = start_servers_done [OF s]
  show "st_open st = all_open env" "st_http st" "st_grpc st" using d o by (simp_all add: all_open_def)
  show "if tls_enabled c k a
      then (\<exists>layer. st_layer st = Some layer \<and> loaded_layer (se_pki env) c k a layer) else st_layer st = None"
    using l d(4) by simp
  show "if tls_enabled c k a then map_sum id Some (LoadServerTLSConfig (se_pki_grpc env) c k a) = Inr (st_creds st)
      else st_creds st = None" by (rule d(5))
qed

lemma NewBroker_then_Close:
  assumes "NewBroker env httpAddr peers c k a = (Inr (), st)"
  shows "set (st_open (close_started env st)) = left_open env"
  using NewBroker_done(1-3) [OF assms]
  by (intro close_started_leaves(2)) (auto simp: closable_def all_open_def topics_open_def)

text \<open>With every call succeeding \<open>NewBroker\<close> returns a broker.\<close>

definition startup_ok ::
  "('cert, 'pool) startup_env \<Rightarrow> string \<Rightarrow> string \<Rightarrow> string \<Rightarrow> string \<Rightarrow> string \<Rightarrow> bool" where
  "startup_ok env httpAddr peers c k a \<longleftrightarrow>
     (\<forall>x \<in> {se_groups env, se_mkdir env, se_listen env, se_tcpTransport env, se_logStore env,
        se_stableStore env, se_snapshotStore env, se_newRaft env, se_bootstrap env, se_grpcListen env}. x = None)
     \<and> is_ok (se_hasState env) \<and> is_ok (grpcAddress httpAddr)
     \<and> (tls_enabled c k a \<longrightarrow> is_ok (LoadServerTLSConfig (se_pki env) c k a)
          \<and> is_ok (LoadServerTLSConfig (se_pki_grpc env) c k a))
     \<and> (peers \<noteq> [] \<longrightarrow> is_ok (fst (joinPeer (se_post env))))"

lemma NewBroker_ok:
  assumes ok: "startup_ok env httpAddr peers c k a"
  shows "\<exists>st. NewBroker env httpAddr peers c k a = (Inr (), st)"
proof -
  obtain h where h: "se_hasState env = Inr h" using ok by (auto simp: startup_ok_def is_ok_iff)
  obtain g where g: "grpcAddress httpAddr = Inr g" using ok by (auto simp: startup_ok_def is_ok_iff)
  have j: "(if peers \<noteq> [] then fst (joinPeer (se_post env)) else Inr ()) = Inr ()"
    using ok by (cases "fst (joinPeer (se_post env))") (auto simp: startup_ok_def)
  have t: "\<exists>st'. open_transport env c k a st = (Inr (), st')" for st
    using ok Load_both [of "se_pki env" c k a]
    by (auto simp: startup_ok_def open_transport_def is_ok_iff)
  have r: "\<exists>st'. start_raft env peers st = (Inr (), st')" for st
    using ok h by (cases h) (auto simp: startup_ok_def start_raft_def Let_def)
  have s: "\<exists>st'. start_servers env httpAddr peers c k a st = (Inr (), st')" for st
    using ok g j by (auto simp: startup_ok_def start_servers_def Let_def is_ok_iff)
  obtain st2 where "open_transport env c k a (acquire ConsumerGroupsDB st_init) = (Inr (), st2)" using t by blast
  moreover obtain st3 where "start_raft env peers st2 = (Inr (), st3)" using r by blast
  moreover obtain st4 where "start_servers env httpAddr peers c k a st3 = (Inr (), st4)" using s by blast
  ultimately show ?thesis using ok by (simp add: NewBroker_def startup_ok_def Let_def)
qed

end
