(* ===== verification/Shutdown.thy ===== *)
theory Shutdown
  imports Prelude
begin

text \<open>
  How \<open>Close\<close> stops the background workers of a broker. \<open>startConsumerGroupLagUpdater\<close>,
  \<open>startCompactionUpdater\<close> and, once per topic, \<open>startTopicRetentionUpdater\<close> start a goroutine that
  loops over a \<open>select\<close> on a ticker and on the stop channel of its group; the channel is read from
  the broker's field at the start of every round, and a receive from a nil channel blocks forever.
  \<open>Close\<close> goes through the groups: it closes the channel, sets the field to nil and waits until the
  group has no running worker. Requests are still served meanwhile, so topics can be created.
\<close>

section \<open>Workers and Close\<close>

datatype group = CompactWorkers | RetainWorkers | LagWorkers

text \<open>A worker waits in \<open>select\<close> (with the channel or with nil), is between two waits, or has returned.\<close>

datatype worker = Waiting bool | Working | Returned

text \<open>Where \<open>Close\<close> is within a group: before \<open>close(ch)\<close>, after it, after \<open>field = nil\<close>.\<close>

datatype stage = Begin | ChannelClosed | FieldNil
datatype closer = NotYet | Stopping group stage | Stopped

record shutdown_state =
  sd_workers :: "(group \<times> worker) list"
  sd_closer :: closer
  sd_field :: "group \<Rightarrow> bool"
  sd_closed :: "group \<Rightarrow> bool"

definition start_worker :: "group \<Rightarrow> shutdown_state \<Rightarrow> shutdown_state" where
  "start_worker g s = s\<lparr>sd_workers := sd_workers s @ [(g, Working)]\<rparr>"

definition startTopicRetentionUpdater :: "shutdown_state \<Rightarrow> shutdown_state" where
  "startTopicRetentionUpdater s = start_worker RetainWorkers s"
definition startConsumerGroupLagUpdater :: "shutdown_state \<Rightarrow> shutdown_state" where
  "startConsumerGroupLagUpdater s = start_worker LagWorkers s"
definition startCompactionUpdater :: "shutdown_state \<Rightarrow> shutdown_state" where
  "startCompactionUpdater s = start_worker CompactWorkers s"

definition sd_init :: shutdown_state where
  "sd_init = startCompactionUpdater (startConsumerGroupLagUpdater
     \<lparr>sd_workers = [], sd_closer = NotYet, sd_field = (\<lambda>_. True), sd_closed = (\<lambda>_. False)\<rparr>)"

definition set_worker :: "nat \<Rightarrow> worker \<Rightarrow> shutdown_state \<Rightarrow> shutdown_state" where
  "set_worker i w s = s\<lparr>sd_workers := (sd_workers s)[i := (fst (sd_workers s ! i), w)]\<rparr>"

definition worker_at :: "shutdown_state \<Rightarrow> nat \<Rightarrow> group \<Rightarrow> worker \<Rightarrow> bool" where
  "worker_at s i g w \<longleftrightarrow> i < length (sd_workers s) \<and> sd_workers s ! i = (g, w)"

fun next_group :: "group \<Rightarrow> closer" where
  "next_group CompactWorkers = Stopping RetainWorkers Begin"
| "next_group RetainWorkers = Stopping LagWorkers Begin"
| "next_group LagWorkers = Stopped"

inductive sd_step :: "shutdown_state \<Rightarrow> shutdown_state \<Rightarrow> bool" where
  Tick: "worker_at s i g (Waiting c) \<Longrightarrow> sd_step s (set_worker i Working s)"
| Round: "worker_at s i g Working \<Longrightarrow> sd_step s (set_worker i (Waiting (sd_field s g)) s)"
| Stop: "worker_at s i g (Waiting True) \<Longrightarrow> sd_closed s g \<Longrightarrow> sd_step s (set_worker i Returned s)"
| Topic: "sd_step s (startTopicRetentionUpdater s)"
| Start: "sd_closer s = NotYet \<Longrightarrow> sd_step s (s\<lparr>sd_closer := Stopping CompactWorkers Begin\<rparr>)"
| Skip: "sd_closer s = Stopping g Begin \<Longrightarrow> \<not> sd_field s g \<Longrightarrow> sd_step s (s\<lparr>sd_closer := next_group g\<rparr>)"
| CloseChannel: "sd_closer s = Stopping g Begin \<Longrightarrow> sd_field s g \<Longrightarrow>
    sd_step s (s\<lparr>sd_closer := Stopping g ChannelClosed, sd_closed := (sd_closed s)(g := True)\<rparr>)"
| SetNil: "sd_closer s = Stopping g ChannelClosed \<Longrightarrow>
    sd_step s (s\<lparr>sd_closer := Stopping g FieldNil, sd_field := (sd_field s)(g := False)\<rparr>)"
| WaitDone: "sd_closer s = Stopping g FieldNil \<Longrightarrow> \<forall>w. (g, w) \<in> set (sd_workers s) \<longrightarrow> w = Returned \<Longrightarrow>
    sd_step s (s\<lparr>sd_closer := next_group g\<rparr>)"

inductive_cases sd_stepE: "sd_step s s'"

lemma worker_at_mem: "worker_at s i g w \<Longrightarrow> (g, w) \<in> set (sd_workers s)"
  by (metis worker_at_def nth_mem)

lemma set_worker_simps [simp]:
  "sd_closer (set_worker i w s) = sd_closer s" "sd_field (set_worker i w s) = sd_field s"
  "sd_closed (set_worker i w s) = sd_closed s"
  by (simp_all add: set_worker_def)

lemma start_worker_simps [simp]:
  "sd_closer (start_worker g s) = sd_closer s" "sd_field (start_worker g s) = sd_field s"
  "sd_closed (start_worker g s) = sd_closed s" "sd_workers (start_worker g s) = sd_workers s @ [(g, Working)]"
  by (simp_all add: start_worker_def)

lemma set_worker_mem:
  "worker_at s i g w \<Longrightarrow> (g', w') \<in> set (sd_workers (set_worker i v s)) \<Longrightarrow>
     (g', w') = (g, v) \<or> (g', w') \<in> set (sd_workers s)"
  using set_update_subset_insert by (fastforce simp: set_worker_def worker_at_def)

section \<open>What Close waits for\<close>

text \<open>\<open>Close\<close> is done with the group.\<close>

fun passed :: "group \<Rightarrow> closer \<Rightarrow> bool" where
  "passed g NotYet \<longleftrightarrow> False"
| "passed g Stopped \<longleftrightarrow> True"
| "passed g (Stopping h st) \<longleftrightarrow> g \<noteq> h \<and> (g = CompactWorkers \<or> h = LagWorkers)"

definition sd_safe :: "shutdown_state \<Rightarrow> bool" where
  "sd_safe s \<longleftrightarrow> (\<forall>g w. (g, w) \<in> set (sd_workers s) \<longrightarrow>
       (w = Returned \<longrightarrow> sd_closed s g) \<and> (g \<noteq> RetainWorkers \<and> passed g (sd_closer s) \<longrightarrow> w = Returned))
     \<and> (\<forall>g. \<not> sd_field s g \<longrightarrow> sd_closer s = Stopping g FieldNil \<or> passed g (sd_closer s))"

lemma passed_next: "passed h (next_group g) \<Longrightarrow> h = g \<or> passed h (Stopping g st)"
  by (cases g; cases h) auto

lemma passed_next_mono: "passed h (Stopping g st) \<Longrightarrow> passed h (next_group g)"
  by (cases g; cases h) auto

lemma passed_next_self: "passed g (next_group g)"
  by (cases g) auto

lemma sd_safe_set_worker:
  assumes "sd_safe s" "worker_at s i g w" "w \<noteq> Returned" "v = Returned \<longrightarrow> sd_closed s g"
  shows "sd_safe (set_worker i v s)"
proof -
  have "g \<noteq> RetainWorkers \<Longrightarrow> \<not> passed g (sd_closer s)"
    using assms(1-3) worker_at_mem [OF assms(2)] unfolding sd_safe_def by blast
  then show ?thesis
    using assms(1,4) set_worker_mem [OF assms(2)] unfolding sd_safe_def set_worker_simps by blast
qed

lemma sd_safe_step: "sd_step s s' \<Longrightarrow> sd_safe s \<Longrightarrow> sd_safe s'"
proof (induction rule: sd_step.induct)
  case (Tick s i g c)
  then show ?case using sd_safe_set_worker by blast
next
  case (Round s i g)
  then show ?case using sd_safe_set_worker by blast
next
  case (Stop s i g)
  then show ?case using sd_safe_set_worker by blast
next
  case (Topic s)
  then show ?case
    unfolding sd_safe_def startTopicRetentionUpdater_def by auto
next
  case (WaitDone s g)
  then show ?case
    using passed_next [of _ g FieldNil] passed_next_mono [of _ g FieldNil] passed_next_self
    unfolding sd_safe_def by (simp, blast)
next
  case (Skip s g)
  then have "passed g (Stopping g Begin)" unfolding sd_safe_def by (metis closer.inject stage.distinct(3))
  then show ?case by simp
qed (auto simp: sd_safe_def)

lemma sd_safe_run: "sd_step\<^sup>*\<^sup>* s s' \<Longrightarrow> sd_safe s \<Longrightarrow> sd_safe s'"
  by (induction rule: rtranclp_induct) (auto intro: sd_safe_step)

lemma sd_safe_init: "sd_safe sd_init"
  by (simp add: sd_safe_def sd_init_def startCompactionUpdater_def startConsumerGroupLagUpdater_def)

section \<open>Workers that never stop\<close>

text \<open>A worker that enters its wait after the field of its group was set to nil never returns.\<close>

definition lost :: "nat \<Rightarrow> group \<Rightarrow> shutdown_state \<Rightarrow> bool" where
  "lost i g s \<longleftrightarrow> \<not> sd_field s g \<and> (worker_at s i g Working \<or> worker_at s i g (Waiting False))"

lemma worker_at_set_worker:
  "worker_at (set_worker i v s) j g w \<longleftrightarrow> (if i = j then j < length (sd_workers s) \<and> fst (sd_workers s ! j) = g \<and> v = w else worker_at s j g w)"
  by (auto simp: worker_at_def set_worker_def)

lemma worker_at_start: "worker_at s j g w \<Longrightarrow> worker_at (start_worker h s) j g w"
  by (simp add: worker_at_def start_worker_def nth_append)

lemma lost_step: "sd_step s s' \<Longrightarrow> lost i g s \<Longrightarrow> lost i g s'"
proof (induction rule: sd_step.induct)
  case (Topic s)
  then show ?case
    using worker_at_start by (auto simp: lost_def startTopicRetentionUpdater_def)
qed (auto simp: lost_def worker_at_set_worker, auto simp: worker_at_def)

lemma lost_run: "sd_step\<^sup>*\<^sup>* s s' \<Longrightarrow> lost i g s \<Longrightarrow> lost i g s'"
  by (induction rule: rtranclp_induct) (auto intro: lost_step)

text \<open>While \<open>Close\<close> waits for the group of such a worker it waits forever.\<close>

lemma stuck_step: "sd_step s s' \<Longrightarrow> lost i g s \<Longrightarrow> sd_closer s = Stopping g FieldNil \<Longrightarrow> sd_closer s' = Stopping g FieldNil"
proof (induction rule: sd_step.induct)
  case (WaitDone s h)
  then show ?case using worker_at_mem by (fastforce simp: lost_def)
qed (auto simp: startTopicRetentionUpdater_def)

lemma stuck_run:
  "sd_step\<^sup>*\<^sup>* s s' \<Longrightarrow> lost i g s \<Longrightarrow> sd_closer s = Stopping g FieldNil \<Longrightarrow> sd_closer s' = Stopping g FieldNil"
proof (induction rule: rtranclp_induct)
  case (step s1 s2)
  then show ?case using stuck_step lost_run by blast
qed simp

section \<open>Runs of Close\<close>

definition stop_waiting :: "group \<Rightarrow> group \<times> worker \<Rightarrow> group \<times> worker" where
  "stop_waiting g w = (if w = (g, Waiting True) then (g, Returned) else w)"

text \<open>All workers of a group that wait with the channel can return once it is closed.\<close>

lemma stop_all:
  assumes "sd_closed s g" "k \<le> length (sd_workers s)"
  shows "sd_step\<^sup>*\<^sup>* s (s\<lparr>sd_workers := map (stop_waiting g) (take k (sd_workers s)) @ drop k (sd_workers s)\<rparr>)"
  using assms(2)
proof (induction k)
  case 0
  then show ?case by simp
next
  case (Suc k)
  let ?ws = "sd_workers s"
  let ?s = "s\<lparr>sd_workers := map (stop_waiting g) (take k ?ws) @ drop k ?ws\<rparr>"
  let ?t = "s\<lparr>sd_workers := map (stop_waiting g) (take (Suc k) ?ws) @ drop (Suc k) ?ws\<rparr>"
  have k: "k < length ?ws" and split: "drop k ?ws = ?ws ! k # drop (Suc k) ?ws"
    "take (Suc k) ?ws = take k ?ws @ [?ws ! k]"
    using Suc.prems by (simp_all add: Cons_nth_drop_Suc take_Suc_conv_app_nth)
  have "sd_step\<^sup>*\<^sup>* ?s ?t"
  proof (cases "?ws ! k = (g, Waiting True)")
    case True
    have "worker_at ?s k g (Waiting True)" using k True by (simp add: worker_at_def nth_append split)
    then have "sd_step ?s (set_worker k Returned ?s)" by (rule Stop) (use assms(1) in simp)
    moreover have "set_worker k Returned ?s = ?t"
      using k True by (simp add: set_worker_def split stop_waiting_def list_update_append nth_append)
    ultimately show ?thesis by auto
  qed (simp add: split stop_waiting_def)
  then show ?case using Suc.IH Suc.prems by (simp add: rtranclp_trans)
qed

lemma close_group_run:
  assumes "sd_closer s = Stopping g Begin" "sd_field s g"
    "\<forall>w. (g, w) \<in> set (sd_workers s) \<longrightarrow> w \<in> {Waiting True, Returned}"
  shows "sd_step\<^sup>*\<^sup>* s (s\<lparr>sd_workers := map (stop_waiting g) (sd_workers s), sd_closer := next_group g,
     sd_field := (sd_field s)(g := False), sd_closed := (sd_closed s)(g := True)\<rparr>)"
proof -
  let ?s1 = "s\<lparr>sd_closer := Stopping g ChannelClosed, sd_closed := (sd_closed s)(g := True)\<rparr>"
  let ?s2 = "?s1\<lparr>sd_closer := Stopping g FieldNil, sd_field := (sd_field s)(g := False)\<rparr>"
  let ?s3 = "?s2\<lparr>sd_workers := map (stop_waiting g) (sd_workers s)\<rparr>"
  have "sd_step s ?s1" by (rule CloseChannel [OF assms(1,2)])
  moreover have "sd_step ?s1 ?s2" using SetNil [of ?s1 g] by simp
  moreover have "sd_step\<^sup>*\<^sup>* ?s2 ?s3" using stop_all [of ?s2 g "length (sd_workers s)"] by simp
  moreover have "sd_step ?s3 (?s3\<lparr>sd_closer := next_group g\<rparr>)"
    by (rule WaitDone) (use assms(3) in \<open>auto simp: stop_waiting_def\<close>)
  ultimately have "sd_step\<^sup>*\<^sup>* s (?s3\<lparr>sd_closer := next_group g\<rparr>)"
    by (meson converse_rtranclp_into_rtranclp rtranclp.rtrancl_into_rtrancl)
  then show ?thesis by (cases s) simp
qed

text \<open>With both initial workers waiting, \<open>Close\<close> has stopped the first two groups.\<close>

definition group_stopped :: "group \<Rightarrow> shutdown_state \<Rightarrow> shutdown_state" where
  "group_stopped g s = s\<lparr>sd_workers := map (stop_waiting g) (sd_workers s), sd_closer := next_group g,
     sd_field := (sd_field s)(g := False), sd_closed := (sd_closed s)(g := True)\<rparr>"

lemma closing_reached:
  "\<exists>s. sd_step\<^sup>*\<^sup>* sd_init s \<and> sd_workers s = [(LagWorkers, Waiting True), (CompactWorkers, Returned)]
     \<and> sd_closer s = Stopping LagWorkers Begin \<and> sd_field s LagWorkers \<and> \<not> sd_field s RetainWorkers"
proof -
  have i: "sd_init = \<lparr>sd_workers = [(LagWorkers, Working), (CompactWorkers, Working)], sd_closer = NotYet,
      sd_field = (\<lambda>_. True), sd_closed = (\<lambda>_. False)\<rparr>"
    by (simp add: sd_init_def startCompactionUpdater_def startConsumerGroupLagUpdater_def start_worker_def)
  let ?w = "sd_init\<lparr>sd_workers := [(LagWorkers, Waiting True), (CompactWorkers, Working)]\<rparr>"
  let ?v = "sd_init\<lparr>sd_workers := [(LagWorkers, Waiting True), (CompactWorkers, Waiting True)]\<rparr>"
  let ?u = "?v\<lparr>sd_closer := Stopping CompactWorkers Begin\<rparr>"
  have "sd_step sd_init ?w" using Round [of sd_init 0 LagWorkers] by (simp add: i worker_at_def set_worker_def)
  moreover have "sd_step ?w ?v" using Round [of ?w 1 CompactWorkers] by (simp add: i worker_at_def set_worker_def)
  moreover have "sd_step ?v ?u" by (rule Start) (simp add: i)
  moreover have "sd_step\<^sup>*\<^sup>* ?u (group_stopped CompactWorkers ?u)"
    unfolding group_stopped_def by (rule close_group_run) (simp_all add: i)
  moreover have "sd_step\<^sup>*\<^sup>* (group_stopped CompactWorkers ?u) (group_stopped RetainWorkers (group_stopped CompactWorkers ?u))"
    unfolding group_stopped_def [of RetainWorkers]
    by (rule close_group_run) (simp_all add: i group_stopped_def stop_waiting_def)
  ultimately have "sd_step\<^sup>*\<^sup>* sd_init (group_stopped RetainWorkers (group_stopped CompactWorkers ?u))"
    by (meson converse_rtranclp_into_rtranclp rtranclp_trans)
  then show ?thesis
    by (intro exI [of _ "group_stopped RetainWorkers (group_stopped CompactWorkers ?u)"])
      (simp add: i group_stopped_def stop_waiting_def)
qed

text \<open>A topic that is created now gets a worker that outlives \<open>Close\<close>.\<close>

lemma late_worker_reached:
  "\<exists>s i. sd_step\<^sup>*\<^sup>* sd_init s \<and> sd_closer s = Stopped \<and> \<not> sd_field s RetainWorkers \<and> worker_at s i RetainWorkers Working"
proof -
  obtain s where s: "sd_step\<^sup>*\<^sup>* sd_init s" "sd_workers s = [(LagWorkers, Waiting True), (CompactWorkers, Returned)]"
    "sd_closer s = Stopping LagWorkers Begin" "sd_field s LagWorkers" "\<not> sd_field s RetainWorkers"
    using closing_reached by blast
  let ?s = "startTopicRetentionUpdater s"
  have w: "sd_workers ?s = [(LagWorkers, Waiting True), (CompactWorkers, Returned), (RetainWorkers, Working)]"
    "sd_closer ?s = Stopping LagWorkers Begin" "sd_field ?s = sd_field s"
    by (simp_all add: startTopicRetentionUpdater_def s)
  have r: "sd_step\<^sup>*\<^sup>* sd_init ?s" using s(1) Topic by (rule rtranclp.rtrancl_into_rtrancl)
  have "sd_step\<^sup>*\<^sup>* ?s (group_stopped LagWorkers ?s)"
    unfolding group_stopped_def by (rule close_group_run) (simp_all add: w s)
  moreover have "sd_closer (group_stopped LagWorkers ?s) = Stopped" "\<not> sd_field (group_stopped LagWorkers ?s) RetainWorkers"
    "worker_at (group_stopped LagWorkers ?s) 2 RetainWorkers Working"
    by (simp_all add: group_stopped_def worker_at_def stop_waiting_def w s)
  ultimately show ?thesis using r by (meson rtranclp_trans)
qed

lemma stuck_reached:
  "\<exists>s i. sd_step\<^sup>*\<^sup>* sd_init s \<and> sd_closer s = Stopping CompactWorkers FieldNil
     \<and> \<not> sd_field s CompactWorkers \<and> worker_at s i CompactWorkers Working"
proof -
  let ?s1 = "sd_init\<lparr>sd_closer := Stopping CompactWorkers Begin\<rparr>"
  let ?s2 = "?s1\<lparr>sd_closer := Stopping CompactWorkers ChannelClosed, sd_closed := (sd_closed ?s1)(CompactWorkers := True)\<rparr>"
  let ?s3 = "?s2\<lparr>sd_closer := Stopping CompactWorkers FieldNil, sd_field := (sd_field ?s2)(CompactWorkers := False)\<rparr>"
  note i = sd_init_def startCompactionUpdater_def startConsumerGroupLagUpdater_def
  have "sd_step sd_init ?s1" by (rule Start) (simp add: i)
  moreover have "sd_step ?s1 ?s2" by (rule CloseChannel) (simp_all add: i)
  moreover have "sd_step ?s2 ?s3" by (rule SetNil) simp
  ultimately have "sd_step\<^sup>*\<^sup>* sd_init ?s3" by (meson converse_rtranclp_into_rtranclp rtranclp.rtrancl_refl)
  moreover have "worker_at ?s3 1 CompactWorkers Working" by (simp add: worker_at_def i)
  ultimately show ?thesis by (intro exI [of _ ?s3] exI [of _ 1]) simp
qed


text \<open>No worker disappears from the list.\<close>

lemma set_worker_groups: "map fst (sd_workers (set_worker i w s)) = map fst (sd_workers s)"
proof (cases "i < length (sd_workers s)")
  case True
  then have "(map fst (sd_workers s))[i := map fst (sd_workers s) ! i] = map fst (sd_workers s)" by (intro list_update_id)
  then show ?thesis using True by (simp add: set_worker_def map_update)
qed (simp add: set_worker_def not_less list_update_beyond)

lemma worker_group_step:
  "sd_step s s' \<Longrightarrow> \<exists>w. (g, w) \<in> set (sd_workers s) \<Longrightarrow> \<exists>w. (g, w) \<in> set (sd_workers s')"
proof -
  assume st: "sd_step s s'" and w: "\<exists>w. (g, w) \<in> set (sd_workers s)"
  have "\<exists>xs. map fst (sd_workers s') = map fst (sd_workers s) @ xs"
    using st by (induction rule: sd_step.induct) (simp_all add: set_worker_groups startTopicRetentionUpdater_def)
  then have "fst ` set (sd_workers s) \<subseteq> fst ` set (sd_workers s')" by (metis Un_upper1 list.set_map set_append)
  then show ?thesis using w by force
qed

lemma lag_worker_stays: "sd_step\<^sup>*\<^sup>* sd_init s \<Longrightarrow> \<exists>w. (LagWorkers, w) \<in> set (sd_workers s)"
proof (induction rule: rtranclp_induct)
  case base
  then show ?case by (simp add: sd_init_def startCompactionUpdater_def startConsumerGroupLagUpdater_def)
next
  case (step s1 s2)
  then show ?case using worker_group_step by blast
qed


end
