(* ===== verification/Samples.thy ===== *)
theory Samples
  imports CommitRace ServiceRuns CliLaws TornWrites Startup Shutdown "HOL-Library.AList" "HOL-Library.Code_Target_Numeral"
begin

text \<open>
  Concrete states on which the properties are exercised: a codec, and a log with a segment limit
  of 20 bytes that is created in an empty directory, receives two messages and rolls over after
  each. That the model computes these states is proved by evaluation.
\<close>

definition demo_codec :: codec where
  "demo_codec = \<lparr>Encode = (\<lambda>p. Some (0 # p)),
     Decode = (\<lambda>q. case q of [] \<Rightarrow> None | _ # p \<Rightarrow> Some p)\<rparr>"

lemma demo_codec_ok: "codec_ok demo_codec"
  by (simp add: codec_ok_def demo_codec_def)

definition demo_seg :: "u64 \<Rightarrow> u64 \<Rightarrow> int \<Rightarrow> int \<Rightarrow> segment" where
  "demo_seg base next n e =
     \<lparr>seg_baseOffset = base, seg_nextOffset = next, seg_size = n, seg_indexEntries = e,
      seg_compressed = False, seg_logFile = Some (log_name base), seg_logRead = Some (log_name base),
      seg_indexWrite = Some (index_name base), seg_indexRead = Some (index_name base)\<rparr>"

definition demo_log :: "segment list \<Rightarrow> log" where
  "demo_log ss = \<lparr>log_maxSegmentSize = 20, log_segments = ss, log_compressed = False,
     log_observer = False, log_observed = []\<rparr>"

definition demo_dir :: "(string \<times> bytes) list \<Rightarrow> directory" where
  "demo_dir fs = \<lparr>files = fs, subdirs = [], sched = []\<rparr>"

definition demo_rec0 :: bytes where
  "demo_rec0 = [0, 0, 0, 0, 0, 0, 0, 0, 0, 0, 0, 0, 0, 0, 0, 5, 0, 0, 0, 1, 0, 0, 0, 1, 1, 10]"
definition demo_rec1 :: bytes where
  "demo_rec1 = [0, 0, 0, 0, 0, 0, 0, 1, 0, 0, 0, 0, 0, 0, 0, 6, 0, 0, 0, 1, 0, 0, 0, 2, 1, 20, 21]"
definition demo_idx :: "byte \<Rightarrow> bytes" where
  "demo_idx b = [0, 0, 0, 0, 0, 0, 0, b, 0, 0, 0, 0, 0, 0, 0, 0]"

definition demo_log0 :: log where "demo_log0 = demo_log [demo_seg 0 0 0 0]"
definition demo_dir0 :: directory where "demo_dir0 = demo_dir [(''0.log'', []), (''0.index'', [])]"

definition demo_log1 :: log where "demo_log1 = demo_log [demo_seg 0 1 26 1, demo_seg 1 1 0 0]"
definition demo_dir1 :: directory where
  "demo_dir1 = demo_dir [(''0.log'', demo_rec0), (''0.index'', demo_idx 0),
     (''1.log'', []), (''1.index'', [])]"

definition demo_log2 :: log where
  "demo_log2 = demo_log [demo_seg 0 1 26 1, demo_seg 1 2 27 1, demo_seg 2 2 0 0]"
definition demo_dir2 :: directory where
  "demo_dir2 = demo_dir [(''0.log'', demo_rec0), (''0.index'', demo_idx 0),
     (''1.log'', demo_rec1), (''1.index'', demo_idx 1), (''2.log'', []), (''2.index'', [])]"

lemma demo_new_eq: "NewLog [20] empty_dir = (Inr demo_log0, demo_dir0)"
  by code_simp

lemma demo_a1_eq: "log_Append demo_codec 5 [1] [10] demo_log0 demo_dir0 = (Inr 0, demo_log1, demo_dir1)"
  by code_simp

lemma demo_a2_eq: "log_Append demo_codec 6 [1] [20, 21] demo_log1 demo_dir1 = (Inr 1, demo_log2, demo_dir2)"
  by code_simp

definition demo_msg0 :: message where
  "demo_msg0 = \<lparr>msg_Offset = 0, msg_Timestamp = 5, msg_Key = [1], msg_Value = [10]\<rparr>"
definition demo_msg1 :: message where
  "demo_msg1 = \<lparr>msg_Offset = 1, msg_Timestamp = 6, msg_Key = [1], msg_Value = [20, 21]\<rparr>"

lemma demo_next: "log_next demo_log0 = 0" "log_next demo_log1 = 1" "log_next demo_log2 = 2"
  and demo_start: "log_start demo_log0 = 0" "log_start demo_log1 = 0" "log_start demo_log2 = 0"
  by (simp_all add: log_next_def log_start_def demo_log0_def demo_log1_def demo_log2_def
      demo_log_def demo_seg_def)

lemma demo_sched: "sched demo_dir0 = []" "sched demo_dir1 = []" "sched demo_dir2 = []"
  and demo_no_dirs: "no_dirs demo_dir0" "no_dirs demo_dir1" "no_dirs demo_dir2"
  by (simp_all add: demo_dir0_def demo_dir1_def demo_dir2_def demo_dir_def no_dirs_def)

lemma empty_dir_simps:
  "lookup_file empty_dir = Map.empty" "dir_wf empty_dir" "sched empty_dir = []"
  "files empty_dir = []" "subdirs empty_dir = []"
  by (auto simp: empty_dir_def lookup_file_def dir_wf_def)

lemma demo_inv0: "log_inv demo_codec demo_dir0 demo_log0 [[]]"
  by (rule NewLog_fresh(1) [OF demo_new_eq]) (simp_all add: empty_dir_simps)

lemma demo_holds0: "log_holds demo_codec demo_dir0 demo_log0 []"
  using demo_inv0 by (auto simp: log_holds_def)

lemma demo_holds1: "log_holds demo_codec demo_dir1 demo_log1 [demo_msg0]"
  using log_Append_holds(5) [OF demo_holds0 _ demo_a1_eq] by (simp add: demo_next demo_msg0_def)

lemma demo_holds2: "log_holds demo_codec demo_dir2 demo_log2 [demo_msg0, demo_msg1]"
  using log_Append_holds(5) [OF demo_holds1 _ demo_a2_eq] by (simp add: demo_next demo_msg1_def)

text \<open>The split of those two messages over the three segments.\<close>

lemma demo_inv2: "log_inv demo_codec demo_dir2 demo_log2 [[demo_msg0], [demo_msg1], []]"
proof -
  obtain mss where i: "log_inv demo_codec demo_dir2 demo_log2 mss" "concat mss = [demo_msg0, demo_msg1]"
    using demo_holds2 by (auto simp: log_holds_def)
  have "list_all2 (\<lambda>s ms. unat (seg_nextOffset s) = unat (seg_baseOffset s) + length ms)
      (log_segments demo_log2) mss"
    using i(1) by (auto simp: log_inv_def log_core_def seg_inv_def seg_dense_def elim!: list_all2_mono)
  then obtain a b c where m: "mss = [a, b, c]" "length a = 1" "length b = 1" "length c = 0"
    by (auto simp: demo_log2_def demo_log_def demo_seg_def list_all2_Cons1)
  then have "mss = [[demo_msg0], [demo_msg1], []]"
    using i(2) by (auto simp: length_Suc_conv)
  then show ?thesis using i(1) by simp
qed

lemma demo_segments: "length (log_segments demo_log2) = 3" "\<not> log_compressed demo_log2"
  by (simp_all add: demo_log2_def demo_log_def)


section \<open>A database and a broker\<close>

text \<open>A database that always answers: an association list of the bucket's entries.\<close>

definition demo_bolt :: "(bytes \<times> bytes) list bolt" where
  "demo_bolt = \<lparr>bolt_open = (\<lambda>db. (None, db)), bolt_create = (\<lambda>db. (None, db)), bolt_bucket = (\<lambda>_. True),
     bolt_put = (\<lambda>k v db. (None, AList.update k v db)), bolt_view = (\<lambda>_. None),
     bolt_each = AList.clearjunk, bolt_close = (\<lambda>db. (None, db))\<rparr>"

lemma demo_bolt_ok: "bolt_ok demo_bolt"
  by (simp add: bolt_ok_def demo_bolt_def map_of_clearjunk update_conv' distinct_clearjunk)

lemma demo_bolt_up: "bolt_up demo_bolt"
  using demo_bolt_ok by (simp add: bolt_up_def demo_bolt_def)

definition demo_groups :: "(bytes \<times> bytes) list ConsumerGroupStore" where
  "demo_groups = \<lparr>cg_db = [], cg_offsets = Map.empty\<rparr>"

lemma demo_groups_none: "cg_offsets demo_groups k = None"
  by (simp add: demo_groups_def)

lemma demo_groups_inv: "cg_inv demo_bolt demo_groups"
  by (auto simp: cg_inv_def demo_groups_def demo_bolt_def persisted_def)

text \<open>A new broker on an empty disk, the leader, with nobody else publishing.\<close>

definition demo_broker :: "(bytes \<times> bytes) list broker" where
  "demo_broker = broker_init ''d'' demo_groups (\<lambda>_. empty_dir)"

lemma demo_broker_keeps: "broker_keeps demo_codec demo_broker (\<lambda>_ _. [])"
  unfolding demo_broker_def by (rule broker_init_keeps) (simp add: empty_dir_simps)

definition demo_call :: raft_call where
  "demo_call = \<lparr>rc_leader = True, rc_before = [], rc_now = 7, rc_error = None, rc_applied = True\<rparr>"

lemma demo_publish:
  "map_prod id (\<lambda>_. ()) (Publish demo_codec demo_call ''t'' [1] [10] (Some 2) demo_broker) = (Inr 0, ())"
  by code_simp


text \<open>Two committed entries for one partition of that broker.\<close>

definition demo_entries :: "(i64 \<times> command) list" where
  "demo_entries = [(5, Single ''t'' 0 [1] [10]),
     (6, Batch ''t'' 0 [\<lparr>br_Key = [2], br_Value = [20]\<rparr>, \<lparr>br_Key = [], br_Value = [30]\<rparr>])]"

lemma demo_entries_able: "able_steps spec_apply cmd_able (map snd demo_entries) (\<lambda>_ _. [])"
  by (simp add: demo_entries_def cmd_able_def spec_apply_def Let_def safe_topic_def effective_topic_def
      head_ok_def records_ok_def)

lemma demo_entries_run:
  "\<forall>r \<in> set (fst (run_steps (broker_step demo_codec) demo_entries demo_broker)). accepted r"
  by code_simp

lemma demo_entries_run':
  "\<forall>r \<in> set (fst (run_steps (broker_step demo_codec) (map (map_prod ((+) 1) id) demo_entries) demo_broker)). accepted r"
  by code_simp


text \<open>The two messages of the log as one batch.\<close>

definition demo_batch :: "log_record list" where
  "demo_batch = [\<lparr>rec_Timestamp = 5, rec_Key = [1], rec_Value = [10]\<rparr>,
     \<lparr>rec_Timestamp = 6, rec_Key = [1], rec_Value = [20, 21]\<rparr>]"

lemma demo_batch_eq: "fst (log_AppendBatch demo_codec demo_batch demo_log0 demo_dir0) = ([0, 1], None)"
  by code_simp


section \<open>A commit\<close>

definition demo_committed :: "(bytes \<times> bytes) list ConsumerGroupStore" where
  "demo_committed = snd (cg_CommitOffset demo_bolt ''g'' ''t'' 1 42 demo_groups)"

lemma demo_commit: "cg_CommitOffset demo_bolt ''g'' ''t'' 1 42 demo_groups = (Inr (), demo_committed)"
  by (simp add: demo_committed_def cg_CommitOffset_def demo_bolt_def NUL_def Let_def)

lemma demo_committed_inv: "cg_inv demo_bolt demo_committed"
  by (rule cg_CommitOffset_inv(1) [OF demo_bolt_ok demo_groups_inv demo_commit])

lemma demo_committed_offsets:
  "cg_offsets demo_committed = (cg_offsets demo_groups)(offsetKey ''g'' ''t'' 1 \<mapsto> 42)"
  using cg_CommitOffset_inv(2) [OF demo_bolt_ok demo_groups_inv demo_commit] by simp


section \<open>A broker with a history\<close>

definition demo_loaded :: "(bytes \<times> bytes) list broker" where
  "demo_loaded = snd (run_steps (broker_step demo_codec) demo_entries demo_broker)"

definition demo_history :: history where
  "demo_history = [([1], [10]), ([2], [20]), ([], [30])]"

lemma demo_loaded_keeps:
  "\<exists>h. broker_keeps demo_codec demo_loaded h \<and> h ''t'' 0 = demo_history"
proof -
  have "run_steps (broker_step demo_codec) demo_entries demo_broker
      = (fst (run_steps (broker_step demo_codec) demo_entries demo_broker), demo_loaded)"
    by (simp add: demo_loaded_def)
  from rep.run_refines [OF demo_broker_keeps demo_entries_able this demo_entries_run]
  have keeps: "broker_keeps demo_codec demo_loaded (snd (spec_steps spec_apply (map snd demo_entries) (\<lambda>_ _. [])))"
    by blast
  have "added (map snd demo_entries) ''t'' 0 = demo_history"
    by (simp add: added_def demo_entries_def demo_history_def effective_topic_def)
  then have "snd (spec_steps spec_apply (map snd demo_entries) (\<lambda>_ _. [])) ''t'' 0 = demo_history"
    by (simp add: spec_steps_added)
  then show ?thesis using keeps by blast
qed

lemma demo_loaded_open: "\<not> Option.is_none (b_logs demo_loaded ''t'')"
  by code_simp

lemma demo_loaded_start: "log_start (fst (partition_log ''t'' 0 demo_loaded)) = 0"
  by code_simp

lemma demo_loaded_groups: "b_consumerGroups demo_loaded = demo_groups"
  by (simp add: demo_loaded_def run_steps_groups demo_broker_def broker_init_def)

lemma demo_loaded_known: "broker_known demo_loaded ''t'' 0"
  using demo_loaded_open
  by (auto simp: broker_known_def safe_topic_def defaultNumPartitions_def Option.is_none_def)

section \<open>An append that loses its index entry\<close>

text \<open>The header and the payload are written, the index entry is not; then another append succeeds.\<close>

definition demo_lost :: directory where
  "demo_lost = demo_dir0\<lparr>sched := [IoOk, IoOk, IoErr 0]\<rparr>"

definition demo_failed :: "(u64 \<times> int) res \<times> segment \<times> directory" where
  "demo_failed = seg_Append demo_codec 5 [1] [10] (demo_seg 0 0 0 0) demo_lost"

definition demo_next_append :: "(u64 \<times> int) res \<times> segment \<times> directory" where
  "demo_next_append = seg_Append demo_codec 6 [2] [20] (fst (snd demo_failed)) (snd (snd demo_failed))"

lemma demo_lost_run:
  "\<not> is_ok (fst demo_failed)" "fst demo_next_append = Inr (0, 0)"
  "leaves_tail (demo_seg 0 0 0 0) demo_lost (snd (snd demo_failed)) (header_bytes 0 5 1 1 @ [1] @ [10])"
  by code_simp+

lemma demo_lost_repr: "seg_repr demo_codec demo_lost (demo_seg 0 0 0 0) []" "dir_wf demo_lost"
  using log_inv_sched [OF demo_inv0, of "[IoOk, IoOk, IoErr 0]"]
  by (auto simp: demo_lost_def log_inv_def log_core_def seg_inv_def demo_log0_def demo_log_def)

section \<open>Requests\<close>

definition demo_records :: "BatchRecord list" where
  "demo_records = [\<lparr>br_Key = [2], br_Value = [20]\<rparr>, \<lparr>br_Key = [], br_Value = [30]\<rparr>]"

lemma demo_publish_batch:
  "\<exists>offs. fst (PublishBatch demo_codec demo_call ''t'' 1 (map Some demo_records) demo_broker) = Inr offs"
proof -
  have "is_ok (fst (PublishBatch demo_codec demo_call ''t'' 1 (map Some demo_records) demo_broker))" by code_simp
  then show ?thesis
    by (cases "fst (PublishBatch demo_codec demo_call ''t'' 1 (map Some demo_records) demo_broker)") auto
qed

lemma demo_inv2_sched:
  "log_inv demo_codec (demo_dir2\<lparr>sched := es\<rparr>) demo_log2 [[demo_msg0], [demo_msg1], []]"
  by (rule log_inv_sched [OF demo_inv2])


section \<open>The client\<close>

text \<open>Certificates are their file names; dialling reaches that broker.\<close>

definition demo_pki :: "(string, bytes) pki" where
  "demo_pki = \<lparr>pki_LoadKeyPair = (\<lambda>c k. Inr c), pki_ReadFile = (\<lambda>f. Inr [1]), pki_Pool = Some\<rparr>"

definition demo_dial ::
  "string \<Rightarrow> (string, bytes) dial_option \<Rightarrow> (bytes \<times> bytes) list broker client res" where
  "demo_dial addr opt = Inr (broker_client demo_codec demo_bolt demo_call)"

lemma demo_cli_produce:
  "fst (cli_main demo_pki demo_dial 0 ([''elog'', ''produce''] @ produce_args ''b:1'' ''t'' 2 ''hi'') demo_broker)
     = Some (0, None)"
  by code_simp

section \<open>Starting\<close>

text \<open>Every call succeeds, and the shutdown of the Raft node closes its transport.\<close>

definition demo_env :: "(string, bytes) startup_env" where
  "demo_env = \<lparr>se_groups = None, se_mkdir = None, se_pki = demo_pki, se_listen = None, se_tcpTransport = None,
     se_logStore = None, se_stableStore = None, se_snapshotStore = None, se_newRaft = None,
     se_hasState = Inr False, se_bootstrap = None, se_grpcListen = None, se_pki_grpc = demo_pki,
     se_post = (\<lambda>_. Inr 200), se_shutdown = [Transport], se_topic = True, se_lateWorker = False, se_lateLogs = False\<rparr>"

lemma demo_address: "is_ok (grpcAddress ''localhost:8080'')"
  by code_simp

lemma demo_starts: "startup_ok demo_env ''localhost:8080'' [] c k a"
  using demo_address
  by (simp add: startup_ok_def demo_env_def LoadServerTLSConfig_def demo_pki_def)

text \<open>A port that leaves no room for the gRPC port.\<close>

lemma demo_start_fails: "\<exists>e st. NewBroker demo_env ''localhost:65000'' [] [] [] [] = (Inl e, st) \<and> st_http st"
proof -
  have "case NewBroker demo_env ''localhost:65000'' [] [] [] [] of (r, st) \<Rightarrow> \<not> is_ok r \<and> st_http st" by code_simp
  then show ?thesis
    by (cases "NewBroker demo_env ''localhost:65000'' [] [] [] []";
        cases "fst (NewBroker demo_env ''localhost:65000'' [] [] [] [])") auto
qed

section \<open>A run of the service\<close>

text \<open>A record is produced, an offset committed, and the broker restarted.\<close>

definition demo_scenario :: scenario where
  "demo_scenario = \<lparr>sc_leader = True, sc_before = [], sc_now = 7, sc_error = None, sc_applied = True\<rparr>"
definition demo_produced :: ProduceRequest where
  "demo_produced = \<lparr>pr_Topic = ''t'', pr_Key = [1], pr_Value = [10], pr_Partition = Some 2\<rparr>"
definition demo_offset :: OffsetRequest where
  "demo_offset = \<lparr>or_GroupId = ''g'', or_Topic = ''t'', or_Partition = 1, or_Offset = 42\<rparr>"

definition demo_served1 :: "(bytes \<times> bytes) list broker" where
  "demo_served1 = snd (Produce demo_codec (call_of demo_scenario) demo_produced demo_broker)"
definition demo_served2 :: "(bytes \<times> bytes) list broker" where
  "demo_served2 = snd (CommitOffset demo_bolt demo_offset demo_served1)"
definition demo_served3 :: "(bytes \<times> bytes) list broker" where
  "demo_served3 = (case restart demo_bolt None None [''t''] demo_served2 of Inr b \<Rightarrow> b | Inl _ \<Rightarrow> demo_served2)"

lemma demo_served:
  "fst (Produce demo_codec (call_of demo_scenario) demo_produced demo_broker) = Inr 0"
  "fst (CommitOffset demo_bolt demo_offset demo_served1) = Inr ()"
  "is_ok (restart demo_bolt None None [''t''] demo_served2)"
  by code_simp+

lemma demo_restart: "restart demo_bolt None None [''t''] demo_served2 = Inr demo_served3"
  using demo_served(3) by (cases "restart demo_bolt None None [''t''] demo_served2") (simp_all add: demo_served3_def)

lemma demo_steps:
  "service_step demo_codec demo_bolt demo_broker (DoProduce demo_scenario demo_produced, Produced (Inr 0)) demo_served1"
  "service_step demo_codec demo_bolt demo_served1 (DoCommit demo_offset, Committed (Inr ())) demo_served2"
  "service_step demo_codec demo_bolt demo_served2 (DoRestart None None [''t''], Silent) demo_served3"
proof -
  show "service_step demo_codec demo_bolt demo_broker (DoProduce demo_scenario demo_produced, Produced (Inr 0)) demo_served1"
    by (rule service_step.produce) (use demo_served(1) in \<open>simp add: demo_served1_def prod_eq_iff\<close>)
  show "service_step demo_codec demo_bolt demo_served1 (DoCommit demo_offset, Committed (Inr ())) demo_served2"
    by (rule service_step.commit) (use demo_served(2) in \<open>simp add: demo_served2_def prod_eq_iff\<close>)
  show "service_step demo_codec demo_bolt demo_served2 (DoRestart None None [''t''], Silent) demo_served3"
    by (rule service_step.restarted [OF demo_restart])
qed

definition demo_events :: "(action \<times> outcome) list" where
  "demo_events = [(DoProduce demo_scenario demo_produced, Produced (Inr 0)),
     (DoCommit demo_offset, Committed (Inr ())), (DoRestart None None [''t''], Silent)]"

lemma demo_run: "runs (service_step demo_codec demo_bolt) demo_broker demo_events demo_served3"
  using demo_steps by (auto simp: demo_events_def)

lemma demo_admitted: "\<forall>e \<in> set demo_events. admitted (fst e)"
  by (simp add: demo_events_def demo_scenario_def demo_produced_def demo_offset_def topic_fit_def safe_topic_def
      kv_small_def topic_or_default_def)

lemma demo_codec_live: "codec_live demo_codec"
  using demo_codec_ok by (simp add: codec_live_def demo_codec_def)

definition demo_view :: view where "demo_view = fresh_view (\<lambda>_. 0)"

lemma demo_serves: "serves demo_codec demo_bolt demo_broker demo_view"
  unfolding demo_broker_def demo_view_def
proof (rule broker_init_serves)
  show "groups_show demo_bolt demo_groups (fresh_view (\<lambda>_. 0))"
    using demo_groups_inv demo_groups_none
    by (simp add: groups_show_def groups_safe_def fresh_view_def cg_FetchOffset_def)
qed (simp add: empty_dir_simps)

lemma demo_room: "n < 1000 \<Longrightarrow> room_for n demo_view"
  by (simp add: room_for_def demo_view_def fresh_view_def)


lemma demo_loaded_restart: "is_ok (restart demo_bolt None None [''t''] demo_loaded)"
  by code_simp

lemma demo_loaded_plain: "\<not> tc_Compressed (broker_TopicConfig t demo_loaded)"
proof -
  have "b_topicConfigs demo_loaded = Map.empty"
    using adm.apply_entries_frame [of demo_broker demo_codec "map (\<lambda>(now, c). (now, encode c)) demo_entries"]
    by (simp add: demo_loaded_def apply_entries_steps same_admin_def demo_broker_def broker_init_def)
  then show ?thesis by (simp add: broker_TopicConfig_def zero_config_def)
qed

lemma demo_served1_workers: "b_retentionWorkers demo_served1 = [''t'']"
  by code_simp

text \<open>The query of a consumer of that broker.\<close>

definition demo_query :: "string \<Rightarrow> string" where
  "demo_query k = (if k = ''topic'' then ''t'' else if k = ''partition'' then ''0'' else if k = ''offset'' then ''0'' else '''')"

lemma demo_query_consume:
  "case fst (Consume demo_codec \<lparr>cr_Topic = demo_query ''topic'', cr_Partition = Some 0, cr_Offset = 0\<rparr> demo_loaded) of
     Inr (off, _) \<Rightarrow> off = 0 | Inl _ \<Rightarrow> False"
  by code_simp

section \<open>A compressed topic and a restart\<close>

text \<open>
  A topic is configured as compressed, a record is produced to it and can be consumed. After a restart
  the same request gets an error: the configuration was not persisted, and the stored payload is now
  read as if it had never been compressed.
\<close>

definition demo_zipped :: "(bytes \<times> bytes) list broker" where
  "demo_zipped = snd (Produce demo_codec demo_call demo_produced
     (snd (SetTopicConfig ''t'' (zero_config\<lparr>tc_Compressed := True\<rparr>) demo_broker)))"

definition demo_unzip :: "(bytes \<times> bytes) list broker \<Rightarrow> bool" where
  "demo_unzip b = is_ok (fst (Consume demo_codec \<lparr>cr_Topic = ''t'', cr_Partition = Some 2, cr_Offset = 0\<rparr> b))"

lemma compressed_topic_lost:
  "demo_unzip demo_zipped
   \<and> (case restart demo_bolt None None [''t''] demo_zipped of Inr b \<Rightarrow> \<not> demo_unzip b | Inl _ \<Rightarrow> False)"
  by code_simp

section \<open>A replayed Raft log\<close>

text \<open>One entry before the snapshot, one behind it; the broker is killed and comes back.\<close>

definition demo_old :: "(i64 \<times> command) list" where
  "demo_old = [(5, Single ''t'' 0 [1] [10])]"
definition demo_new :: "i64 \<Rightarrow> (i64 \<times> command) list" where
  "demo_new now = [(now, Single ''t'' 0 [2] [20])]"

definition demo_before :: "(bytes \<times> bytes) list broker" where
  "demo_before = snd (run_steps (broker_step demo_codec) (demo_new 6)
     (snd (run_steps (broker_step demo_codec) demo_old demo_broker)))"

definition demo_back :: "(bytes \<times> bytes) list broker" where
  "demo_back = (case crash_restart demo_bolt demo_before of Inr b \<Rightarrow> b | Inl _ \<Rightarrow> demo_broker)"

lemma demo_back_eq: "crash_restart demo_bolt demo_before = Inr demo_back"
proof -
  have "is_ok (crash_restart demo_bolt demo_before)" by code_simp
  then show ?thesis by (cases "crash_restart demo_bolt demo_before") (simp_all add: demo_back_def)
qed

lemma demo_replay_accepted:
  "\<forall>r \<in> set (fst (run_steps (broker_step demo_codec) demo_old demo_broker)). accepted r"
  "\<forall>r \<in> set (fst (run_steps (broker_step demo_codec) (demo_new 6)
     (snd (run_steps (broker_step demo_codec) demo_old demo_broker)))). accepted r"
  "\<forall>r \<in> set (fst (run_steps (broker_step demo_codec) (demo_new 9) demo_back)). accepted r"
  by code_simp+

lemma demo_replay_able:
  "able_steps spec_apply cmd_able (map snd (demo_old @ demo_new 6 @ demo_new 9)) (\<lambda>_ _. [])"
  by (simp add: demo_old_def demo_new_def cmd_able_def spec_apply_def Let_def safe_topic_def effective_topic_def
      head_ok_def)

end
