(* ===== verification/Spec2Isabelle.thy ===== *)
theory Spec2Isabelle
  imports Samples
begin

text \<open>
  A verification library of a distributed event log: brokers that keep topics of three partitions
  each, replicate every record through Raft, store it in segmented log files, remember the offsets
  of consumer groups, and are reached over gRPC, HTTP and a command-line client.

  \<^bold>\<open>The program and its model.\<close> The layers of \<open>src/\<close>, from the disk up, and their theories:

  \<^item> \<open>Prelude\<close>: bytes and machine integers (\<open>u64\<close> and \<open>i64\<close> are both \<open>64 word\<close>, read unsigned
    or signed), errors as values, big-endian encodings, decimal numbers, \<open>sort.Search\<close>.
  \<^item> \<open>Files\<close>: one partition's directory and the file calls of \<open>internal/log\<close>. Every call that opens,
    changes or flushes a file consults a schedule of failures and partial writes; the theorems
    hold for every schedule unless they say otherwise, and an empty schedule means no failure.
  \<^item> \<open>Segment\<close> (\<open>internal/log/segment.go\<close>): \<open>NewSegment\<close>, \<open>Append\<close>, \<open>AppendBatch\<close>, \<open>Read\<close>, the
    index lookups, \<open>Close\<close>, \<open>Delete\<close>, byte by byte. \<open>SegmentIndex\<close> proves the lookups against a table,
    \<open>SegmentStore\<close> relates the two files to a list of messages (\<open>seg_repr\<close>), \<open>SegmentLife\<close> covers
    opening, closing and deleting, \<open>TornWrites\<close> the appends that fail half way
    and what \<open>Read\<close> makes of the bytes they leave.
  \<^item> \<open>CommitLog\<close> (\<open>internal/log/log.go\<close>): the segmented log. \<open>LogStore\<close> has its invariant (\<open>log_inv\<close>:
    the segments are chained, each represents its messages, the directory holds nothing else),
    \<open>LogAccess\<close> shows that append and read implement a list of messages (\<open>log_holds\<close>), \<open>LogReopen\<close>
    that closing and reopening loses nothing, \<open>LogProgress\<close> that appends succeed without I/O errors,
    and \<open>LogLive\<close> that a log on a disk without failures stays able to take records of bounded size.
  \<^item> \<open>Maintenance\<close> (same file): \<open>EnforceRetention\<close> and \<open>Compact\<close>, with \<open>Retention\<close> and \<open>Compaction\<close>.
  \<^item> \<open>RaftFSM\<close> (\<open>internal/raft/fsm.go\<close>): the command format and \<open>Apply\<close>, over any provider of
    partition logs. \<open>Replication\<close> has the abstract specification: a history per partition, to which
    a command appends (\<open>spec_apply\<close>); the locales \<open>log_provider\<close> (what \<open>Apply\<close> needs of a provider)
    and \<open>replicated\<close> (what makes replicas agree) are interpreted on the broker.
  \<^item> \<open>ConsumerGroups\<close> (\<open>internal/broker/consumer_group.go\<close>): the offset cache over a database;
    \<open>CommitRace\<close> has the two critical sections of a commit as steps of concurrent callers.
  \<^item> \<open>Broker\<close> (\<open>internal/broker/broker.go\<close>): topics and partitions, publishing and reading, the
    rounds of the background workers; \<open>BrokerApi\<close> the gRPC methods, the HTTP handlers and joining;
    \<open>BrokerAdmin\<close> the admin endpoints and \<open>Close\<close>; \<open>Shutdown\<close> the protocol between \<open>Close\<close> and the
    three groups of workers as a step relation. \<open>BrokerState\<close> has the invariant \<open>broker_keeps cdc b h\<close>
    (broker \<open>b\<close> stores the histories \<open>h\<close>, in memory or on disk) and its interpretations, \<open>BrokerPublish\<close>
    and \<open>ApiLaws\<close> the laws of the operations. \<open>BrokerFrame\<close> has what the operations leave alone: the
    locale \<open>log_frame\<close>, interpreted for the configuration, the set of open topics and the shape of the
    broker record. \<open>Restart\<close> closes or kills a broker, starts it again and
    lets Raft restore its snapshot and replay its log; \<open>Liveness\<close> extends the provider's
    contract by progress (\<open>live_provider\<close>).
  \<^item> \<open>Service\<close>: the whole broker as a step relation over its operations (\<open>service_step\<close>: requests, Raft
    entries, worker rounds, restarts, crashes) and its specification (\<open>allowed\<close>), which knows only histories,
    the first stored offset of a partition and the offsets of groups. \<open>ServiceLogs\<close> and \<open>ServiceLaws\<close>
    show operation by operation that the relation \<open>serves\<close> is kept; \<open>ServiceRuns\<close> has runs, the locale
    \<open>simulation\<close> (forward simulation with a budget of records), its interpretation, and durability.
  \<^item> \<open>Cli\<close> (\<open>cmd/cli/main.go\<close>): the client from its command line to its output and exit code, over a
    client interface; \<open>Flags\<close> has Go's flag parsing. The locale \<open>offset_service\<close> is what the consumer loop
    needs, interpreted on the broker's handlers; \<open>CliLaws\<close> composes the commands with the broker.
  \<^item> \<open>Tls\<close> (\<open>internal/tls/tls.go\<close>) and \<open>Startup\<close>: the TLS configurations, the Raft stream layer,
    \<open>NewBroker\<close> as the sequence of what it opens and releases, and \<open>cmd/broker/main.go\<close>.
  \<^item> \<open>Samples\<close>: concrete states, computed by the model, for the witnesses below.

  \<^bold>\<open>State and operations.\<close> A Go struct is a record with the fields the code uses; a method that
  changes its receiver returns the new one. Mutexes make the methods of a log and of the topic map
  atomic; where the code releases a lock in between (\<open>CommitOffset\<close>, \<open>Close\<close>) the sections are
  separate steps. In \<open>service_step\<close> a request is one step. Errors are values: every early return of the code is a branch. A loop is a
  recursive function; the one loop without an evident bound, in \<open>ReadBatch\<close>, is a partial function
  whose value \<open>None\<close> is non-termination, and the theorems show that it is not reached. The loop of
  \<open>consume-group --follow\<close>, which is meant to run forever, is modelled for any number of rounds.

  \<^bold>\<open>Parameters.\<close> Snappy (\<open>codec_ok\<close>: decoding inverts encoding, the documented size bound), bbolt
  (\<open>bolt_ok\<close>: an update sets one key or nothing), the Raft library (\<open>raft_call\<close>: whether this node
  is the leader, the committed entries it applies before this one, and the outcome), the iteration
  order of Go maps, the clock, the generated gRPC client. The samples instantiate them.

  \<^bold>\<open>Bounds.\<close> The service theorems are about disks without failures (\<open>broker_fine\<close>), plainly named
  topics that are neither compacted nor compressed, keys and values below \<open>2 ^ 31\<close> bytes together and
  batches of at most \<open>2 ^ 16\<close> records (\<open>admitted\<close>), and partitions with room for the records of the run
  below offset \<open>2 ^ 63\<close> (\<open>room_for\<close>), where the batch methods stop answering. What happens with
  failing disks, compaction and other topic names is the subject of the theorems on the parts.

  \<^bold>\<open>What is shown.\<close> That the broker implements its specification, keeps acknowledged records and
  committed offsets, survives restarts and stays well-formed (C1 to C5); the path of a record
  from \<open>Publish\<close> through the command format and \<open>Apply\<close> into the log files and back through \<open>Read\<close>
  (C6 to C15); that brokers agree on histories whatever their clocks; what retention deletes and that
  compaction cannot work; consumer-group offsets and their concurrency; the client end to end and its
  delivery in order; the command format and its refusals; storage paths; the segment index, failing
  writes and what they leave; the batch API, the two front ends, reported lag and joining; what
  start-up opens and releases and when connections are encrypted; and the shutdown protocol.
  Several theorems state defects of the code as it is: compaction (C18), the race of commits (C21), the
  replay of the Raft log (C28), the records of failed appends (C32), the lag (C35), what stays open (C37),
  incomplete TLS settings (C38) and the hanging \<open>Close\<close> (C40).

  \<^bold>\<open>Not modelled.\<close> JSON and Prometheus encodings (the model starts from the decoded request and ends
  with the value that is encoded), contexts and timeouts, log output and the usage text. Read errors of
  the device and memory limits other than the allocation bound in \<open>Read\<close> are left out. A restart is
  modelled after a \<open>Close\<close> and after a kill of the process between two requests (\<open>TornWrites\<close> has the
  write that stops halfway), not after a crash of the machine, which may lose unsynced writes; Raft's
  replay of its log after a restart is not part of \<open>start_on\<close> but a sequence of \<open>DoReplicate\<close> events
  (C28 says what it does).
  \<open>NewBroker\<close> is modelled apart from the broker value it fills in, which is \<open>broker_init\<close>.
\<close>

section \<open>The service\<close>

text \<open>
  C1: in every run of admitted actions of clients, Raft, the background workers and
  restarts, in whatever order, on a disk without failures and with room left below the largest offset,
  every answer is one the specification allows and the broker keeps implementing it. The
  specification has a history per partition, to which producing and replicating append and which
  retention only hides from the front, and one offset per group, topic and partition; all histories
  only grow. Admitted are actions whose topic names are plain path elements (so that no two topics
  share files), whose records and batches are of bounded size, and that configure no topic as
  compacted or compressed.
\<close>
theorem service_refines:
  assumes "runs (service_step cdc ops) b es b'" and "serves cdc ops b v" and "codec_live cdc" and "bolt_ok ops"
    and "\<forall>e \<in> set es. admitted (fst e)" and "room_for (sum_list (map (\<lambda>e. weight (fst e)) es)) v"
  shows "\<exists>v'. runs allowed v es v' \<and> serves cdc ops b' v' \<and> (\<forall>t p. prefix (v_hist v t p) (v_hist v' t p))"
proof -
  have "service_rel cdc ops (sum_list (map (\<lambda>e. weight (fst e)) es) + 0) b v"
    using assms by (simp add: service_rel_def)
  from srv.runs_simulate [OF assms(1) this assms(5)] show ?thesis
    using runs_allowed(1) by (auto simp: service_rel_def)
qed

theorem service_refines_witness:
  "\<exists>v'. runs allowed demo_view demo_events v' \<and> serves demo_codec demo_bolt demo_served3 v'"
proof -
  have "room_for (sum_list (map (\<lambda>e. weight (fst e)) demo_events)) demo_view"
    by (rule demo_room) (simp add: demo_events_def demo_scenario_def entries_weight_def)
  then show ?thesis
    using service_refines [OF demo_run demo_serves demo_codec_live demo_bolt_ok demo_admitted] by blast
qed

text \<open>
  C2: a record whose \<open>Produce\<close> was answered with an offset is what \<open>Consume\<close>
  returns for that offset of that topic and of the partition it went to, after any further events,
  restarts and kills of the process included, as long as retention has not run for the topic. As
  above, all actions of the run are admitted (plain topic names, bounded sizes, no compaction or
  compression), the disk does not fail and there is room for the records.
\<close>
theorem acknowledged_records_stay:
  assumes "runs (service_step cdc ops) b (es1 @ (DoProduce sc req, Produced (Inr off)) # es2) b'"
    and "serves cdc ops b v" and "codec_live cdc" and "bolt_ok ops"
    and "\<forall>e \<in> set (es1 @ (DoProduce sc req, Produced (Inr off)) # es2). admitted (fst e)"
    and "room_for (sum_list (map (\<lambda>e. weight (fst e)) (es1 @ (DoProduce sc req, Produced (Inr off)) # es2))) v"
    and "\<forall>e \<in> set es2. \<not> retains (pr_Topic req) (fst e)"
  shows "\<exists>p. chosen (pr_Key req) (pr_Partition req) p \<and>
    fst (Consume cdc \<lparr>cr_Topic = pr_Topic req, cr_Partition = Some (word_of_int p), cr_Offset = off\<rparr> b')
      = Inr (off, pr_Key req, pr_Value req)"
  by (rule acknowledged_stays [OF _ assms(1,5,7)]) (use assms in \<open>simp add: service_rel_def\<close>)

theorem acknowledged_records_stay_witness:
  "fst (Consume demo_codec \<lparr>cr_Topic = ''t'', cr_Partition = Some 2, cr_Offset = 0\<rparr> demo_served3)
     = Inr (0, [1], [10])"
proof -
  let ?es = "[(DoCommit demo_offset, Committed (Inr ())), (DoRestart None None [''t''], Silent)]"
  have e: "demo_events = [] @ (DoProduce demo_scenario demo_produced, Produced (Inr 0)) # ?es"
    by (simp add: demo_events_def)
  have "room_for (sum_list (map (\<lambda>e. weight (fst e)) demo_events)) demo_view"
    by (rule demo_room) (simp add: demo_events_def demo_scenario_def entries_weight_def)
  moreover have "\<forall>e \<in> set ?es. \<not> retains (pr_Topic demo_produced) (fst e)" by (simp add: retains_def)
  ultimately obtain p where "chosen (pr_Key demo_produced) (pr_Partition demo_produced) p"
    "fst (Consume demo_codec \<lparr>cr_Topic = pr_Topic demo_produced, cr_Partition = Some (word_of_int p), cr_Offset = 0\<rparr> demo_served3)
      = Inr (0, pr_Key demo_produced, pr_Value demo_produced)"
    using acknowledged_records_stay [OF demo_run [unfolded e] demo_serves demo_codec_live demo_bolt_ok demo_admitted [unfolded e]]
    unfolding e by blast
  then show ?thesis by (simp add: chosen_def demo_produced_def)
qed

text \<open>
  C3: an offset whose commit was acknowledged is what the group fetches after any
  further events, restarts and kills of the process included, in which that offset is not committed again. The
  conditions are those of the two properties above.
\<close>
theorem committed_offsets_stay:
  assumes "runs (service_step cdc ops) b (es1 @ (DoCommit req, Committed (Inr ())) # es2) b'"
    and "serves cdc ops b v" and "codec_live cdc" and "bolt_ok ops"
    and "\<forall>e \<in> set (es1 @ (DoCommit req, Committed (Inr ())) # es2). admitted (fst e)"
    and "room_for (sum_list (map (\<lambda>e. weight (fst e)) (es1 @ (DoCommit req, Committed (Inr ())) # es2))) v"
    and "\<forall>e \<in> set es2. \<not> commits (offset_slot req) (fst e)"
    and "plain (or_GroupId req)" and "plain (or_Topic req)"
  shows "FetchOffset req b' = Inr (or_Offset req)"
  by (rule committed_stays [OF _ assms(1,5,7-9)]) (use assms in \<open>simp add: service_rel_def\<close>)

theorem committed_offsets_stay_witness: "FetchOffset demo_offset demo_served3 = Inr 42"
proof -
  let ?es1 = "[(DoProduce demo_scenario demo_produced, Produced (Inr 0))]"
  let ?es2 = "[(DoRestart None None [''t''], Silent)]"
  have e: "demo_events = ?es1 @ (DoCommit demo_offset, Committed (Inr ())) # ?es2"
    by (simp add: demo_events_def)
  have "room_for (sum_list (map (\<lambda>e. weight (fst e)) demo_events)) demo_view"
    by (rule demo_room) (simp add: demo_events_def demo_scenario_def entries_weight_def)
  moreover have "\<forall>e \<in> set ?es2. \<not> commits (offset_slot demo_offset) (fst e)" by (simp add: commits_def)
  moreover have "plain (or_GroupId demo_offset)" "plain (or_Topic demo_offset)"
    by (simp_all add: demo_offset_def plain_def NUL_def)
  ultimately have "FetchOffset demo_offset demo_served3 = Inr (or_Offset demo_offset)"
    using committed_offsets_stay [OF demo_run [unfolded e] demo_serves demo_codec_live demo_bolt_ok demo_admitted [unfolded e]]
    unfolding e by blast
  then show ?thesis by (simp add: demo_offset_def)
qed

text \<open>
  C4: closing a broker, with failures of the disk at any point of the shutdown,
  or killing its process between two requests, and starting it again on its directory keeps every
  history and every committed offset. Topics are opened again on first use; what is lost are the topic configurations, which is harmless for the
  data only while no topic is compressed.
\<close>
theorem broker_survives_restart:
  assumes "restart ops httpErr raftErr order b = Inr b' \<or> crash_restart ops b = Inr b'" and "broker_keeps cdc b h"
    and "\<And>t. \<not> tc_Compressed (broker_TopicConfig t b)" and "bolt_ok ops" and "cg_inv ops (b_consumerGroups b)"
  shows "broker_keeps cdc b' h \<and> b_logs b' = Map.empty \<and> b_topicConfigs b' = Map.empty
    \<and> cg_offsets (b_consumerGroups b') = cg_offsets (b_consumerGroups b) \<and> cg_inv ops (b_consumerGroups b')"
  using assms(1)
proof
  assume r: "restart ops httpErr raftErr order b = Inr b'"
  show ?thesis using restart_keeps [OF r assms(2,3)] restart_offsets [OF r assms(4,5)] by simp
next
  assume r: "crash_restart ops b = Inr b'"
  show ?thesis using crash_restart_keeps [OF r assms(2,3)] crash_restart_offsets [OF r assms(4,5)] by simp
qed

theorem broker_survives_restart_witness:
  "\<exists>b' h. restart demo_bolt None None [''t''] demo_loaded = Inr b' \<and> broker_keeps demo_codec b' h
     \<and> h ''t'' 0 = demo_history"
proof -
  obtain b' where r: "restart demo_bolt None None [''t''] demo_loaded = Inr b'"
    using demo_loaded_restart by (cases "restart demo_bolt None None [''t''] demo_loaded") auto
  obtain h where h: "broker_keeps demo_codec demo_loaded h" "h ''t'' 0 = demo_history"
    using demo_loaded_keeps by blast
  have "\<not> tc_Compressed (broker_TopicConfig t demo_loaded)" for t
    by (simp add: demo_loaded_plain)
  moreover have "cg_inv demo_bolt (b_consumerGroups demo_loaded)"
    using demo_groups_inv by (simp add: demo_loaded_groups)
  ultimately show ?thesis using broker_survives_restart [OF disjI1 [OF r] h(1) _ demo_bolt_ok] r h(2) by blast
qed

text \<open>
  C5: in every run from a new broker, whatever the requests, topic names, Raft and I/O
  failures: every open topic has a name, three logs and exactly one retention worker, no other topic
  has a worker, and the round-robin counters stay below the number of partitions.
\<close>
theorem broker_well_formed:
  assumes "runs (service_step cdc ops) (broker_init dataDir groups fs) es b"
  shows "b_logs b '''' = None \<and> (\<forall>t ls. b_logs b t = Some ls \<longrightarrow> length ls = defaultNumPartitions)
    \<and> (\<forall>t. b_retentionStarted b t \<longleftrightarrow> b_logs b t \<noteq> None)
    \<and> distinct (b_retentionWorkers b) \<and> set (b_retentionWorkers b) = dom (b_logs b)
    \<and> (\<forall>t. unat (b_roundRobin b t) < defaultNumPartitions)"
proof -
  have "broker_shape (broker_init dataDir groups fs)"
    by (simp add: broker_shape_def broker_init_def defaultNumPartitions_def)
  then have "broker_shape b" using runs_invariant [OF assms, of broker_shape] service_step_shape by blast
  then show ?thesis by (simp add: broker_shape_def defaultNumPartitions_def word_less_nat_alt)
qed

theorem broker_well_formed_witness:
  "length (the (b_logs demo_served1 ''t'')) = 3 \<and> b_retentionWorkers demo_served1 = [''t'']"
proof -
  have "runs (service_step demo_codec demo_bolt) (broker_init ''d'' demo_groups (\<lambda>_. empty_dir))
      [(DoProduce demo_scenario demo_produced, Produced (Inr 0))] demo_served1"
    using demo_steps(1) by (simp add: demo_broker_def)
  note w = broker_well_formed [OF this]
  have "''t'' \<in> dom (b_logs demo_served1)" using w demo_served1_workers by (metis list.set_intros(1))
  then obtain ls where ls: "b_logs demo_served1 ''t'' = Some ls" by (auto simp only: dom_def)
  then have "length ls = 3" using w unfolding defaultNumPartitions_def by blast
  then show ?thesis using ls demo_served1_workers by simp
qed

section \<open>Publishing and replication\<close>

text \<open>
  C6: on the leader, a publish that returns an offset has stored the record at the
  end of the partition's history (behind the entries raft applied before it), keeps the state
  invariant, and reading that topic, partition and offset returns exactly that key and value.
\<close>
theorem publish_then_read:
  assumes "broker_keeps cdc b h" and "codec_ok cdc" and "publishable t key val"
    and "Publish cdc rc t key val part b = (Inr off, b')"
    and "fst (selectPartition t key part b) = Inr p"
    and "raft_quiet cdc rc es (snd (GetPartition t p (snd (selectPartition t key part b)))) h"
    and "length (after_entries es h t p) + 1 < 2 ^ 64"
  shows "unat off = length (after_entries es h t p)
    \<and> broker_keeps cdc b' (snd (spec_apply (Single t p key val) (after_entries es h)))
    \<and> (\<exists>m. fst (broker_Read cdc t p off b') = Inr m \<and> msg_Offset m = off
          \<and> msg_Key m = key \<and> msg_Value m = val)"
  using Publish_read [OF assms] by blast

theorem publish_then_read_witness:
  "\<exists>b' m. Publish demo_codec demo_call ''t'' [1] [10] (Some 2) demo_broker = (Inr 0, b')
     \<and> fst (broker_Read demo_codec ''t'' 2 0 b') = Inr m \<and> msg_Key m = [1] \<and> msg_Value m = [10]"
proof -
  obtain b' where b': "Publish demo_codec demo_call ''t'' [1] [10] (Some 2) demo_broker = (Inr 0, b')"
    using demo_publish by (auto simp: prod_eq_iff)
  have "publishable ''t'' [1] [10]" "fst (selectPartition ''t'' [1] (Some 2) demo_broker) = Inr 2"
    by (simp_all add: publishable_def safe_topic_def selectPartition_def defaultNumPartitions_def)
  moreover have "raft_quiet demo_codec demo_call [] b (\<lambda>_ _. [])" for b :: "(bytes \<times> bytes) list broker"
    by (simp add: raft_quiet_def demo_call_def)
  moreover have "length (after_entries [] (\<lambda>_ _. []) ''t'' 2) + 1 < 2 ^ 64" by (simp add: after_entries_def)
  ultimately show ?thesis
    using publish_then_read [OF demo_broker_keeps demo_codec_ok _ b'] b' by blast
qed

text \<open>
  C7: two brokers that start with the same histories and apply the same commands, each
  with its own clock, give the same responses and end with the same histories: what they had,
  followed by what the commands add, in order.
\<close>
theorem brokers_agree:
  assumes "broker_keeps cdc b1 h" and "broker_keeps cdc b2 h" and "map snd es1 = map snd es2"
    and "able_steps spec_apply cmd_able (map snd es1) h"
    and "run_steps (broker_step cdc) es1 b1 = (rs1, b1')" and "run_steps (broker_step cdc) es2 b2 = (rs2, b2')"
    and "\<forall>r \<in> set rs1. accepted r" and "\<forall>r \<in> set rs2. accepted r"
  shows "rs1 = rs2 \<and> (\<exists>h'. broker_keeps cdc b1' h' \<and> broker_keeps cdc b2' h'
    \<and> (\<forall>t p. h' t p = h t p @ added (map snd es1) t p))"
  using rep.run_refines [OF assms(1,4,5,7)] rep.run_refines [OF assms(2) _ assms(6,8)] assms(3,4)
    spec_steps_added by metis

theorem brokers_agree_witness:
  "\<exists>h'. broker_keeps demo_codec (snd (run_steps (broker_step demo_codec) demo_entries demo_broker)) h'
     \<and> h' ''t'' 0 = [([1], [10]), ([2], [20]), ([], [30])]"
proof -
  let ?run = "run_steps (broker_step demo_codec)"
  let ?es = "map (map_prod ((+) 1) id) demo_entries"
  have r: "?run demo_entries demo_broker = (fst (?run demo_entries demo_broker), snd (?run demo_entries demo_broker))"
    "?run ?es demo_broker = (fst (?run ?es demo_broker), snd (?run ?es demo_broker))" by simp_all
  have m: "map snd demo_entries = map snd ?es" by simp
  obtain h' where h': "broker_keeps demo_codec (snd (?run demo_entries demo_broker)) h'"
      "\<forall>t p. h' t p = [] @ added (map snd demo_entries) t p"
    using brokers_agree [OF demo_broker_keeps demo_broker_keeps m demo_entries_able r demo_entries_run demo_entries_run']
    by blast
  moreover have "h' ''t'' 0 = added (map snd demo_entries) ''t'' 0" using h'(2) by simp
  ultimately show ?thesis
    by (intro exI [of _ h']) (simp add: demo_entries_def added_def effective_topic_def)
qed

section \<open>The log\<close>

text \<open>
  C8: a successful append returns the next offset, adds exactly that message at the end
  of what the log holds, and moves the next offset by one; everything stored before is kept.
\<close>
theorem append_stores:
  assumes "log_holds cdc d l msgs" and "log_next l \<noteq> -1"
    and "log_Append cdc ts k v l d = (Inr off, l', d')"
  shows "off = log_next l \<and> log_next l' = log_next l + 1 \<and> log_start l' = log_start l
    \<and> log_holds cdc d' l' (msgs @ [\<lparr>msg_Offset = off, msg_Timestamp = ts, msg_Key = k, msg_Value = v\<rparr>])"
  using log_Append_holds [OF assms] by simp

theorem append_stores_witness:
  "log_holds demo_codec demo_dir2 demo_log2 [demo_msg0, demo_msg1] \<and> log_next demo_log2 = 2"
  using append_stores [OF demo_holds1 _ demo_a2_eq] by (simp add: demo_next demo_msg1_def)

text \<open>
  C9: a successful batch append stores all records, numbered consecutively from the
  next offset, and returns those offsets.
\<close>
theorem append_batch_stores:
  assumes "log_holds cdc d l msgs" and "unat (log_next l) + length rs < 2 ^ 64"
    and "log_AppendBatch cdc rs l d = ((offs, None), l', d')"
  shows "offs = map msg_Offset (number_messages (log_next l) rs)
    \<and> log_next l' = log_next l + word_of_nat (length rs) \<and> log_start l' = log_start l
    \<and> log_holds cdc d' l' (msgs @ number_messages (log_next l) rs)"
  using log_AppendBatch_holds [OF assms refl] by simp

theorem append_batch_stores_witness:
  "\<exists>l' d'. log_AppendBatch demo_codec demo_batch demo_log0 demo_dir0 = (([0, 1], None), l', d')
     \<and> log_holds demo_codec d' l' [demo_msg0, demo_msg1]"
proof -
  obtain l' d' where b: "log_AppendBatch demo_codec demo_batch demo_log0 demo_dir0 = (([0, 1], None), l', d')"
    using demo_batch_eq by (auto simp: prod_eq_iff)
  show ?thesis
    using append_batch_stores [OF demo_holds0 _ b] b
    by (simp add: demo_next demo_batch_def new_message_def demo_msg0_def demo_msg1_def)
qed

text \<open>
  C10: a batch append is the same as appending its records one by one: when both succeed
  they return the same offsets and both logs hold the same messages and continue at the same offset.
\<close>
theorem batch_as_appends:
  assumes "log_holds cdc d l msgs" and "unat (log_next l) + length rs < 2 ^ 64"
    and "log_AppendBatch cdc rs l d = ((offs, None), l1, d1)"
    and "append_all cdc rs l d = (Inr offs', l2, d2)"
  shows "offs' = offs \<and> log_next l2 = log_next l1
    \<and> (\<exists>msgs'. log_holds cdc d1 l1 msgs' \<and> log_holds cdc d2 l2 msgs')"
  using log_AppendBatch_holds [OF assms(1-3) refl] append_all_holds [OF assms(1,2,4)] by auto

theorem batch_as_appends_witness:
  "\<exists>l1 d1 l2 d2. log_AppendBatch demo_codec demo_batch demo_log0 demo_dir0 = (([0, 1], None), l1, d1)
     \<and> append_all demo_codec demo_batch demo_log0 demo_dir0 = (Inr [0, 1], l2, d2)
     \<and> log_next l2 = log_next l1"
proof -
  obtain l1 d1 where b: "log_AppendBatch demo_codec demo_batch demo_log0 demo_dir0 = (([0, 1], None), l1, d1)"
    using demo_batch_eq by (auto simp: prod_eq_iff)
  have a: "append_all demo_codec demo_batch demo_log0 demo_dir0 = (Inr [0, 1], demo_log2, demo_dir2)"
    by (simp add: demo_batch_def demo_a1_eq demo_a2_eq)
  show ?thesis
    using batch_as_appends [OF demo_holds0 _ b a] b a by (auto simp: demo_next demo_batch_def)
qed

text \<open>
  C11: reading an offset returns a message exactly when the log holds one with that offset, and
  then that message; every other offset is an error.
\<close>
theorem read_exact:
  assumes "log_holds cdc d l msgs" and "codec_ok cdc"
  shows "log_Read cdc off l d = Inr m \<longleftrightarrow> m \<in> set msgs \<and> msg_Offset m = off"
  by (rule log_Read_holds [OF assms])

theorem read_exact_witness:
  "log_Read demo_codec 1 demo_log2 demo_dir2 = Inr demo_msg1
     \<and> log_Read demo_codec 2 demo_log2 demo_dir2 \<noteq> Inr demo_msg1"
  using read_exact [OF demo_holds2 demo_codec_ok] by (simp add: demo_msg1_def)

text \<open>
  C12: a batch read returns the stored messages from the offset on, at most the count
  asked for, across segment boundaries; it ends, and is empty at and beyond the end of the log; an
  offset before the first segment is an error.
\<close>
theorem read_batch_slice:
  assumes "log_holds cdc d l msgs" and "codec_ok cdc" and "0 < sint n"
  shows "log_ReadBatch cdc off n l d = Some (if off < log_start l
      then Inl (OffsetErr ''offset is before the beginning of the log'' off)
      else Inr (take (nat (sint n)) (drop (unat off - unat (log_start l)) msgs)))"
  using log_ReadBatch_holds [OF assms(1,2) _ assms(3)] log_ReadBatch_before [OF assms(1) _ assms(3)]
  by (cases "off < log_start l") (simp_all add: not_less)

theorem read_batch_slice_witness:
  "log_ReadBatch demo_codec 0 5 demo_log2 demo_dir2 = Some (Inr [demo_msg0, demo_msg1])
     \<and> log_ReadBatch demo_codec 1 5 demo_log2 demo_dir2 = Some (Inr [demo_msg1])"
  using read_batch_slice [OF demo_holds2 demo_codec_ok, of 5 0]
    read_batch_slice [OF demo_holds2 demo_codec_ok, of 5 1]
  by (simp add: demo_start)

text \<open>
  C13: the loop of \<open>ReadBatch\<close>, which the code leaves only on a short segment or a full
  result, ends on every log whose segments are chained, whatever the files contain, whether reads fail,
  and for every offset and count, negative counts included.
\<close>
theorem read_batch_ends:
  assumes "chained (log_segments l)" and "log_segments l \<noteq> []"
  shows "\<exists>r. log_ReadBatch cdc off n l d = Some r"
  by (rule log_ReadBatch_ends [OF assms])

theorem read_batch_ends_witness:
  "\<exists>r. log_ReadBatch demo_codec 7 (-1) demo_log2 demo_dir2 = Some r"
proof -
  have "chained (log_segments demo_log2)" "log_segments demo_log2 \<noteq> []"
    using demo_inv2 by (auto simp: log_inv_def log_core_def)
  then show ?thesis by (rule read_batch_ends)
qed

text \<open>
  C14: with a file system that reports no failure, an append to a log of a record that
  fits does succeed, at the next offset, and leaves the file system in that condition.
\<close>
theorem append_progress:
  assumes "log_inv cdc d l mss" and "sched d = []" and "no_dirs d" and "log_next l \<noteq> -1"
    and "fits cdc (log_compressed l) (last mss) k v"
  shows "\<exists>l' d'. log_Append cdc ts k v l d = (Inr (log_next l), l', d') \<and> sched d' = [] \<and> no_dirs d'"
  by (rule log_Append_idle [OF assms])

theorem append_progress_witness:
  "\<exists>l' d'. log_Append demo_codec 9 [7] [8] demo_log2 demo_dir2 = (Inr 2, l', d')"
proof -
  have "fits demo_codec (log_compressed demo_log2) (last [[demo_msg0], [demo_msg1], []]) [7] [8]"
    by (simp add: fits_def demo_segments stored_def log_bytes_def max_file_size_def)
  then show ?thesis
    using append_progress [OF demo_inv2 demo_sched(3) demo_no_dirs(3), of "[7]" "[8]" 9] by (auto simp: demo_next)
qed

text \<open>
  C15: closing a log and opening its directory again, with no failures reported and a
  usable size argument, gives a log with the same segments and the same messages, once its
  compression setting is restored.
\<close>
theorem reopen_round_trip:
  assumes "log_inv cdc d l mss" and "log_Close l d = (r, l1, d1)" and "sched d1 = []" and "size_args_ok sz"
  shows "\<exists>l2 d2. NewLog sz d1 = (Inr l2, d2)
    \<and> log_segments l2 = map (seg_SetCompressed False) (log_segments l)
    \<and> log_inv cdc d2 (log_SetCompressed (log_compressed l) l2) mss"
proof -
  have d1: "lookup_file d1 = lookup_file d" "dir_wf d1"
    using log_Close_step(1) [OF assms(2)] assms(1) by (simp_all add: dir_step_def log_inv_def log_core_def)
  obtain l2 d2 where n: "NewLog sz d1 = (Inr l2, d2)"
    using NewLog_reopen_idle [OF assms(1) d1 assms(3,4)] by blast
  show ?thesis using NewLog_reopen(2,3) [OF assms(1) d1 n] n by blast
qed

theorem reopen_round_trip_witness:
  "\<exists>l2 d2. NewLog [20] (snd (snd (log_Close demo_log2 demo_dir2))) = (Inr l2, d2)
     \<and> log_inv demo_codec d2 (log_SetCompressed False l2) [[demo_msg0], [demo_msg1], []]"
proof -
  obtain r l1 d1 where c: "log_Close demo_log2 demo_dir2 = (r, l1, d1)" by (metis surj_pair)
  have "sched (snd (snd (log_Close demo_log2 demo_dir2))) = []" by code_simp
  then show ?thesis
    using reopen_round_trip [OF demo_inv2 c, of "[20]"] c by (auto simp: size_args_ok_def demo_segments)
qed

section \<open>Retention and compaction\<close>

text \<open>
  C16: enforcing retention removes some number \<open>k\<close> of the oldest segments and
  nothing else, never the active one. Each removed segment was due when its turn came (the log
  was over the size limit or the segment's newest message older than the cutoff), and the oldest
  segment that stays is not due, unless only the active one is left.
\<close>
theorem retention_deletes_oldest:
  assumes "log_inv cdc d l mss" and "EnforceRetention rb rms now l d = (Inr (), l', d')"
    and "ds = map (digest cdc (log_compressed l)) mss"
  shows "\<exists>k < length mss. log_segments l' = drop k (log_segments l) \<and> log_inv cdc d' l' (drop k mss)
    \<and> (\<forall>j < k. doomed (sint rb) (sint rms) (retention_cutoff rms now) (drop j ds))
    \<and> (Suc k < length mss \<longrightarrow> \<not> doomed (sint rb) (sint rms) (retention_cutoff rms now) (drop k ds))"
proof -
  define k where "k = retention_rule cdc rb rms now (log_compressed l) mss"
  note spec = EnforceRetention_spec [OF assms(1,2) k_def]
  have "ds \<noteq> []" "length ds = length mss" using spec(1) assms(3) by auto
  then show ?thesis
    using spec surplus_stops surplus_needed unfolding k_def retention_rule_def
    by (intro exI [of _ k]) (simp add: assms(3) k_def retention_rule_def)
qed

theorem retention_deletes_oldest_witness:
  "\<exists>l' d' k. EnforceRetention 30 0 100 demo_log2 demo_dir2 = (Inr (), l', d')
     \<and> log_segments l' = drop k (log_segments demo_log2)
     \<and> log_inv demo_codec d' l' (drop k [[demo_msg0], [demo_msg1], []])"
proof -
  obtain l' d' where e: "EnforceRetention 30 0 100 demo_log2 demo_dir2 = (Inr (), l', d')"
    using EnforceRetention_idle [OF demo_inv2 demo_sched(3)] by blast
  show ?thesis using retention_deletes_oldest [OF demo_inv2 e refl] e by blast
qed

text \<open>
  C17: with a positive size limit and no I/O failure, enforcing retention succeeds
  and leaves either the active segment alone or at most that many bytes.
\<close>
theorem retention_bounds_size:
  assumes "log_inv cdc d l mss" and "sched d = []" and "0 < sint rb"
  shows "\<exists>l' d'. EnforceRetention rb rms now l d = (Inr (), l', d')
    \<and> (length (log_segments l') = 1 \<or> sum_list (map seg_Size (log_segments l')) \<le> sint rb)"
proof -
  obtain l' d' where e: "EnforceRetention rb rms now l d = (Inr (), l', d')"
    using EnforceRetention_idle [OF assms(1,2)] by blast
  show ?thesis using EnforceRetention_bounded [OF assms(1) e assms(3)] e by blast
qed

theorem retention_bounds_size_witness:
  "\<exists>l' d'. EnforceRetention 30 0 100 demo_log2 demo_dir2 = (Inr (), l', d')
     \<and> (length (log_segments l') = 1 \<or> sum_list (map seg_Size (log_segments l')) \<le> 30)"
  using retention_bounds_size [OF demo_inv2 demo_sched(3), of 30 0 100] by simp

text \<open>
  C18: compacting a log with an inactive segment always fails: the segment is closed
  before its index is read. The error is reported, no file content is lost, and the messages of
  the first segment can no longer be read through that log.
\<close>
theorem compaction_fails:
  assumes "log_inv cdc d l mss" and "codec_ok cdc" and "1 < length (log_segments l)"
    and "Compact cdc l d = (r, l', d')"
  shows "(\<exists>e. r = Inl (Wrap ''compact segment'' e)) \<and> keeps_contents d d'
    \<and> mss ! 0 \<noteq> [] \<and> (\<forall>m \<in> set (mss ! 0). \<exists>e. log_Read cdc (msg_Offset m) l' d' = Inl e)"
proof -
  have c: "log_core cdc d l mss" using assms(1) by (simp add: log_inv_def)
  show ?thesis
    using Compact_fails [OF c assms(2-4)] Compact_unreadable [OF c assms(2-4)]
      inactive_nonempty [OF c, of 0] assms(3) by simp
qed

theorem compaction_fails_witness:
  "\<exists>e l' d' e'. Compact demo_codec demo_log2 demo_dir2 = (Inl e, l', d')
     \<and> log_Read demo_codec 0 demo_log2 demo_dir2 = Inr demo_msg0 \<and> log_Read demo_codec 0 l' d' = Inl e'"
proof -
  obtain r l' d' where c: "Compact demo_codec demo_log2 demo_dir2 = (r, l', d')" by (metis surj_pair)
  have "log_Read demo_codec 0 demo_log2 demo_dir2 = Inr demo_msg0"
    using log_Read_holds [OF demo_holds2 demo_codec_ok] by (simp add: demo_msg0_def)
  then show ?thesis
    using compaction_fails [OF demo_inv2 demo_codec_ok _ c] c by (auto simp: demo_segments demo_msg0_def)
qed

section \<open>Consumer groups\<close>

text \<open>
  C19: after a successful commit, fetching that group, topic and partition returns the
  committed offset, every other one is unchanged, and the cache still agrees with the database.
\<close>
theorem commit_then_fetch:
  assumes "bolt_ok ops" and "cg_inv ops s" and "cg_CommitOffset ops g t p off s = (Inr (), s')"
    and "plain g'" and "plain t'"
  shows "cg_inv ops s' \<and> cg_FetchOffset g' t' p' s' =
    (if (g', t', p') = (g, t, p) then off else cg_FetchOffset g' t' p' s)"
  using fetch_after_commit [OF assms] cg_CommitOffset_inv(1) [OF assms(1-3)] by simp

theorem commit_then_fetch_witness:
  "\<exists>s'. cg_CommitOffset demo_bolt ''g'' ''t'' 1 42 demo_groups = (Inr (), s')
     \<and> cg_FetchOffset ''g'' ''t'' 1 s' = 42 \<and> cg_FetchOffset ''g'' ''t'' 2 s' = cg_FetchOffset ''g'' ''t'' 2 demo_groups"
  using commit_then_fetch [OF demo_bolt_ok demo_groups_inv demo_commit, of "''g''" "''t''" 1]
    commit_then_fetch [OF demo_bolt_ok demo_groups_inv demo_commit, of "''g''" "''t''" 2] demo_commit
  by (auto simp: plain_def NUL_def)

text \<open>
  C20: whatever order the cache is ranged over, the snapshot lists a group, topic,
  partition and offset exactly when that offset is the committed one.
\<close>
theorem snapshot_lists_commits:
  assumes "cg_inv ops s" and "set keys = dom (cg_offsets s)"
  shows "c \<in> set (cg_Snapshot keys s) \<longleftrightarrow> plain (cgo_GroupID c) \<and> plain (cgo_Topic c)
    \<and> cg_offsets s (offsetKey (cgo_GroupID c) (cgo_Topic c) (cgo_Partition c)) = Some (cgo_Offset c)"
  by (rule snapshot_complete [OF assms])

theorem snapshot_lists_commits_witness:
  "\<lparr>cgo_GroupID = ''g'', cgo_Topic = ''t'', cgo_Partition = 1, cgo_Offset = 42\<rparr>
     \<in> set (cg_Snapshot [offsetKey ''g'' ''t'' 1] demo_committed)"
  using snapshot_lists_commits [OF demo_committed_inv, of "[offsetKey ''g'' ''t'' 1]"
      "\<lparr>cgo_GroupID = ''g'', cgo_Topic = ''t'', cgo_Partition = 1, cgo_Offset = 42\<rparr>"] demo_committed_offsets
  by (simp add: plain_def NUL_def demo_groups_def)

text \<open>
  C21: two concurrent commits of one key can leave the cache with the offset that was
  persisted first while the database holds the second, with no call in flight any more.
\<close>
theorem commit_race:
  assumes "a \<noteq> b" and "quiet s"
  shows "\<exists>s'. commit_step\<^sup>*\<^sup>* s s' \<and> quiet s' \<and> cs_db s' k = Some b \<and> cs_cache s' k = Some a"
  using race_run [OF assms(1), where s = s and k = k] assms(2) by (auto simp: quiet_def)

theorem commit_race_witness:
  "\<exists>s'. commit_step\<^sup>*\<^sup>* \<lparr>cs_db = Map.empty, cs_cache = Map.empty, cs_pending = []\<rparr> s' \<and> quiet s'
     \<and> cs_db s' ''k'' = Some 2 \<and> cs_cache s' ''k'' = Some 1"
  by (rule commit_race) (simp_all add: quiet_def)

text \<open>
  C22: when no two commits of the same key overlap, the cache agrees with the
  database whenever no commit is in flight.
\<close>
theorem serial_commits_agree:
  assumes "serial_step\<^sup>*\<^sup>* s s'" and "cs_cache s = cs_db s" and "quiet s" and "quiet s'"
  shows "cs_cache s' = cs_db s'"
proof -
  have "serial_inv s" using assms(2,3) by (simp add: serial_inv_def quiet_def)
  then show ?thesis using serial_inv_run [OF assms(1)] serial_quiet assms(4) by blast
qed

theorem serial_commits_agree_witness:
  "\<exists>s'. serial_step\<^sup>*\<^sup>* \<lparr>cs_db = Map.empty, cs_cache = Map.empty, cs_pending = []\<rparr> s'
     \<and> cs_db s' ''k'' = Some 1 \<and> cs_cache s' = cs_db s'"
proof -
  let ?s = "\<lparr>cs_db = Map.empty, cs_cache = Map.empty, cs_pending = []\<rparr>"
  let ?p = "persist ''k'' 1 ?s" and ?c = "cache_write ''k'' 1 (persist ''k'' 1 ?s)"
  have "serial_step ?s ?p" by (rule SPersist) simp
  moreover have "serial_step ?p ?c" by (rule SCache) (simp add: persist_def)
  ultimately have "serial_step\<^sup>*\<^sup>* ?s ?c" by simp
  moreover have "quiet ?s" "quiet ?c" by (simp_all add: quiet_def persist_def cache_write_def)
  ultimately show ?thesis
    using serial_commits_agree [of ?s ?c] by (intro exI [of _ ?c]) (simp add: persist_def cache_write_def)
qed

section \<open>The command-line client\<close>

text \<open>
  C23: what \<open>elog produce\<close> is given on its command line comes out of \<open>elog consume\<close>. When
  the first one exits with code 0 against a broker that leads, it prints the offset at the end of
  the partition's history, and the second one, run with that offset, exits with code 0 and prints
  the message: through the flags, the handlers, the command format, raft, and the log files.
\<close>
theorem cli_round_trip:
  assumes "broker_keeps cdc b h" and "codec_ok cdc" and "publishable t (bytes_of_string ''msg'') (bytes_of_string msg)"
    and "msg \<noteq> []" and "p < 3" and "dial addr Insecure = Inr (broker_client cdc ops rc)"
    and "cli_main pki dial n ([''elog'', ''produce''] @ produce_args addr t p msg) b = (Some (0, None), out, b')"
    and "raft_quiet cdc rc es (snd (GetPartition t (int p) b)) h"
    and "length (after_entries es h t (int p)) + 1 < 2 ^ 64"
  shows "\<exists>off b''. out = [PrintOffset off] \<and> unat off = length (after_entries es h t (int p))
    \<and> cli_main pki dial n ([''elog'', ''consume''] @ consume_args addr t p off) b'
        = (Some (0, None), [PrintMessage (bytes_of_string ''msg'') (bytes_of_string msg)], b'')"
proof -
  let ?req = "\<lparr>pr_Topic = t, pr_Key = bytes_of_string ''msg'', pr_Value = bytes_of_string msg,
    pr_Partition = Some (word_of_nat p)\<rparr>"
  have sp: "sint (word_of_nat p :: i32) = int p" "in_range (sint (word_of_nat p :: i32))"
    using small_partition [OF assms(5)] assms(5) by (auto simp: in_range_def defaultNumPartitions_def)
  obtain off where pr: "Produce cdc rc ?req b = (Inr off, b')" "out = [PrintOffset off]"
    using assms(7) cli_produce_sends [where dial = dial, OF assms(5,4,6), of pki t b]
    by (cases "Produce cdc rc ?req b"; cases "fst (Produce cdc rc ?req b)")
      (auto simp: cli_main_def broker_client_def exit_code_def)
  note pc = Produce_then_Consume [OF assms(1-3) pr(1) sp(2), unfolded sp(1), OF assms(8,9)]
  show ?thesis
    using pc cli_consume_asks [where dial = dial, OF assms(5,6), of pki t off b'] pr(2)
    by (cases "Consume cdc \<lparr>cr_Topic = t, cr_Partition = Some (word_of_nat p), cr_Offset = off\<rparr> b'")
      (auto simp: cli_main_def broker_client_def exit_code_def)
qed

theorem cli_round_trip_witness:
  "\<exists>b' b''. cli_main demo_pki demo_dial 0 ([''elog'', ''produce''] @ produce_args ''b:1'' ''t'' 2 ''hi'') demo_broker
      = (Some (0, None), [PrintOffset 0], b')
     \<and> cli_main demo_pki demo_dial 0 ([''elog'', ''consume''] @ consume_args ''b:1'' ''t'' 2 0) b'
      = (Some (0, None), [PrintMessage (bytes_of_string ''msg'') (bytes_of_string ''hi'')], b'')"
proof -
  obtain out b' where m: "cli_main demo_pki demo_dial 0 ([''elog'', ''produce''] @ produce_args ''b:1'' ''t'' 2 ''hi'') demo_broker
      = (Some (0, None), out, b')"
    using demo_cli_produce by (auto simp: prod_eq_iff)
  have "publishable ''t'' (bytes_of_string ''msg'') (bytes_of_string ''hi'')"
    by (simp add: publishable_def safe_topic_def bytes_of_string_def)
  moreover have "raft_quiet demo_codec demo_call [] b (\<lambda>_ _. [])" for b :: "(bytes \<times> bytes) list broker"
    by (simp add: raft_quiet_def demo_call_def)
  ultimately show ?thesis
    using cli_round_trip [OF demo_broker_keeps demo_codec_ok _ _ _ _ m, of demo_bolt demo_call "[]"] m
    by (auto simp: demo_dial_def after_entries_def unat_eq_zero)
qed

text \<open>
  C24: against a broker whose partition has history \<open>hs\<close> and whose group has
  committed offset \<open>c\<close>, \<open>n\<close> rounds of \<open>elog consume-group --follow\<close> print exactly the next \<open>n\<close> entries
  (fewer at the end of the history), once each and in order, and commit past them.
\<close>
theorem group_delivers_in_order:
  assumes "group_view cdc ops g t (word_of_nat p) b c hs" and "p < 3"
    and "dial addr Insecure = Inr (broker_client cdc ops rc)"
  shows "\<exists>b'. cli_main pki dial n ([''elog'', ''consume-group''] @ group_args addr g t p) b
      = (None, map (\<lambda>(k, v). PrintMessage k v) (take n (drop c hs)), b')
    \<and> group_view cdc ops g t (word_of_nat p) b' (c + min n (length hs - c)) hs"
proof -
  have "g \<noteq> []" using assms(1) by (simp add: group_view_def)
  from cli_consume_group_loops [where dial = dial, OF assms(2) this assms(3), of pki t n b]
    svc.rounds_deliver [OF assms(1), of rc n "[]"]
  show ?thesis by (auto simp: cli_main_def)
qed

theorem group_delivers_in_order_witness:
  "\<exists>b'. cli_main demo_pki demo_dial 2 ([''elog'', ''consume-group''] @ group_args ''b:1'' ''g'' ''t'' 0) demo_loaded
     = (None, [PrintMessage [1] [10], PrintMessage [2] [20]], b')"
proof -
  have "cg_inv demo_bolt (b_consumerGroups demo_loaded)"
    using demo_groups_inv by (simp add: demo_loaded_groups)
  then have "group_view demo_codec demo_bolt ''g'' ''t'' (word_of_nat 0) demo_loaded 0 demo_history"
    using demo_loaded_keeps demo_loaded_known demo_codec_ok demo_bolt_up demo_loaded_start demo_loaded_groups
    by (auto simp: group_view_def plain_def NUL_def demo_history_def cg_FetchOffset_def demo_groups_none)
  from group_delivers_in_order [OF this, of demo_dial "''b:1''" demo_call demo_pki 2] show ?thesis
    by (auto simp: demo_history_def demo_dial_def)
qed

section \<open>Commands of the state machine\<close>

text \<open>
  C25: applying an encoded single command appends exactly that key and value, with
  the applying node's clock as timestamp, to the log of that topic and partition.
\<close>
theorem single_command_applied:
  assumes "head_ok topic part" and "length key < 2 ^ 32" and "length val < 2 ^ 32"
  shows "Apply cdc prov now (EncodeCommand topic part key val) st =
    (case prov_get prov (effective_topic topic) part st of
       (Inl e, st') \<Rightarrow> (RespError (Wrap ''get partition log'' e), st')
     | (Inr _, st') \<Rightarrow> append_one cdc prov now (effective_topic topic) part key val st')"
  by (rule Apply_EncodeCommand [OF assms refl])

theorem single_command_applied_witness:
  "fst (Apply demo_codec broker_provider 7 (EncodeCommand ''t'' 2 [1] [10]) demo_broker) = RespOffset 0
   \<and> Apply demo_codec broker_provider 7 (EncodeCommand ''t'' 5 [1] [10]) demo_broker =
     (RespError (Wrap ''get partition log'' (NumErr ''partition out of range'' 5)), demo_broker)"
proof
  show "fst (Apply demo_codec broker_provider 7 (EncodeCommand ''t'' 2 [1] [10]) demo_broker) = RespOffset 0"
  proof (subst single_command_applied)
    show "head_ok ''t'' 2" by (simp add: head_ok_def)
  qed (simp, simp, code_simp)
  show "Apply demo_codec broker_provider 7 (EncodeCommand ''t'' 5 [1] [10]) demo_broker =
     (RespError (Wrap ''get partition log'' (NumErr ''partition out of range'' 5)), demo_broker)"
    using single_command_applied [of "''t''" 5 "[1]" "[10]" demo_codec broker_provider 7 demo_broker]
    by (simp add: head_ok_def broker_provider_def GetPartition_def defaultNumPartitions_def)
qed

text \<open>
  C26: applying an encoded batch command appends exactly its records, in order and
  with one timestamp, to the log of that topic and partition.
\<close>
theorem batch_command_applied:
  assumes "head_ok topic part" and "records_ok rs"
  shows "Apply cdc prov now (EncodeBatchCommand topic part rs) st =
    (case prov_get prov (effective_topic topic) part st of
       (Inl e, st') \<Rightarrow> (RespError (Wrap ''get partition log'' e), st')
     | (Inr _, st') \<Rightarrow> append_many cdc prov (effective_topic topic) part (stamped now rs) st')"
  by (rule Apply_EncodeBatchCommand [OF assms refl])

theorem batch_command_applied_witness:
  "fst (Apply demo_codec broker_provider 7 (EncodeBatchCommand '''' 1 demo_records) demo_broker) = RespOffsets [0, 1]
   \<and> Apply demo_codec broker_provider 7 (EncodeBatchCommand '''' 3 demo_records) demo_broker =
     (RespError (Wrap ''get partition log'' (NumErr ''partition out of range'' 3)), demo_broker)"
proof
  have rs: "records_ok demo_records" by (simp add: records_ok_def demo_records_def)
  show "fst (Apply demo_codec broker_provider 7 (EncodeBatchCommand '''' 1 demo_records) demo_broker) = RespOffsets [0, 1]"
  proof (subst batch_command_applied [OF _ rs])
    show "head_ok '''' 1" by (simp add: head_ok_def)
  qed code_simp
  show "Apply demo_codec broker_provider 7 (EncodeBatchCommand '''' 3 demo_records) demo_broker =
     (RespError (Wrap ''get partition log'' (NumErr ''partition out of range'' 3)), demo_broker)"
    using batch_command_applied [OF _ rs, of "''''" 3 demo_codec broker_provider 7 demo_broker]
    by (simp add: head_ok_def broker_provider_def GetPartition_def defaultNumPartitions_def)
qed

text \<open>
  C27: a single command cut short anywhere is answered with an error and appends
  nothing: the state is unchanged, or only a partition has been opened.
\<close>
theorem truncated_command_refused:
  assumes "head_ok topic part" and "length key < 2 ^ 32" and "length val < 2 ^ 32"
    and "n < length (EncodeCommand topic part key val)"
  shows "refused prov st (Apply cdc prov now (take n (EncodeCommand topic part key val)) st)"
  by (rule Apply_prefix_single [OF assms])

theorem truncated_command_refused_witness:
  "refused broker_provider demo_broker
     (Apply demo_codec broker_provider 7 (take 10 (EncodeCommand ''t'' 0 [1] [10])) demo_broker)"
proof -
  have "10 < length (EncodeCommand ''t'' 0 [1] [10])" by code_simp
  then show ?thesis
    using truncated_command_refused [of "''t''" 0 "[1]" "[10]" 10 broker_provider demo_broker demo_codec 7]
    by (simp add: head_ok_def)
qed

text \<open>
  C28: a node applies the entries \<open>es1\<close>, takes a snapshot, applies \<open>es2\<close> and is closed or
  killed. When it is started again Raft restores the snapshot and applies the entries behind it once
  more (\<open>es2'\<close>, the same commands at other times): if all are accepted, the node ends with every record
  of \<open>es2\<close> twice, since \<open>Persist\<close> writes nothing and \<open>Restore\<close> does not take the partition logs back to
  the snapshot. Without a snapshot \<open>es1\<close> is empty and all entries are doubled. No topic is compressed.
\<close>
theorem replay_duplicates:
  assumes "broker_keeps cdc b h" and "\<And>t. \<not> tc_Compressed (broker_TopicConfig t b)"
    and "able_steps spec_apply cmd_able (map snd (es1 @ es2 @ es2')) h" and "map snd es2' = map snd es2"
    and "run_steps (broker_step cdc) es1 b = (rs1, b1)" and "\<forall>r \<in> set rs1. accepted r"
    and "Snapshot b1 = Inr snap" and "Persist None snap [] = (None, data)"
    and "run_steps (broker_step cdc) es2 b1 = (rs2, b2)" and "\<forall>r \<in> set rs2. accepted r"
    and "restarts_to ops httpErr raftErr order b2 b3" and "Restore data b3 = (Inr (), b4)"
    and "run_steps (broker_step cdc) es2' b4 = (rs3, b5)" and "\<forall>r \<in> set rs3. accepted r"
  shows "\<exists>h'. broker_keeps cdc b5 h'
    \<and> (\<forall>t p. h' t p = h t p @ added (map snd es1) t p @ added (map snd es2) t p @ added (map snd es2) t p)"
  by (rule restored_replays [OF assms(1-6,9-14)])

theorem replay_duplicates_witness:
  "\<exists>h. broker_keeps demo_codec (snd (run_steps (broker_step demo_codec) (demo_new 9) demo_back)) h
     \<and> h ''t'' 0 = [([1], [10]), ([2], [20]), ([2], [20])]"
proof -
  let ?run = "run_steps (broker_step demo_codec)"
  obtain rs1 b1 where r1: "?run demo_old demo_broker = (rs1, b1)" by fastforce
  obtain rs2 b2 where r2: "?run (demo_new 6) b1 = (rs2, b2)" by fastforce
  obtain rs3 b3 where r3: "?run (demo_new 9) demo_back = (rs3, b3)" by fastforce
  have acc: "\<forall>r \<in> set rs1. accepted r" "\<forall>r \<in> set rs2. accepted r" "\<forall>r \<in> set rs3. accepted r"
    using demo_replay_accepted r1 r2 r3 by simp_all
  have plain: "\<not> tc_Compressed (broker_TopicConfig t demo_broker)" for t
    by (simp add: demo_broker_def broker_init_def broker_TopicConfig_def zero_config_def)
  have up: "restarts_to demo_bolt None None [] b2 demo_back"
    using demo_back_eq r1 r2 by (simp add: restarts_to_def demo_before_def)
  have same: "map snd (demo_new 9) = map snd (demo_new 6)" by (simp add: demo_new_def)
  have snap: "Snapshot b1 = Inr NoopSnapshot" "Persist None NoopSnapshot [] = (None, [])"
    "Restore [] demo_back = (Inr (), demo_back)"
    by (simp_all add: Snapshot_def Persist_def Restore_def)
  obtain h where "broker_keeps demo_codec b3 h"
    "\<forall>t p. h t p = [] @ added (map snd demo_old) t p @ added (map snd (demo_new 6)) t p @ added (map snd (demo_new 6)) t p"
    using replay_duplicates [OF demo_broker_keeps plain demo_replay_able same r1 acc(1) snap(1,2) r2 acc(2) up snap(3) r3 acc(3)]
    by blast
  then show ?thesis
    using r3 by (intro exI [of _ h]) (simp add: added_def demo_old_def demo_new_def effective_topic_def)
qed

section \<open>Partitions\<close>

text \<open>
  C29: for topic names that are plain path elements, two partitions have the
  same directory only if they are the same partition of the same topic.
\<close>
theorem topics_do_not_share_files:
  assumes "safe_topic t" and "safe_topic u"
  shows "partition_path dataDir t i = partition_path dataDir u j \<longleftrightarrow> t = u \<and> i = j"
  by (rule partition_path_inject [OF assms])

theorem topics_do_not_share_files_witness: "partition_path ''d'' ''a'' 0 \<noteq> partition_path ''d'' ''b'' 0"
  using topics_do_not_share_files [of "''a''" "''b''"] by (simp add: safe_topic_def)

section \<open>Segments\<close>

text \<open>
  C30: the index lookup, with its direct guess and its binary search, returns for every
  offset what a scan of the index from its start returns, errors included.
\<close>
theorem index_lookup_scans:
  assumes "index_inv (tbl, s, d)"
  shows "findMessageBounds s d offset =
    (case scan_bounds tbl (uint64 (seg_size s)) offset of
       Some bounds \<Rightarrow> Inr bounds
     | None \<Rightarrow> Inl (if tbl = [] then Msg ''segment index is empty''
                   else OffsetErr ''offset not found in segment index'' offset))"
  by (rule findMessageBounds_scan [OF assms])

theorem index_lookup_scans_witness:
  "findMessageBounds (demo_seg 0 1 26 1) demo_dir1 0 = Inr (0, 26)
     \<and> (\<exists>e. findMessageBounds (demo_seg 0 1 26 1) demo_dir1 1 = Inl e)"
proof -
  have "lookup_file demo_dir1 (index_name 0) = Some (index_bytes [(0, 0)] @ [])" by code_simp
  then have "index_inv ([(0, 0)], demo_seg 0 1 26 1, demo_dir1)" by (simp add: index_inv_def demo_seg_def)
  from index_lookup_scans [OF this, of 0] index_lookup_scans [OF this, of 1] show ?thesis
    by (simp add: demo_seg_def uint64_def)
qed

text \<open>
  C31: whatever write an append fails in, and however much of it reached the
  files, every message stored before is still read back unchanged.
\<close>
theorem failed_append_keeps_messages:
  assumes "log_inv cdc d l mss" and "codec_ok cdc" and "log_next l \<noteq> -1"
    and "log_Append cdc ts k v l d = (Inl e, l', d')" and "m \<in> set (concat mss)"
  shows "log_Read cdc (msg_Offset m) l' d' = Inr m"
  by (rule log_Append_failed [OF assms])

theorem failed_append_keeps_messages_witness:
  "\<exists>e l' d'. log_Append demo_codec 9 [7] [8] demo_log2 (demo_dir2\<lparr>sched := [IoErr 3]\<rparr>) = (Inl e, l', d')
     \<and> log_Read demo_codec 1 l' d' = Inr demo_msg1"
proof -
  let ?d = "demo_dir2\<lparr>sched := [IoErr 3]\<rparr>"
  have "\<not> is_ok (fst (log_Append demo_codec 9 [7] [8] demo_log2 ?d))" by code_simp
  then obtain e l' d' where a: "log_Append demo_codec 9 [7] [8] demo_log2 ?d = (Inl e, l', d')"
    by (cases "log_Append demo_codec 9 [7] [8] demo_log2 ?d"; cases "fst (log_Append demo_codec 9 [7] [8] demo_log2 ?d)") auto
  have "demo_msg1 \<in> set (concat [[demo_msg0], [demo_msg1], []])" by simp
  from failed_append_keeps_messages [OF demo_inv2_sched demo_codec_ok _ a this] show ?thesis
    using a by (simp add: demo_next demo_msg1_def)
qed

text \<open>
  C32: an append to an uncompressed segment fails and leaves the bytes \<open>x\<close> in the log
  file and nothing in the index; then another append is acknowledged. \<open>Read\<close> takes the header and the
  payload for the acknowledged offset from the start of \<open>x\<close>. If \<open>x\<close> is the whole record of the failed
  append, \<open>Read\<close> returns that record when the two payloads have the same length, and an error when they
  have not: in no case the record that was acknowledged, unless it equals the failed one.
\<close>
theorem torn_write_corrupts:
  assumes "seg_repr cdc d s ms" and "dir_wf d" and "\<not> seg_compressed s" and "seg_nextOffset s \<noteq> -1"
    and "seg_Append cdc ts1 k1 v1 s d = (Inl e, s1, d1)" and "leaves_tail s d d1 x"
    and "seg_Append cdc ts2 k2 v2 s1 d1 = (Inr (off, saved), s2, d2)"
    and "bs = x @ header_bytes off ts2 (length k2) (length v2) @ k2 @ v2"
  shows "seg_Read cdc off s2 d2 = decode_record off (take 24 bs) (take (length k2 + length v2) (drop 24 bs))
    \<and> (x = header_bytes off ts1 (length k1) (length v1) @ k1 @ v1 \<longrightarrow> seg_Read cdc off s2 d2
        = (if length k1 + length v1 = length k2 + length v2
           then Inr \<lparr>msg_Offset = off, msg_Timestamp = ts1, msg_Key = k1, msg_Value = v1\<rparr>
           else Inl (NumErr ''payload size does not match key/value sizes'' (int (length k2 + length v2)))))"
  using seg_Read_stale [OF assms(1-7)] assms(8) by blast

theorem torn_write_corrupts_witness:
  "\<exists>e s1 d1 s2 d2. seg_Append demo_codec 5 [1] [10] (demo_seg 0 0 0 0) demo_lost = (Inl e, s1, d1)
     \<and> seg_Append demo_codec 6 [2] [20] s1 d1 = (Inr (0, 0), s2, d2)
     \<and> seg_Read demo_codec 0 s2 d2 = Inr \<lparr>msg_Offset = 0, msg_Timestamp = 5, msg_Key = [1], msg_Value = [10]\<rparr>"
proof -
  obtain e s1 d1 where a1: "seg_Append demo_codec 5 [1] [10] (demo_seg 0 0 0 0) demo_lost = (Inl e, s1, d1)"
    using demo_lost_run(1) by (cases demo_failed; cases "fst demo_failed") (auto simp: demo_failed_def)
  obtain s2 d2 where a2: "seg_Append demo_codec 6 [2] [20] s1 d1 = (Inr (0, 0), s2, d2)"
    using demo_lost_run(2) a1 by (cases demo_next_append) (auto simp: demo_next_append_def demo_failed_def)
  have tail: "leaves_tail (demo_seg 0 0 0 0) demo_lost d1 (header_bytes 0 5 1 1 @ [1] @ [10])"
    using demo_lost_run(3) a1 by (simp add: demo_failed_def)
  have "\<not> seg_compressed (demo_seg 0 0 0 0)" "seg_nextOffset (demo_seg 0 0 0 0) \<noteq> -1" by (simp_all add: demo_seg_def)
  from conjunct2 [OF torn_write_corrupts [OF demo_lost_repr this a1 tail a2 refl]] show ?thesis
    using a1 a2 by simp
qed

section \<open>The API\<close>

text \<open>
  C33: on the leader, a batch publish that returns offsets has stored all records in
  order at the end of the partition's history, and the offsets are their positions.
\<close>
theorem batch_publish_stores:
  assumes "broker_keeps cdc b h" and "safe_topic t" and "length t < 2 ^ 16" and "records_ok rs"
    and "PublishBatch cdc rc t part (map Some rs) b = (Inr offs, b')"
    and "raft_quiet cdc rc es (snd (GetPartition t (sint part) b)) h"
    and "length (after_entries es h t (sint part)) + length rs < 2 ^ 64"
  shows "map unat offs = [length (after_entries es h t (sint part)) ..<
      length (after_entries es h t (sint part)) + length rs]
    \<and> broker_keeps cdc b' (snd (spec_apply (Batch t (sint part) rs) (after_entries es h)))"
  using PublishBatch_spec(3,4) [OF assms] by blast

theorem batch_publish_stores_witness:
  "\<exists>offs b'. PublishBatch demo_codec demo_call ''t'' 1 (map Some demo_records) demo_broker = (Inr offs, b')
     \<and> map unat offs = [0, 1]"
proof -
  obtain offs b' where p: "PublishBatch demo_codec demo_call ''t'' 1 (map Some demo_records) demo_broker = (Inr offs, b')"
    using demo_publish_batch by (metis prod.collapse)
  have "raft_quiet demo_codec demo_call [] b (\<lambda>_ _. [])" for b :: "(bytes \<times> bytes) list broker"
    by (simp add: raft_quiet_def demo_call_def)
  from batch_publish_stores [OF demo_broker_keeps _ _ _ p this] p show ?thesis
    by (simp add: safe_topic_def records_ok_def demo_records_def after_entries_def upt_rec)
qed

text \<open>
  C34: the HTTP handlers do what the gRPC methods do: given a decoded body, or query
  parameters that parse, they leave the same broker and answer with the same value or a failure.
\<close>
theorem http_matches_grpc:
  assumes "(if query ''partition'' = '''' then Some 0 else Atoi (query ''partition'')) = Some (sint p)"
    and "query ''offset'' \<noteq> ''''" and "ParseUint (query ''offset'') = Some off"
    and "fquery ''partition'' \<noteq> ''''" and "ParseInt 32 (fquery ''partition'') = Some (sint fp)"
  shows "handleProduce cdc rc ''POST'' (Inr req) b =
      (case Produce cdc rc req b of
         (Inl e, b') \<Rightarrow> (Fail 500 e, b')
       | (Inr o', b') \<Rightarrow> (Body \<lparr>pb_Offset = o', pb_Topic = topic_or_default (pr_Topic req),
           pb_Partition = partitionValue (pr_Partition req)\<rparr>, b'))
    \<and> handleConsume cdc ''GET'' query b =
      (case Consume cdc \<lparr>cr_Topic = query ''topic'', cr_Partition = Some p, cr_Offset = off\<rparr> b of
         (Inl e, b') \<Rightarrow> (Fail 404 e, b')
       | (Inr (o', k, v), b') \<Rightarrow> (Body \<lparr>cb_Offset = o', cb_Topic = topic_or_default (query ''topic''),
           cb_Partition = sint p, cb_Key = k, cb_Value = v\<rparr>, b'))
    \<and> snd (handleCommitOffset ops ''POST'' (Inr oreq) b) = snd (CommitOffset ops oreq b)
    \<and> (fst (handleCommitOffset ops ''POST'' (Inr oreq) b) = Ok \<longleftrightarrow> fst (CommitOffset ops oreq b) = Inr ())
    \<and> (handleFetchOffset ''GET'' fquery b = Body c \<longleftrightarrow> FetchOffset \<lparr>or_GroupId = fquery ''group_id'',
           or_Topic = fquery ''topic'', or_Partition = fp, or_Offset = 0\<rparr> b = Inr c)"
  using handleProduce_Produce handleConsume_Consume [where query = query, OF assms(1-3)]
    handleCommitOffset_CommitOffset handleFetchOffset_FetchOffset [where query = fquery, OF assms(4,5)] by blast

theorem http_matches_grpc_witness:
  "\<exists>k v b'. handleConsume demo_codec ''GET'' demo_query demo_loaded
     = (Body \<lparr>cb_Offset = 0, cb_Topic = ''t'', cb_Partition = 0, cb_Key = k, cb_Value = v\<rparr>, b')"
proof -
  have q: "(if demo_query ''partition'' = '''' then Some 0 else Atoi (demo_query ''partition'')) = Some (sint (0 :: i32))"
    "demo_query ''offset'' \<noteq> ''''" "ParseUint (demo_query ''offset'') = Some 0"
    "demo_query ''partition'' \<noteq> ''''" "ParseInt 32 (demo_query ''partition'') = Some (sint (0 :: i32))"
    by code_simp+
  obtain r b' where c: "Consume demo_codec \<lparr>cr_Topic = demo_query ''topic'', cr_Partition = Some 0, cr_Offset = 0\<rparr> demo_loaded = (r, b')"
    by fastforce
  then obtain k v where r: "r = Inr (0, k, v)"
    using demo_query_consume by (cases r) auto
  note h = http_matches_grpc [where query = demo_query and fquery = demo_query, OF q]
  have "handleConsume demo_codec ''GET'' demo_query demo_loaded
      = (Body \<lparr>cb_Offset = 0, cb_Topic = topic_or_default (demo_query ''topic''), cb_Partition = sint (0 :: i32), cb_Key = k, cb_Value = v\<rparr>, b')"
    using c r by (simp add: conjunct1 [OF conjunct2 [OF h]])
  then show ?thesis by (simp add: demo_query_def topic_or_default_def)
qed

text \<open>
  C35: what \<open>updateConsumerGroupLagFor\<close> does to the gauges. If the partition cannot be opened
  nothing changes; otherwise exactly the gauge of this group, topic and partition is set. A group that
  has committed \<open>c\<close>, the offset it will read next, has all records of the history from \<open>c\<close> on left to
  read (those that retention has deleted are counted too). As long as the partition stores a record, the
  gauge shows one less than that number, or 0 for a group that has read everything; if it stores none,
  the gauge shows 0.
\<close>
theorem lag_one_short:
  assumes "broker_keeps cdc b h" and "safe_topic t" and "GetPartition t (sint p) b = (r, b1)"
    and "b' = updateConsumerGroupLagFor g t p c b"
  shows "case r of
      Inl _ \<Rightarrow> m_lag (b_metrics b') = m_lag (b_metrics b)
    | Inr _ \<Rightarrow> (\<exists>lag. m_lag (b_metrics b') = (m_lag (b_metrics b))((g, t, p) \<mapsto> lag)
        \<and> unat lag = (if unat (log_start (fst (partition_log t (sint p) b1))) < length (h t (sint p))
                      then length (drop (unat c) (h t (sint p))) - 1 else 0))"
proof (cases r)
  case (Inl e)
  then show ?thesis
    using assms(3,4) GetPartition_metrics [OF assms(3)] by (simp add: updateConsumerGroupLagFor_def)
next
  case (Inr u)
  then show ?thesis using lag_gauge [OF assms(1,2), of p] assms(3,4) by simp
qed

theorem lag_one_short_witness:
  "\<exists>lag. m_lag (b_metrics (updateConsumerGroupLagFor ''g'' ''t'' 0 1 demo_loaded)) (''g'', ''t'', 0) = Some lag
     \<and> unat lag = 1 \<and> length (drop 1 demo_history) = 2"
proof -
  obtain h where h: "broker_keeps demo_codec demo_loaded h" "h ''t'' 0 = demo_history"
    using demo_loaded_keeps by blast
  obtain r b1 where g: "GetPartition ''t'' (sint (0 :: i32)) demo_loaded = (r, b1)" by fastforce
  note o = GetPartition_open [OF h(1) _ g]
  have r: "r = Inr ()" and st: "log_start (fst (partition_log ''t'' 0 b1)) = 0"
    using o(1,3) demo_loaded_known demo_loaded_start by simp_all
  have "safe_topic ''t''" by (simp add: safe_topic_def)
  from lag_one_short [OF h(1) this g refl, of "''g''" 1] show ?thesis
    using r st h(2) by (auto simp: demo_history_def)
qed

text \<open>
  C36: joining a peer makes at most five requests, stops at the first one that is answered
  with a success status, and reports success exactly when one of the five is.
\<close>
theorem join_retries:
  assumes "joinPeer post = (r, made)"
  shows "made \<le> 5 \<and> (r = Inr () \<longleftrightarrow> (\<exists>k < 5. success (post k)))
    \<and> (r = Inr () \<longrightarrow> 0 < made \<and> success (post (made - 1)) \<and> (\<forall>k < made - 1. \<not> success (post k)))"
  using join_attempts_spec [OF assms [unfolded joinPeer_def]] by simp

theorem join_retries_witness:
  "joinPeer (\<lambda>k. if k = 2 then Inr 200 else Inr 500) = (Inr (), 3)"
proof -
  let ?post = "\<lambda>k::nat. if k = 2 then Inr 200 else Inr 500 :: nat res"
  obtain r made where j: "joinPeer ?post = (r, made)" by fastforce
  have s: "success (?post k) \<longleftrightarrow> k = 2" for k by (simp add: success_def)
  have "r = Inr ()" "0 < made" "made - 1 = 2"
    using join_retries [OF j] unfolding s by auto
  then show ?thesis using j by simp
qed

section \<open>Starting\<close>

text \<open>
  C37: when \<open>NewBroker\<close> fails before the Raft node is set, nothing it opened stays open;
  when it fails between then and the start of the HTTP server, only the partition logs and the retention
  workers of a topic that the node has opened meanwhile stay; when it fails later, and also when a broker
  that started is closed, exactly the two Raft stores and the transport stay open, less what the
  shutdown of the Raft node itself closes, and what is opened too late for \<open>Close\<close>.
\<close>
theorem start_up_releases:
  assumes "NewBroker env httpAddr peers c k a = (r, st)"
  shows "set (st_open (case r of Inl _ \<Rightarrow> st | Inr _ \<Rightarrow> close_started env st))
    = (if st_http st
       then ({StableStore, LogStore, Transport} - set (se_shutdown env))
         \<union> (if se_lateWorker env then {RetentionWorkers} else {}) \<union> (if se_lateLogs env then {TopicLogs} else {})
       else if st_raft st \<and> se_topic env then {TopicLogs, RetentionWorkers} else {})"
  using assms NewBroker_fails [of env httpAddr peers c k a _ st] NewBroker_then_Close [of env httpAddr peers c k a st]
    NewBroker_done(2) [of env httpAddr peers c k a st]
  by (cases r) (simp_all add: left_open_def topics_open_def)

theorem start_up_releases_witness:
  "\<exists>e st st'. NewBroker demo_env ''localhost:65000'' [] [] [] [] = (Inl e, st) \<and> set (st_open st) = {StableStore, LogStore}
     \<and> NewBroker demo_env ''localhost:8080'' [] [] [] [] = (Inr (), st')
     \<and> set (st_open (close_started demo_env st')) = {StableStore, LogStore}"
proof -
  obtain e st where f: "NewBroker demo_env ''localhost:65000'' [] [] [] [] = (Inl e, st)" "st_http st"
    using demo_start_fails by blast
  obtain st' where o: "NewBroker demo_env ''localhost:8080'' [] [] [] [] = (Inr (), st')"
    using NewBroker_ok [OF demo_starts] by blast
  have "set (st_open st) = {StableStore, LogStore}" "set (st_open (close_started demo_env st')) = {StableStore, LogStore}"
    using start_up_releases [OF f(1)] start_up_releases [OF o] f(2) NewBroker_done(2) [OF o]
    by (auto simp: demo_env_def)
  then show ?thesis using f(1) o by blast
qed

text \<open>
  C38: a broker started with all three TLS files accepts and opens Raft connections only with
  TLS 1.3, verifying the peer on both sides, and asks the same of gRPC clients; if any of the three is
  missing, even with the other two given, Raft and gRPC run in the clear.
\<close>
theorem raft_tls:
  assumes "NewBroker env httpAddr peers c k a = (Inr (), st)"
  shows "if c \<noteq> [] \<and> k \<noteq> [] \<and> a \<noteq> []
    then \<exists>layer creds. st_layer st = Some layer \<and> st_creds st = Some creds
      \<and> tls_MinVersion creds = VersionTLS13 \<and> tls_VerifyClient creds
      \<and> (\<forall>conn. \<exists>config. stream_Accept layer (Inr conn) = Inr (Secure config conn)
            \<and> tls_MinVersion config = VersionTLS13 \<and> tls_VerifyClient config)
      \<and> (\<forall>dial dialTLS address. \<exists>config name. stream_Dial layer dial dialTLS address = dialTLS config name address
            \<and> tls_MinVersion config = VersionTLS13 \<and> tls_RootCAs config \<noteq> None)
    else st_layer st = None \<and> st_creds st = None"
proof (cases "tls_enabled c k a")
  case False
  then show ?thesis using NewBroker_done(4,5) [OF assms] by (auto simp: tls_enabled_def)
next
  case True
  obtain layer where layer: "st_layer st = Some layer" "loaded_layer (se_pki env) c k a layer"
    using NewBroker_done(4) [OF assms] True by auto
  obtain creds where creds: "LoadServerTLSConfig (se_pki_grpc env) c k a = Inr creds" "st_creds st = Some creds"
    using NewBroker_done(5) [OF assms] True
    by (cases "LoadServerTLSConfig (se_pki_grpc env) c k a") auto
  show ?thesis
    unfolding if_P [OF True [unfolded tls_enabled_def]]
    by (intro loaded_layer_accepts [OF layer(2)] loaded_layer_dials [OF layer(2)]
        LoadServerTLSConfig_ok(1,2) [OF creds(1)] layer(1) creds(2) conjI allI exI [of _ layer] exI [of _ creds])
qed

theorem raft_tls_witness:
  "\<exists>st st'. NewBroker demo_env ''localhost:8080'' [] ''cert'' ''key'' ''ca'' = (Inr (), st)
     \<and> (\<exists>layer. st_layer st = Some layer)
     \<and> NewBroker demo_env ''localhost:8080'' [] ''cert'' ''key'' [] = (Inr (), st') \<and> st_layer st' = None"
proof -
  obtain st st' where "NewBroker demo_env ''localhost:8080'' [] ''cert'' ''key'' ''ca'' = (Inr (), st)"
    "NewBroker demo_env ''localhost:8080'' [] ''cert'' ''key'' [] = (Inr (), st')"
    using NewBroker_ok [OF demo_starts] by blast
  moreover note raft_tls [OF this(1)] raft_tls [OF this(2)]
  ultimately show ?thesis by auto
qed

section \<open>Shutdown\<close>

text \<open>
  C39: in every interleaving of \<open>Close\<close> with the background workers and with
  requests that create topics, once \<open>Close\<close> has stopped the workers the compaction worker and the
  lag worker have returned, each after its stop channel was closed.
\<close>
theorem close_waits_for_workers:
  assumes "sd_step\<^sup>*\<^sup>* sd_init s" and "sd_closer s = Stopped"
    and "(g, w) \<in> set (sd_workers s)" and "g \<noteq> RetainWorkers"
  shows "w = Returned \<and> sd_closed s g"
  using sd_safe_run [OF assms(1) sd_safe_init] assms(2-4) by (simp add: sd_safe_def)

theorem close_waits_for_workers_witness:
  "\<exists>s. sd_step\<^sup>*\<^sup>* sd_init s \<and> sd_closer s = Stopped \<and> (LagWorkers, Returned) \<in> set (sd_workers s)"
proof -
  obtain s where s: "sd_step\<^sup>*\<^sup>* sd_init s" "sd_closer s = Stopped" using late_worker_reached by blast
  obtain w where w: "(LagWorkers, w) \<in> set (sd_workers s)" using lag_worker_stays [OF s(1)] by blast
  then have "w = Returned" using close_waits_for_workers [OF s w] by simp
  then show ?thesis using s w by blast
qed

text \<open>
  C40: two defects of the shutdown. A worker that is still in its round when \<open>Close\<close> has set
  the stop field of its group to nil waits on the nil channel from then on: it never returns, and if
  \<open>Close\<close> has still to wait for the group, \<open>Close\<close> never finishes. Both can happen: there is an
  interleaving that brings \<open>Close\<close> to such a wait, and one in which \<open>Close\<close> finishes while a retention
  worker is left, that of a topic which a request has created while \<open>Close\<close> was at work.
\<close>
theorem close_can_hang:
  "(\<forall>s i g. \<not> sd_field s g \<and> worker_at s i g Working \<longrightarrow>
      (\<forall>s'. sd_step\<^sup>*\<^sup>* s s' \<longrightarrow> (\<exists>w. worker_at s' i g w \<and> w \<noteq> Returned))
      \<and> (sd_closer s = Stopping g FieldNil \<longrightarrow> \<not> (\<exists>s'. sd_step\<^sup>*\<^sup>* s s' \<and> sd_closer s' = Stopped)))
   \<and> (\<exists>s i. sd_step\<^sup>*\<^sup>* sd_init s \<and> sd_closer s = Stopping CompactWorkers FieldNil
        \<and> \<not> sd_field s CompactWorkers \<and> worker_at s i CompactWorkers Working)
   \<and> (\<exists>s i. sd_step\<^sup>*\<^sup>* sd_init s \<and> sd_closer s = Stopped
        \<and> \<not> sd_field s RetainWorkers \<and> worker_at s i RetainWorkers Working)"
proof (intro conjI allI impI)
  fix s s' i g assume w: "\<not> sd_field s g \<and> worker_at s i g Working"
  then have l: "lost i g s" by (simp add: lost_def)
  show "\<exists>w. worker_at s' i g w \<and> w \<noteq> Returned" if "sd_step\<^sup>*\<^sup>* s s'"
    using lost_run [OF that l] by (auto simp: lost_def)
  show "\<not> (\<exists>s'. sd_step\<^sup>*\<^sup>* s s' \<and> sd_closer s' = Stopped)" if "sd_closer s = Stopping g FieldNil"
    using stuck_run [OF _ l that] by auto
qed (use stuck_reached late_worker_reached in blast)+

theorem close_can_hang_witness:
  "\<exists>s. sd_step\<^sup>*\<^sup>* sd_init s \<and> \<not> (\<exists>s'. sd_step\<^sup>*\<^sup>* s s' \<and> sd_closer s' = Stopped)"
  using close_can_hang by blast

end
